(* ===== verification/IS_Prelude.thy ===== *)
theory IS_Prelude
  imports Main "HOL-Library.Word" "HOL-Library.Multiset"
begin

unbundle bit_operations_syntax

text \<open>
  Shared vocabulary of the development: the machine types of the C sources, what can go wrong in
  a C operation as a value, bounds-checked array access, the shape of the sources' counting loops,
  the counting lemmas the accounting invariants of the daemon and of the block device use, and the
  decimal notation of numbers that both read.
\<close>

section \<open>Machine types\<close>

type_synonym u8 = "8 word"
type_synonym u16 = "16 word"
type_synonym u32 = "32 word"
type_synonym u64 = "64 word"

section \<open>Failing operations\<close>

text \<open>
  A C operation that would leave the language's defined behaviour, end the process or wait for
  ever is an error value:
  \<^item> \<open>Out_Of_Bounds\<close>: an access outside an array;
  \<^item> \<open>Null_Deref\<close>: a NULL pointer is followed;
  \<^item> \<open>Uninit_Read\<close>: an object is read that was never written;
  \<^item> \<open>Bad_Free\<close>: a block is freed that is not allocated;
  \<^item> \<open>Use_After_Free\<close>: a freed block, a destroyed object or an error pointer is used;
  \<^item> \<open>Overflow\<close>: a signed integer computation leaves its range;
  \<^item> \<open>Div_By_Zero\<close>: an integer is divided by zero;
  \<^item> \<open>Died\<close>: \<open>die\<close>, \<open>TEST_Z\<close> and \<open>TEST_NZ\<close> end the process;
  \<^item> \<open>Blocked\<close>: a busy wait or a semaphore wait that nothing in the model can end.
\<close>

datatype c_error = Out_Of_Bounds | Null_Deref | Uninit_Read | Bad_Free | Use_After_Free | Overflow | Div_By_Zero | Died | Blocked

type_synonym 'a res = "c_error + 'a"

definition bind_res :: "'a res \<Rightarrow> ('a \<Rightarrow> 'b res) \<Rightarrow> 'b res" where
  "bind_res m f = (case m of Inl e \<Rightarrow> Inl e | Inr x \<Rightarrow> f x)"

definition is_ok :: "'a res \<Rightarrow> bool" where
  "is_ok m = (case m of Inl _ \<Rightarrow> False | Inr _ \<Rightarrow> True)"

lemma bind_res_simps [simp]:
  "bind_res (Inl e) f = Inl e"
  "bind_res (Inr x) f = f x"
  by (simp_all add: bind_res_def)

lemma bind_res_Inr_iff: "bind_res m f = Inr y \<longleftrightarrow> (\<exists>x. m = Inr x \<and> f x = Inr y)"
  by (cases m) simp_all

lemma bind_res_InrE [elim]:
  assumes "bind_res m f = Inr y"
  obtains x where "m = Inr x" and "f x = Inr y"
  using assms by (auto simp: bind_res_Inr_iff)

lemma is_ok_iff: "is_ok m \<longleftrightarrow> (\<exists>x. m = Inr x)"
  by (cases m) (simp_all add: is_ok_def)

lemma is_ok_simps [simp]: "is_ok (Inr x)" "\<not> is_ok (Inl e)"
  by (simp_all add: is_ok_def)

section \<open>Arrays\<close>

text \<open>A C array is a list of its length; the index is a C \<open>int\<close> and may be negative.\<close>

definition arr_get :: "'a list \<Rightarrow> int \<Rightarrow> 'a res" where
  "arr_get xs i = (if 0 \<le> i \<and> i < int (length xs) then Inr (xs ! nat i) else Inl Out_Of_Bounds)"

definition arr_set :: "'a list \<Rightarrow> int \<Rightarrow> 'a \<Rightarrow> 'a list res" where
  "arr_set xs i v =
     (if 0 \<le> i \<and> i < int (length xs) then Inr (xs[nat i := v]) else Inl Out_Of_Bounds)"

lemma arr_get_nat [simp]: "i < length xs \<Longrightarrow> arr_get xs (int i) = Inr (xs ! i)"
  by (simp add: arr_get_def)

lemma arr_set_nat [simp]: "i < length xs \<Longrightarrow> arr_set xs (int i) v = Inr (xs[i := v])"
  by (simp add: arr_set_def)

lemma arr_get_ok [simp]: "0 \<le> i \<Longrightarrow> i < int (length xs) \<Longrightarrow> arr_get xs i = Inr (xs ! nat i)"
  by (simp add: arr_get_def)

lemma arr_set_ok [simp]: "0 \<le> i \<Longrightarrow> i < int (length xs) \<Longrightarrow> arr_set xs i v = Inr (xs[nat i := v])"
  by (simp add: arr_set_def)

lemma arr_get_InrD: "arr_get xs i = Inr v \<Longrightarrow> 0 \<le> i \<and> i < int (length xs) \<and> v = xs ! nat i"
  by (auto simp: arr_get_def split: if_splits)

lemma arr_set_InrD:
  "arr_set xs i v = Inr ys \<Longrightarrow> 0 \<le> i \<and> i < int (length xs) \<and> ys = xs[nat i := v]"
  by (auto simp: arr_set_def split: if_splits)

lemma arr_set_length: "arr_set xs i v = Inr ys \<Longrightarrow> length ys = length xs"
  by (auto dest: arr_set_InrD)

text \<open>Sequencing where a step may also not return (None).\<close>

definition bind_ro :: "'a res option \<Rightarrow> ('a \<Rightarrow> 'b res option) \<Rightarrow> 'b res option" where
  "bind_ro m f = (case m of None \<Rightarrow> None | Some (Inl e) \<Rightarrow> Some (Inl e) | Some (Inr x) \<Rightarrow> f x)"

lemma bind_ro_simps [simp]:
  "bind_ro None f = None" "bind_ro (Some (Inl e)) f = Some (Inl e)" "bind_ro (Some (Inr x)) f = f x"
  by (simp_all add: bind_ro_def)

fun for_ro :: "(nat \<Rightarrow> 's \<Rightarrow> 's res option) \<Rightarrow> nat list \<Rightarrow> 's \<Rightarrow> 's res option" where
  "for_ro body [] s = Some (Inr s)"
| "for_ro body (i # is) s = bind_ro (body i s) (for_ro body is)"

lemma for_ro_append: "for_ro body (is @ js) s = bind_ro (for_ro body is s) (for_ro body js)"
proof (induction "is" arbitrary: s)
  case (Cons i "is")
  then show ?case by (cases "body i s") (auto simp: bind_ro_def split: sum.splits option.splits)
qed simp

lemma for_ro_inv:
  assumes init: "P 0 s"
    and step: "\<And>i s. i < n \<Longrightarrow> P i s \<Longrightarrow> \<exists>s'. body i s = Some (Inr s') \<and> P (Suc i) s'"
  shows "\<exists>s'. for_ro body [0..<n] s = Some (Inr s') \<and> P n s'"
proof -
  have "\<exists>s'. for_ro body [0..<k] s = Some (Inr s') \<and> P k s'" if "k \<le> n" for k
    using that
  proof (induction k)
    case 0
    then show ?case using init by simp
  next
    case (Suc k)
    then obtain t where "for_ro body [0..<k] s = Some (Inr t)" "P k t" by auto
    with step [of k t] Suc.prems show ?case by (auto simp: for_ro_append)
  qed
  then show ?thesis by simp
qed

section \<open>Counting loops\<close>

text \<open>
  \<open>for (i = 0; i < n; i++) body\<close> is a fold of the body over \<open>[0..<n]\<close> that stops at the first
  error. \<open>for_res_inv\<close> is its loop rule: an invariant indexed by the number of rounds.
\<close>

fun for_res :: "(nat \<Rightarrow> 's \<Rightarrow> 's res) \<Rightarrow> nat list \<Rightarrow> 's \<Rightarrow> 's res" where
  "for_res body [] s = Inr s"
| "for_res body (i # is) s = bind_res (body i s) (for_res body is)"

lemma for_res_append:
  "for_res body (is @ js) s = bind_res (for_res body is s) (for_res body js)"
proof (induction "is" arbitrary: s)
  case Nil
  then show ?case by simp
next
  case (Cons i "is")
  then show ?case by (cases "body i s") simp_all
qed

lemma for_res_inv:
  assumes init: "P 0 s"
    and step: "\<And>i s. i < n \<Longrightarrow> P i s \<Longrightarrow> \<exists>s'. body i s = Inr s' \<and> P (Suc i) s'"
  shows "\<exists>s'. for_res body [0..<n] s = Inr s' \<and> P n s'"
proof -
  have "k \<le> n \<Longrightarrow> \<exists>s'. for_res body [0..<k] s = Inr s' \<and> P k s'" for k
  proof (induction k)
    case 0
    then show ?case using init by simp
  next
    case (Suc k)
    then obtain t where t: "for_res body [0..<k] s = Inr t" "P k t" by auto
    with step [of k t] Suc.prems obtain s' where "body k t = Inr s'" "P (Suc k) s'" by auto
    with t show ?case by (simp add: for_res_append)
  qed
  then show ?thesis by simp
qed

lemma for_res_cong:
  "(\<And>i s. i \<in> set is \<Longrightarrow> f i s = g i s) \<Longrightarrow> for_res f is s = for_res g is s"
proof (induction "is" arbitrary: s)
  case (Cons i "is")
  then show ?case by (cases "g i s") simp_all
qed simp

text \<open>An array filled up to \<open>n\<close> by a loop, one entry further.\<close>

lemma map_upt_fill:
  "(map (\<lambda>i. if i < n then f i else g i) [0..<m])[n := f n] =
     map (\<lambda>i. if i < Suc n then f i else g i) [0..<m]"
  by (rule nth_equalityI) (auto simp: nth_list_update less_Suc_eq)

section \<open>Counting array entries\<close>

definition count_if :: "('a \<Rightarrow> bool) \<Rightarrow> 'a list \<Rightarrow> int" where
  "count_if P xs = int (length (filter P xs))"

lemma count_if_simps [simp]:
  "count_if P [] = 0"
  "count_if P (x # xs) = of_bool (P x) + count_if P xs"
  by (simp_all add: count_if_def)

lemma count_if_append [simp]: "count_if P (xs @ ys) = count_if P xs + count_if P ys"
  by (simp add: count_if_def)

lemma count_if_nonneg [simp]: "0 \<le> count_if P xs"
  by (simp add: count_if_def)

lemma count_if_le_length: "count_if P xs \<le> int (length xs)"
  by (simp add: count_if_def)

lemma count_if_replicate [simp]: "count_if P (replicate n x) = (if P x then int n else 0)"
  by (simp add: count_if_def)

lemma count_if_update:
  "i < length xs \<Longrightarrow>
     count_if P (xs[i := v]) = count_if P xs - of_bool (P (xs ! i)) + of_bool (P v)"
proof (induction xs arbitrary: i)
  case (Cons x xs)
  then show ?case by (cases i) simp_all
qed simp

lemma count_if_pos_iff: "0 < count_if P xs \<longleftrightarrow> (\<exists>i<length xs. P (xs ! i))"
  by (simp add: count_if_def filter_empty_conv) (metis in_set_conv_nth)

lemma count_if_zero_iff: "count_if P xs = 0 \<longleftrightarrow> (\<forall>i<length xs. \<not> P (xs ! i))"
  by (simp add: count_if_def filter_empty_conv) (metis in_set_conv_nth)

lemma count_if_full_iff: "count_if P xs = int (length xs) \<longleftrightarrow> (\<forall>i<length xs. P (xs ! i))"
proof -
  have "count_if P xs + count_if (\<lambda>x. \<not> P x) xs = int (length xs)"
    by (induction xs) simp_all
  then have "count_if P xs = int (length xs) \<longleftrightarrow> count_if (\<lambda>x. \<not> P x) xs = 0" by linarith
  then show ?thesis by (simp add: count_if_zero_iff)
qed

lemma count_if_mono:
  assumes "length xs = length ys" and "\<And>i. i < length xs \<Longrightarrow> P (xs ! i) \<Longrightarrow> Q (ys ! i)"
  shows "count_if P xs \<le> count_if Q ys"
  using assms
proof (induction xs ys rule: list_induct2)
  case (Cons x xs y ys)
  have "P x \<Longrightarrow> Q y" using Cons.prems [of 0] by simp
  moreover have "count_if P xs \<le> count_if Q ys"
    using Cons.prems [of "Suc _"] by (intro Cons.IH) auto
  ultimately show ?case by (cases "P x") auto
qed simp

lemma count_if_cong:
  assumes "length xs = length ys" and "\<And>i. i < length xs \<Longrightarrow> P (xs ! i) \<longleftrightarrow> Q (ys ! i)"
  shows "count_if P xs = count_if Q ys"
  using assms count_if_mono [of xs ys P Q] count_if_mono [of ys xs Q P] by (simp add: order_antisym)

section \<open>Decimal notation\<close>

text \<open>The decimal notation of a number.\<close>

fun show_nat :: "nat \<Rightarrow> string" where
  "show_nat n = (if n < 10 then [char_of (48 + n)] else show_nat (n div 10) @ [char_of (48 + n mod 10)])"

declare show_nat.simps [simp del]

definition is_digit :: "char \<Rightarrow> bool" where
  "is_digit ch \<longleftrightarrow> 48 \<le> (of_char ch :: nat) \<and> (of_char ch :: nat) \<le> 57"

lemma show_nat_chars: "list_all is_digit (show_nat n)"
proof (induction n rule: show_nat.induct)
  case (1 n)
  have "n mod 10 \<le> 9" by simp
  then show ?case using 1 by (simp add: show_nat.simps [of n]) (simp add: is_digit_def)
qed

lemma no_digit_newline: "\<not> is_digit (CHR 0x0A)" "\<not> is_digit (CHR 0x00)"
  by (simp_all add: is_digit_def)

definition digits_value :: "string \<Rightarrow> nat" where
  "digits_value = foldl (\<lambda>n ch. n * 10 + (of_char ch - 48)) 0"

lemma digits_value_show_nat: "digits_value (show_nat n) = n"
proof (induction n rule: show_nat.induct)
  case (1 n)
  show ?case
  proof (cases "n < 10")
    case True
    then show ?thesis by (simp add: show_nat.simps [of n] digits_value_def)
  next
    case False
    moreover have "n mod 10 < 10" by simp
    moreover have "n div 10 * 10 + n mod 10 = n" by simp
    ultimately show ?thesis using 1 by (simp add: show_nat.simps [of n] digits_value_def)
  qed
qed

lemma show_nat_Cons: "\<exists>ch l. show_nat n = ch # l \<and> is_digit ch"
  using show_nat_chars [of n] by (cases "show_nat n") (auto simp: show_nat.simps [of n] split: if_splits)

end
