(* ===== verification/Bitmap.thy ===== *)
theory Bitmap
  imports IS_Prelude
begin

text \<open>
  The page bitmap of a remote chunk (\<open>is_mq.c\<close>, lines 875 to 915): one bit per 4 KB page of a
  1 GB chunk, kept in an array of 8192 C \<open>int\<close>s, each read here as its 32-bit pattern. A set bit
  says that the remote copy of the page has been written.
\<close>

section \<open>Constants of infiniswap.h\<close>

definition BITMAP_SHIFT :: nat where "BITMAP_SHIFT = 5"
definition BITMAP_MASK :: int where "BITMAP_MASK = 0x1f"
definition BITMAP_INT_SIZE :: nat where "BITMAP_INT_SIZE = 8192"
definition IS_PAGE_SIZE :: nat where "IS_PAGE_SIZE = 4096"
definition ONE_GB :: nat where "ONE_GB = 1073741824"

lemmas bitmap_consts = BITMAP_SHIFT_def BITMAP_MASK_def BITMAP_INT_SIZE_def IS_PAGE_SIZE_def ONE_GB_def

text \<open>The cast \<open>(int)x\<close> of an \<open>unsigned long\<close>: the low 32 bits, read as two's complement.\<close>

definition int_of_ulong :: "u64 \<Rightarrow> int" where
  "int_of_ulong x = sint (ucast x :: u32)"

lemma int_of_ulong_small: "unat x < 2 ^ 31 \<Longrightarrow> int_of_ulong x = int (unat x)"
proof -
  assume "unat x < 2 ^ 31"
  then have small: "uint x < 2 ^ 31" by (metis of_nat_less_iff of_nat_numeral of_nat_power uint_nat)
  then have "take_bit 32 (uint x) = uint x"
    by (intro take_bit_int_eq_self) (simp, erule order_less_trans, simp)
  then have "uint (ucast x :: u32) = uint x"
    using unsigned_ucast_eq [where ?'c = 32 and ?'a = int, of x] by simp
  moreover have "signed_take_bit 31 (uint x) = uint x"
    using small by (intro signed_take_bit_int_eq_self) (rule order_trans [of _ 0], simp_all)
  ultimately have "int_of_ulong x = uint x" by (simp add: int_of_ulong_def sint_uint)
  then show ?thesis by simp
qed

section \<open>Operations\<close>

definition IS_bitmap_set :: "u32 list \<Rightarrow> int \<Rightarrow> u32 list res" where
  "IS_bitmap_set bitmap i =
     bind_res (arr_get bitmap (drop_bit BITMAP_SHIFT i))
       (\<lambda>w. arr_set bitmap (drop_bit BITMAP_SHIFT i) (w OR push_bit (nat (i AND BITMAP_MASK)) 1))"

definition IS_bitmap_clear :: "u32 list \<Rightarrow> int \<Rightarrow> u32 list res" where
  "IS_bitmap_clear bitmap i =
     bind_res (arr_get bitmap (drop_bit BITMAP_SHIFT i))
       (\<lambda>w. arr_set bitmap (drop_bit BITMAP_SHIFT i)
              (w AND NOT (push_bit (nat (i AND BITMAP_MASK)) 1)))"

definition IS_bitmap_test :: "u32 list \<Rightarrow> int \<Rightarrow> bool res" where
  "IS_bitmap_test bitmap i =
     bind_res (arr_get bitmap (drop_bit BITMAP_SHIFT i))
       (\<lambda>w. Inr (w AND push_bit (nat (i AND BITMAP_MASK)) 1 \<noteq> 0))"

text \<open>\<open>memset(bitmap, 0x00, ONE_GB/(4096*8))\<close>: the size is in bytes, four to an \<open>int\<close>.\<close>

definition IS_bitmap_init :: "u32 list \<Rightarrow> u32 list res" where
  "IS_bitmap_init bitmap =
     (let n = ONE_GB div (4096 * 8) div 4
      in if n \<le> length bitmap then Inr (replicate n 0 @ drop n bitmap) else Inl Out_Of_Bounds)"

definition IS_bitmap_group_set :: "u32 list \<Rightarrow> u64 \<Rightarrow> u64 \<Rightarrow> u32 list res" where
  "IS_bitmap_group_set bitmap offset len =
     (let start_page = int_of_ulong (offset div of_nat IS_PAGE_SIZE);
          len_page = int_of_ulong (len div of_nat IS_PAGE_SIZE)
      in for_res (\<lambda>i bm. IS_bitmap_set bm (start_page + int i)) [0..<nat len_page] bitmap)"

definition IS_bitmap_group_clear :: "u32 list \<Rightarrow> u64 \<Rightarrow> u64 \<Rightarrow> u32 list res" where
  "IS_bitmap_group_clear bitmap offset len =
     (let start_page = int_of_ulong (offset div of_nat IS_PAGE_SIZE);
          len_page = int_of_ulong (len div of_nat IS_PAGE_SIZE)
      in for_res (\<lambda>i bm. IS_bitmap_clear bm (start_page + int i)) [0..<nat len_page] bitmap)"

definition bitmap_wf :: "u32 list \<Rightarrow> bool" where
  "bitmap_wf bitmap \<longleftrightarrow> length bitmap = BITMAP_INT_SIZE"

definition bitmap_pages :: int where "bitmap_pages = 262144"

section \<open>The contract: a set of recorded pages\<close>

text \<open>
  What the request path relies on. A well-formed bitmap stands for the set of pages whose bit is
  set; every operation on a page of the chunk succeeds and changes that set as its name says. The
  group operations, which fold the single-bit ones, are treated once, from these laws.
\<close>

locale page_bitmap =
  fixes bset :: "'b \<Rightarrow> int \<Rightarrow> 'b res"
    and bclear :: "'b \<Rightarrow> int \<Rightarrow> 'b res"
    and btest :: "'b \<Rightarrow> int \<Rightarrow> bool res"
    and valid :: "'b \<Rightarrow> bool"
    and npages :: int
  assumes test_ok: "valid b \<Longrightarrow> 0 \<le> i \<Longrightarrow> i < npages \<Longrightarrow> \<exists>t. btest b i = Inr t"
    and set_ok: "valid b \<Longrightarrow> 0 \<le> i \<Longrightarrow> i < npages \<Longrightarrow>
       \<exists>b'. bset b i = Inr b' \<and> valid b' \<and>
         (\<forall>j. 0 \<le> j \<longrightarrow> j < npages \<longrightarrow> btest b' j = (if j = i then Inr True else btest b j))"
    and clear_ok: "valid b \<Longrightarrow> 0 \<le> i \<Longrightarrow> i < npages \<Longrightarrow>
       \<exists>b'. bclear b i = Inr b' \<and> valid b' \<and>
         (\<forall>j. 0 \<le> j \<longrightarrow> j < npages \<longrightarrow> btest b' j = (if j = i then Inr False else btest b j))"
begin

text \<open>A loop over one single-bit operation \<open>op\<close> that stores the bit value \<open>v\<close>.\<close>

lemma group_op_ok:
  assumes op_ok: "\<And>b i. valid b \<Longrightarrow> 0 \<le> i \<Longrightarrow> i < npages \<Longrightarrow>
       \<exists>b'. op b i = Inr b' \<and> valid b' \<and>
         (\<forall>j. 0 \<le> j \<longrightarrow> j < npages \<longrightarrow> btest b' j = (if j = i then Inr v else btest b j))"
    and "valid b" and "0 \<le> start" and "start + int n \<le> npages"
  shows "\<exists>b'. for_res (\<lambda>k bm. op bm (start + int k)) [0..<n] b = Inr b' \<and> valid b' \<and>
     (\<forall>j. 0 \<le> j \<longrightarrow> j < npages \<longrightarrow>
        btest b' j = (if start \<le> j \<and> j < start + int n then Inr v else btest b j))"
    (is "\<exists>b'. _ = Inr b' \<and> ?inv n b'")
proof (rule for_res_inv [where P = ?inv])
  show "?inv 0 b" using assms(2) by auto
next
  fix k bm
  assume "k < n" and inv: "?inv k bm"
  with assms have range: "0 \<le> start + int k" "start + int k < npages" by auto
  with inv op_ok [of bm "start + int k"] obtain b' where
    b': "op bm (start + int k) = Inr b'" "valid b'" and
    t: "\<And>j. 0 \<le> j \<Longrightarrow> j < npages \<Longrightarrow>
          btest b' j = (if j = start + int k then Inr v else btest bm j)" by blast
  have "btest b' j = (if start \<le> j \<and> j < start + int (Suc k) then Inr v else btest b j)"
    if "0 \<le> j" "j < npages" for j
    using t [OF that] inv that range by (auto split: if_splits)
  with b' show "\<exists>b'. op bm (start + int k) = Inr b' \<and> ?inv (Suc k) b'" by blast
qed

lemma group_set_ok:
  assumes "valid b" and "0 \<le> start" and "start + int n \<le> npages"
  shows "\<exists>b'. for_res (\<lambda>k bm. bset bm (start + int k)) [0..<n] b = Inr b' \<and> valid b' \<and>
     (\<forall>j. 0 \<le> j \<longrightarrow> j < npages \<longrightarrow>
        btest b' j = (if start \<le> j \<and> j < start + int n then Inr True else btest b j))"
  using set_ok assms by (rule group_op_ok)

lemma group_clear_ok:
  assumes "valid b" and "0 \<le> start" and "start + int n \<le> npages"
  shows "\<exists>b'. for_res (\<lambda>k bm. bclear bm (start + int k)) [0..<n] b = Inr b' \<and> valid b' \<and>
     (\<forall>j. 0 \<le> j \<longrightarrow> j < npages \<longrightarrow>
        btest b' j = (if start \<le> j \<and> j < start + int n then Inr False else btest b j))"
  using clear_ok assms by (rule group_op_ok)

end

section \<open>The C bitmap meets the contract\<close>

lemma bitmap_index [simp]:
  "drop_bit BITMAP_SHIFT i = i div 32" "(i :: int) AND BITMAP_MASK = i mod 32"
proof -
  show "drop_bit BITMAP_SHIFT i = i div 32"
    by (simp add: BITMAP_SHIFT_def drop_bit_eq_div)
  have "(0x1f :: int) = mask 5" by (simp add: mask_eq_exp_minus_1)
  then show "i AND BITMAP_MASK = i mod 32"
    by (simp only: BITMAP_MASK_def flip: take_bit_eq_mask) (simp add: take_bit_eq_mod)
qed

lemma page_word_in_range:
  "bitmap_wf bm \<Longrightarrow> 0 \<le> i \<Longrightarrow> i < bitmap_pages \<Longrightarrow> 0 \<le> i div 32 \<and> i div 32 < int (length bm)"
proof -
  assume "bitmap_wf bm" "0 \<le> i" "i < bitmap_pages"
  then have "0 \<le> i" "i < 262144" and len: "int (length bm) = 8192"
    by (simp_all add: bitmap_wf_def bitmap_pages_def BITMAP_INT_SIZE_def)
  then have "0 \<le> i div 32" "i div 32 < 8192" by linarith+
  with len show ?thesis by simp
qed

lemma test_bit_and: "k < 32 \<Longrightarrow> (w :: u32) AND push_bit k 1 \<noteq> 0 \<longleftrightarrow> bit w k"
  by (simp add: and_exp_eq_0_iff_not_bit)

lemma page_eq_iff: "(j :: int) = i \<longleftrightarrow> j div 32 = i div 32 \<and> j mod 32 = i mod 32"
  by (metis mult_div_mod_eq)

lemma page_bit_less: "nat ((i :: int) mod 32) < 32"
  by (simp add: nat_less_iff)

lemma IS_bitmap_test_eq:
  assumes "bitmap_wf bm" "0 \<le> i" "i < bitmap_pages"
  shows "IS_bitmap_test bm i = Inr (bit (bm ! nat (i div 32)) (nat (i mod 32)))"
  using page_word_in_range [OF assms]
  by (simp add: IS_bitmap_test_def test_bit_and [OF page_bit_less] del: push_bit_of_1)

text \<open>An update of the word of page \<open>i\<close> that changes only the bit of page \<open>i\<close>.\<close>

lemma IS_bitmap_test_update:
  assumes "bitmap_wf bm" "0 \<le> i" "i < bitmap_pages" "0 \<le> j" "j < bitmap_pages"
    and w: "\<And>k. k < 32 \<Longrightarrow> bit w k = (if k = nat (i mod 32) then v else bit (bm ! nat (i div 32)) k)"
  shows "IS_bitmap_test (bm[nat (i div 32) := w]) j = (if j = i then Inr v else IS_bitmap_test bm j)"
proof -
  have wf: "bitmap_wf (bm[nat (i div 32) := w])" using assms(1) by (simp add: bitmap_wf_def)
  note range = page_word_in_range [OF assms(1-3)]
  let ?bit = "bit (bm[nat (i div 32) := w] ! nat (j div 32)) (nat (j mod 32))"
  have "?bit = (if j = i then v else bit (bm ! nat (j div 32)) (nat (j mod 32)))"
  proof (cases "j div 32 = i div 32")
    case True
    then have "?bit = bit w (nat (j mod 32))" using range by (simp add: nat_less_iff)
    moreover have "nat (j mod 32) = nat (i mod 32) \<longleftrightarrow> j = i"
      using True page_eq_iff [of j i] by (simp add: eq_nat_nat_iff)
    ultimately show ?thesis using w [OF page_bit_less] True by simp
  next
    case False
    with assms have "nat (j div 32) \<noteq> nat (i div 32)" by (simp add: eq_nat_nat_iff)
    with False show ?thesis by (metis nth_list_update_neq)
  qed
  then show ?thesis
    by (simp add: IS_bitmap_test_eq [OF wf assms(4,5)] IS_bitmap_test_eq [OF assms(1,4,5)])
qed

lemma IS_bitmap_set_eq:
  assumes "bitmap_wf b" "0 \<le> i" "i < bitmap_pages"
  shows "IS_bitmap_set b i = Inr (b[nat (i div 32) := b ! nat (i div 32) OR push_bit (nat (i mod 32)) 1])"
  using page_word_in_range [OF assms] by (simp add: IS_bitmap_set_def)

lemma IS_bitmap_clear_eq:
  assumes "bitmap_wf b" "0 \<le> i" "i < bitmap_pages"
  shows "IS_bitmap_clear b i =
     Inr (b[nat (i div 32) := b ! nat (i div 32) AND NOT (push_bit (nat (i mod 32)) 1)])"
  using page_word_in_range [OF assms] by (simp add: IS_bitmap_clear_def)

lemma bit_set_word:
  "k < 32 \<Longrightarrow> bit ((w :: u32) OR push_bit m 1) k = (if k = m then True else bit w k)"
  by (auto simp: bit_simps)

lemma bit_clear_word:
  "k < 32 \<Longrightarrow> bit ((w :: u32) AND NOT (push_bit m 1)) k = (if k = m then False else bit w k)"
  by (auto simp: bit_simps)

interpretation chunk_bitmap: page_bitmap IS_bitmap_set IS_bitmap_clear IS_bitmap_test bitmap_wf bitmap_pages
proof
  fix b i
  assume b: "bitmap_wf b" "0 \<le> i" "i < bitmap_pages"
  show "\<exists>t. IS_bitmap_test b i = Inr t" using IS_bitmap_test_eq [OF b] by blast
  let ?s = "b[nat (i div 32) := b ! nat (i div 32) OR push_bit (nat (i mod 32)) 1]"
  have "IS_bitmap_test ?s j = (if j = i then Inr True else IS_bitmap_test b j)"
    if "0 \<le> j" "j < bitmap_pages" for j
    by (rule IS_bitmap_test_update [OF b that]) (rule bit_set_word)
  moreover have "bitmap_wf ?s" using b by (simp add: bitmap_wf_def)
  ultimately show "\<exists>b'. IS_bitmap_set b i = Inr b' \<and> bitmap_wf b' \<and>
       (\<forall>j. 0 \<le> j \<longrightarrow> j < bitmap_pages \<longrightarrow>
          IS_bitmap_test b' j = (if j = i then Inr True else IS_bitmap_test b j))"
    using IS_bitmap_set_eq [OF b] by blast
  let ?c = "b[nat (i div 32) := b ! nat (i div 32) AND NOT (push_bit (nat (i mod 32)) 1)]"
  have "IS_bitmap_test ?c j = (if j = i then Inr False else IS_bitmap_test b j)"
    if "0 \<le> j" "j < bitmap_pages" for j
    by (rule IS_bitmap_test_update [OF b that]) (rule bit_clear_word)
  moreover have "bitmap_wf ?c" using b by (simp add: bitmap_wf_def)
  ultimately show "\<exists>b'. IS_bitmap_clear b i = Inr b' \<and> bitmap_wf b' \<and>
       (\<forall>j. 0 \<le> j \<longrightarrow> j < bitmap_pages \<longrightarrow>
          IS_bitmap_test b' j = (if j = i then Inr False else IS_bitmap_test b j))"
    using IS_bitmap_clear_eq [OF b] by blast
qed

section \<open>Whole-bitmap operations\<close>

text \<open>
  \<open>bitmap_value\<close> (\<open>is_main.c\<close>): one more than the number of non-zero words among every 32nd
  word, as an unsigned 32-bit count.
\<close>

definition bitmap_value :: "u32 list \<Rightarrow> u32 res" where
  "bitmap_value bitmap =
     for_res (\<lambda>k val. bind_res (arr_get bitmap (int (32 * k)))
                 (\<lambda>w. Inr (if w \<noteq> 0 then val + 1 else val)))
       [0..<BITMAP_INT_SIZE div 32] 1"

lemma IS_bitmap_init_eq: "bitmap_wf bm \<Longrightarrow> IS_bitmap_init bm = Inr (replicate BITMAP_INT_SIZE 0)"
  by (simp add: IS_bitmap_init_def bitmap_wf_def bitmap_consts)

lemma IS_bitmap_test_zero:
  "0 \<le> i \<Longrightarrow> i < bitmap_pages \<Longrightarrow> IS_bitmap_test (replicate BITMAP_INT_SIZE 0) i = Inr False"
  using page_word_in_range [of "replicate BITMAP_INT_SIZE 0" i]
  by (subst IS_bitmap_test_eq) (simp_all add: bitmap_wf_def nat_less_iff)

lemma bitmap_wf_replicate [simp]: "bitmap_wf (replicate BITMAP_INT_SIZE 0)"
  by (simp add: bitmap_wf_def)

text \<open>Page numbers of a byte range inside a chunk, as the group operations compute them.\<close>

definition first_page :: "u64 \<Rightarrow> int" where "first_page offset = int (unat offset div IS_PAGE_SIZE)"
definition page_count :: "u64 \<Rightarrow> nat" where "page_count len = unat len div IS_PAGE_SIZE"

lemma unat_div_page: "unat (x div of_nat IS_PAGE_SIZE :: u64) = unat x div IS_PAGE_SIZE"
  by (simp add: unat_div IS_PAGE_SIZE_def)

lemma group_page_range:
  assumes "unat offset + unat len \<le> ONE_GB"
  shows "int_of_ulong (offset div of_nat IS_PAGE_SIZE) = first_page offset"
    and "nat (int_of_ulong (len div of_nat IS_PAGE_SIZE)) = page_count len"
    and "0 \<le> first_page offset" and "first_page offset + int (page_count len) \<le> bitmap_pages"
proof -
  have b: "unat offset + unat len \<le> 1073741824" using assms by (simp add: ONE_GB_def)
  have "unat (offset div of_nat IS_PAGE_SIZE) < 2 ^ 31" "unat (len div of_nat IS_PAGE_SIZE) < 2 ^ 31"
    unfolding unat_div_page unfolding IS_PAGE_SIZE_def using b by auto
  then show "int_of_ulong (offset div of_nat IS_PAGE_SIZE) = first_page offset"
    "nat (int_of_ulong (len div of_nat IS_PAGE_SIZE)) = page_count len"
    by (simp_all add: int_of_ulong_small unat_div_page first_page_def page_count_def)
  show "0 \<le> first_page offset" by (simp add: first_page_def)
  have "unat offset div 4096 + unat len div 4096 \<le> 262144" using b by linarith
  then show "first_page offset + int (page_count len) \<le> bitmap_pages"
    by (simp add: first_page_def page_count_def bitmap_pages_def IS_PAGE_SIZE_def)
qed

text \<open>
  C33: setting a byte range of a chunk. For a well-formed bitmap and a range inside the 1 GB chunk,
  \<open>IS_bitmap_group_set\<close> stays inside the array, keeps the bitmap well formed, sets the bit of
  exactly the pages of the range and leaves every other bit as it was.
\<close>

theorem IS_bitmap_group_set_spec:
  assumes "bitmap_wf bm" and "unat offset + unat len \<le> ONE_GB"
  shows "\<exists>bm'. IS_bitmap_group_set bm offset len = Inr bm' \<and> bitmap_wf bm' \<and>
     (\<forall>p. 0 \<le> p \<longrightarrow> p < bitmap_pages \<longrightarrow>
        IS_bitmap_test bm' p =
          (if first_page offset \<le> p \<and> p < first_page offset + int (page_count len)
           then Inr True else IS_bitmap_test bm p))"
  using chunk_bitmap.group_set_ok [OF assms(1) group_page_range(3,4) [OF assms(2)]]
  by (simp add: IS_bitmap_group_set_def Let_def group_page_range(1,2) [OF assms(2)])

theorem IS_bitmap_group_set_spec_witness:
  "bitmap_wf (replicate BITMAP_INT_SIZE 0) \<and> unat (8192 :: u64) + unat (4096 :: u64) \<le> ONE_GB \<and>
   (\<exists>bm'. IS_bitmap_group_set (replicate BITMAP_INT_SIZE 0) 8192 4096 = Inr bm' \<and>
      IS_bitmap_test bm' 2 = Inr True \<and> IS_bitmap_test bm' 3 = Inr False)"
proof -
  have h: "bitmap_wf (replicate BITMAP_INT_SIZE 0)" "unat (8192 :: u64) + unat (4096 :: u64) \<le> ONE_GB"
    by (simp_all add: ONE_GB_def)
  have p: "first_page 8192 = 2" "page_count 4096 = 1"
    by (simp_all add: first_page_def page_count_def IS_PAGE_SIZE_def)
  have "IS_bitmap_test (replicate BITMAP_INT_SIZE 0) 3 = Inr False"
    by (rule IS_bitmap_test_zero) (simp_all add: bitmap_pages_def)
  then show ?thesis
    using h IS_bitmap_group_set_spec [OF h] by (auto simp: p bitmap_pages_def)
qed

text \<open>
  Clearing a byte range of a chunk, the counterpart: exactly the pages of the range lose their
  bit, inside the array and with the bitmap well formed.
\<close>

theorem IS_bitmap_group_clear_spec:
  assumes "bitmap_wf bm" and "unat offset + unat len \<le> ONE_GB"
  shows "\<exists>bm'. IS_bitmap_group_clear bm offset len = Inr bm' \<and> bitmap_wf bm' \<and>
     (\<forall>p. 0 \<le> p \<longrightarrow> p < bitmap_pages \<longrightarrow>
        IS_bitmap_test bm' p =
          (if first_page offset \<le> p \<and> p < first_page offset + int (page_count len)
           then Inr False else IS_bitmap_test bm p))"
  using chunk_bitmap.group_clear_ok [OF assms(1) group_page_range(3,4) [OF assms(2)]]
  by (simp add: IS_bitmap_group_clear_def Let_def group_page_range(1,2) [OF assms(2)])

theorem IS_bitmap_group_clear_spec_witness:
  "bitmap_wf (replicate BITMAP_INT_SIZE 0xFFFFFFFF) \<and>
   unat (1073737728 :: u64) + unat (4096 :: u64) \<le> ONE_GB \<and>
   (\<exists>bm'. IS_bitmap_group_clear (replicate BITMAP_INT_SIZE 0xFFFFFFFF) 1073737728 4096 = Inr bm' \<and>
      IS_bitmap_test bm' 262143 = Inr False)"
proof -
  have h: "bitmap_wf (replicate BITMAP_INT_SIZE 0xFFFFFFFF)"
    "unat (1073737728 :: u64) + unat (4096 :: u64) \<le> ONE_GB"
    by (simp_all add: ONE_GB_def bitmap_wf_def)
  have p: "first_page 1073737728 = 262143" "page_count 4096 = 1"
    by (simp_all add: first_page_def page_count_def IS_PAGE_SIZE_def)
  show ?thesis
    using h IS_bitmap_group_clear_spec [OF h] by (auto simp: p bitmap_pages_def)
qed

end
