(* ===== verification/IS_Types.thy ===== *)
theory IS_Types
  imports Bitmap
begin

text \<open>
  The data of the block device (\<open>infiniswap.h\<close>): its enumerations, with the order the code
  compares them in, and its structs. Pointers between structs become indices: a control block is its
  index in \<open>cb_list\<close>, a remote chunk its index in the control block's \<open>chunk_list\<close>, a
  transfer context its slot in its pool. Of the verbs objects the model keeps whether they are allocated; fields that only feed the kernel
  (locks, wait queues, DMA addresses, address strings) are left out. The branches of
  the preprocessor taken are those of kernel 4.4 and later.
\<close>

section \<open>Build-time constants (defaults)\<close>

definition IS_QUEUE_DEPTH :: nat where "IS_QUEUE_DEPTH = 256"
definition MAX_MR_SIZE_GB :: nat where "MAX_MR_SIZE_GB = 32"
definition STACKBD_SIZE_G :: nat where "STACKBD_SIZE_G = 12"
definition MAX_SGL_LEN :: nat where "MAX_SGL_LEN = 1"
definition QUEUE_NUM_MASK :: u64 where "QUEUE_NUM_MASK = 0x1f"
definition NO_CB_MAPPED :: int where "NO_CB_MAPPED = -1"
definition CHUNK_MAPPED :: int where "CHUNK_MAPPED = 1"
definition CHUNK_UNMAPPED :: int where "CHUNK_UNMAPPED = 0"
definition DEV_RDMA_ON :: int where "DEV_RDMA_ON = 1"
definition DEV_RDMA_OFF :: int where "DEV_RDMA_OFF = 0"
definition TRIGGER_ON :: int where "TRIGGER_ON = 1"
definition TRIGGER_OFF :: int where "TRIGGER_OFF = 0"
definition CTX_IDLE :: int where "CTX_IDLE = 0"
definition CTX_R_IN_FLIGHT :: int where "CTX_R_IN_FLIGHT = 1"
definition CTX_W_IN_FLIGHT :: int where "CTX_W_IN_FLIGHT = 2"

lemmas is_consts = IS_QUEUE_DEPTH_def MAX_MR_SIZE_GB_def STACKBD_SIZE_G_def MAX_SGL_LEN_def
  QUEUE_NUM_MASK_def NO_CB_MAPPED_def CHUNK_MAPPED_def CHUNK_UNMAPPED_def DEV_RDMA_ON_def
  DEV_RDMA_OFF_def TRIGGER_ON_def TRIGGER_OFF_def CTX_IDLE_def CTX_R_IN_FLIGHT_def CTX_W_IN_FLIGHT_def

section \<open>Enumerations\<close>

text \<open>Message types, shared with the daemon (\<open>rdma-common.h\<close> declares the same list).\<close>

datatype msg_type = DONE | INFO | INFO_SINGLE | FREE_SIZE | EVICT | ACTIVITY | STOP | BIND | BIND_SINGLE | QUERY

datatype chunk_list_state = C_IDLE | C_READY | C_EVICT | C_STOP

datatype IS_dev_state = DEVICE_INITIALIZING | DEVICE_OPENNING | DEVICE_RUNNING | DEVICE_OFFLINE

text \<open>The state of a server connection; the code compares these with \<open><\<close> and \<open>>=\<close>.\<close>

datatype cb_state = CB_IDLE | CB_CONNECTED | CB_MAPPED | CB_EVICTING | CB_FAIL

primrec cb_state_code :: "cb_state \<Rightarrow> nat" where
  "cb_state_code CB_IDLE = 0"
| "cb_state_code CB_CONNECTED = 1"
| "cb_state_code CB_MAPPED = 2"
| "cb_state_code CB_EVICTING = 3"
| "cb_state_code CB_FAIL = 4"

lemma cb_state_code_inject [simp]: "cb_state_code a = cb_state_code b \<longleftrightarrow> a = b"
  by (cases a; cases b) simp_all

instantiation cb_state :: linorder
begin

definition less_eq_cb_state :: "cb_state \<Rightarrow> cb_state \<Rightarrow> bool" where
  "less_eq_cb_state a b \<longleftrightarrow> cb_state_code a \<le> cb_state_code b"

definition less_cb_state :: "cb_state \<Rightarrow> cb_state \<Rightarrow> bool" where
  "less_cb_state a b \<longleftrightarrow> cb_state_code a < cb_state_code b"

instance
  by standard (auto simp: less_eq_cb_state_def less_cb_state_def)

end

lemmas cb_state_order = less_eq_cb_state_def less_cb_state_def

text \<open>The phase of a control block (\<open>enum test_state\<close>, numbered from 1).\<close>

datatype test_state = IDLE | CONNECT_REQUEST | ADDR_RESOLVED | ROUTE_RESOLVED | CONNECTED
  | FREE_MEM_RECV | AFTER_FREE_MEM | RDMA_BUF_ADV | WAIT_OPS | RECV_STOP | RECV_EVICT
  | RDMA_WRITE_RUNNING | RDMA_READ_RUNNING | SEND_DONE | RDMA_DONE | RDMA_READ_ADV
  | RDMA_WRITE_ADV | CM_DISCONNECT | ERROR

primrec test_state_code :: "test_state \<Rightarrow> nat" where
  "test_state_code IDLE = 1"
| "test_state_code CONNECT_REQUEST = 2"
| "test_state_code ADDR_RESOLVED = 3"
| "test_state_code ROUTE_RESOLVED = 4"
| "test_state_code CONNECTED = 5"
| "test_state_code FREE_MEM_RECV = 6"
| "test_state_code AFTER_FREE_MEM = 7"
| "test_state_code RDMA_BUF_ADV = 8"
| "test_state_code WAIT_OPS = 9"
| "test_state_code RECV_STOP = 10"
| "test_state_code RECV_EVICT = 11"
| "test_state_code RDMA_WRITE_RUNNING = 12"
| "test_state_code RDMA_READ_RUNNING = 13"
| "test_state_code SEND_DONE = 14"
| "test_state_code RDMA_DONE = 15"
| "test_state_code RDMA_READ_ADV = 16"
| "test_state_code RDMA_WRITE_ADV = 17"
| "test_state_code CM_DISCONNECT = 18"
| "test_state_code ERROR = 19"

lemma test_state_code_inject [simp]: "test_state_code a = test_state_code b \<longleftrightarrow> a = b"
  by (cases a; cases b; simp)

instantiation test_state :: linorder
begin

definition less_eq_test_state :: "test_state \<Rightarrow> test_state \<Rightarrow> bool" where
  "less_eq_test_state a b \<longleftrightarrow> test_state_code a \<le> test_state_code b"

definition less_test_state :: "test_state \<Rightarrow> test_state \<Rightarrow> bool" where
  "less_test_state a b \<longleftrightarrow> test_state_code a < test_state_code b"

instance
  by standard (auto simp: less_eq_test_state_def less_test_state_def)

end

lemmas test_state_order = less_eq_test_state_def less_test_state_def

section \<open>Structs\<close>

text \<open>\<open>struct IS_rdma_info\<close>, the control message; the daemon's \<open>struct message\<close> is the same.\<close>

record IS_rdma_info =
  buf :: "u64 list"
  rkey :: "u32 list"
  size_gb :: int
  mtype :: msg_type

definition msg_wf :: "IS_rdma_info \<Rightarrow> bool" where
  "msg_wf m \<longleftrightarrow> length (buf m) = MAX_MR_SIZE_GB \<and> length (rkey m) = MAX_MR_SIZE_GB"

definition zero_msg :: "msg_type \<Rightarrow> IS_rdma_info" where
  "zero_msg t = \<lparr>buf = replicate MAX_MR_SIZE_GB 0, rkey = replicate MAX_MR_SIZE_GB 0,
                 size_gb = 0, mtype = t\<rparr>"

lemma msg_wf_zero [simp]: "msg_wf (zero_msg t)"
  by (simp add: msg_wf_def zero_msg_def)

text \<open>A remote chunk of 1 GB: its key, its address and, once mapped, its page bitmap.\<close>

record remote_chunk_g =
  remote_rkey :: u32
  remote_addr :: u64
  bitmap_g :: "u32 list option"

definition zero_chunk :: remote_chunk_g where
  "zero_chunk = \<lparr>remote_rkey = 0, remote_addr = 0, bitmap_g = None\<rparr>"

record remote_chunk_g_list =
  chunk_list :: "remote_chunk_g list"
  remote_mapped :: "int list"
  chunk_size_g :: int
  target_size_g :: int
  shrink_size_g :: int
  chunk_map :: "int list"
  evict_chunk_map :: "char list"
  c_state :: chunk_list_state

text \<open>
  The verbs objects of a control block. Of a pointer only its status matters: never set, valid,
  freed, or an \<open>ERR_PTR\<close>. A scatter entry has its length and the source of its key.
\<close>

datatype ptr_state = Null | Live | Freed | Err_Ptr

datatype lkey_source = No_Lkey | Local_Dma_Lkey | Dma_Mr_Lkey

record ib_sge =
  sge_length :: nat
  sge_lkey :: lkey_source

definition DMA :: int where "DMA = 1"

record cb_hw =
  pd :: ptr_state
  cq :: ptr_state
  qp :: ptr_state
  dma_mr :: ptr_state
  cm_id :: ptr_state
  dma_maps :: nat
  mem :: int
  local_dma_lkey :: int
  recv_sgl :: ib_sge
  send_sgl :: ib_sge

definition zero_hw :: cb_hw where
  "zero_hw = \<lparr>pd = Null, cq = Null, qp = Null, dma_mr = Null, cm_id = Null, dma_maps = 0, mem = 0,
              local_dma_lkey = 0, recv_sgl = \<lparr>sge_length = 0, sge_lkey = No_Lkey\<rparr>,
              send_sgl = \<lparr>sge_length = 0, sge_lkey = No_Lkey\<rparr>\<rparr>"

record kernel_cb =
  cb_index :: int
  cb_port :: u16
  recv_buf :: IS_rdma_info
  send_buf :: IS_rdma_info
  remote_chunk :: remote_chunk_g_list
  state :: test_state
  txdepth :: int
  cb_size :: int
  hw :: cb_hw

text \<open>A transfer context: the request it carries, where it goes, and whether it is in flight.\<close>

record rdma_ctx =
  ctx_req :: "nat option"
  ctx_chunk_index :: int
  ctx_offset :: u64
  ctx_len :: u64
  ctx_chunk_ptr :: "(nat \<times> nat) option"
  in_flight :: int

definition zero_ctx :: rdma_ctx where
  "zero_ctx = \<lparr>ctx_req = None, ctx_chunk_index = 0, ctx_offset = 0, ctx_len = 0,
               ctx_chunk_ptr = None, in_flight = CTX_IDLE\<rparr>"

text \<open>The stack of free contexts: \<open>ctx_list\<close> holds pointers (None: NULL), \<open>tail\<close> the index of the top.\<close>

record free_ctx_pool =
  pool_len :: nat
  ctx_list :: "nat option list"
  head :: int
  tail :: int

record ctx_pool_list =
  ctx_pool :: "rdma_ctx list"
  free_ctxs :: "free_ctx_pool option"

definition zero_pool_list :: ctx_pool_list where
  "zero_pool_list = \<lparr>ctx_pool = [], free_ctxs = None\<rparr>"

record IS_connection =
  cpu_id :: int
  ctx_pools :: "ctx_pool_list list"

record IS_session =
  mapped_cb_num :: int
  cb_list :: "kernel_cb list"
  cb_num :: int
  cb_state_list :: "cb_state list"
  IS_conns :: "IS_connection list"
  capacity :: u64
  capacity_g :: int
  cb_index_map :: "int list"
  chunk_map_cb_chunk :: "int list"
  unmapped_chunk_list :: "int list"
  free_chunk_index :: int
  rdma_on :: int
  write_ops :: "u64 list"
  read_ops :: "u64 list"
  last_ops :: "u64 list"
  trigger_threshold :: u64
  w_weight :: int
  cur_weight :: int
  trigger_enable :: int

end
