(* ===== verification/Ctx_Pool.thy ===== *)
theory Ctx_Pool
  imports IS_Types
begin

text \<open>
  The pools of transfer contexts (\<open>is_main.c\<close>): every connection has one pool of 256 contexts per
  server, with a stack of free ones. \<open>IS_get_ctx\<close> pops it, \<open>IS_insert_ctx\<close> pushes; the
  transfer routines look for a free context in the pools of all connections in turn. The spin lock
  around both makes them atomic.
\<close>

section \<open>Operations\<close>

definition IS_get_ctx :: "ctx_pool_list \<Rightarrow> (nat option \<times> ctx_pool_list) res" where
  "IS_get_ctx tmp_pool =
     (case free_ctxs tmp_pool of
        None \<Rightarrow> Inl Null_Deref
      | Some free \<Rightarrow>
          if tail free = -1 then Inr (None, tmp_pool)
          else bind_res (arr_get (ctx_list free) (tail free))
                 (\<lambda>r. Inr (r, tmp_pool\<lparr>free_ctxs := Some (free\<lparr>tail := tail free - 1\<rparr>)\<rparr>)))"

text \<open>The store comes before the bounds message, as in the source.\<close>

definition IS_insert_ctx :: "ctx_pool_list \<Rightarrow> nat \<Rightarrow> ctx_pool_list res" where
  "IS_insert_ctx pool ctx =
     (case free_ctxs pool of
        None \<Rightarrow> Inl Null_Deref
      | Some free \<Rightarrow>
          bind_res (arr_set (ctx_list free) (tail free + 1) (Some ctx))
            (\<lambda>l. Inr (pool\<lparr>free_ctxs := Some (free\<lparr>tail := tail free + 1, ctx_list := l\<rparr>)\<rparr>)))"

text \<open>
  \<open>IS_ctx_init\<close>: all 256 contexts are free; \<open>buf_ok i\<close> says whether the buffer of the \<open>i\<close>-th is
  allocated. On the first failure the loop is left with \<open>-ENOMEM\<close>, the later slots still zero and the
  later pointers NULL, though \<open>tail\<close> counts them as free.
\<close>

definition init_ctx :: rdma_ctx where
  "init_ctx = zero_ctx\<lparr>in_flight := CTX_IDLE, ctx_chunk_index := -1, ctx_req := None\<rparr>"

fun IS_ctx_init_loop :: "(nat \<Rightarrow> bool) \<Rightarrow> nat list \<Rightarrow> ctx_pool_list \<Rightarrow> bool \<times> ctx_pool_list" where
  "IS_ctx_init_loop buf_ok [] pool = (True, pool)"
| "IS_ctx_init_loop buf_ok (i # is) pool =
     (let pool' = pool\<lparr>ctx_pool := (ctx_pool pool)[i := init_ctx],
                       free_ctxs := map_option (\<lambda>f. f\<lparr>ctx_list := (ctx_list f)[i := Some i]\<rparr>) (free_ctxs pool)\<rparr>
      in if buf_ok i then IS_ctx_init_loop buf_ok is pool' else (False, pool'))"

definition IS_ctx_init :: "(nat \<Rightarrow> bool) \<Rightarrow> bool \<times> ctx_pool_list" where
  "IS_ctx_init buf_ok =
     IS_ctx_init_loop buf_ok [0..<IS_QUEUE_DEPTH]
       \<lparr>ctx_pool = replicate IS_QUEUE_DEPTH zero_ctx,
        free_ctxs = Some \<lparr>pool_len = IS_QUEUE_DEPTH, ctx_list = replicate IS_QUEUE_DEPTH None,
                          head = 0, tail = int IS_QUEUE_DEPTH - 1\<rparr>\<rparr>"

text \<open>
  The search of \<open>IS_rdma_read\<close> and \<open>IS_rdma_write\<close>: start at connection
  \<open>bio_data & QUEUE_NUM_MASK\<close> and go round the connections until one has a free context. With every
  pool empty the loop sleeps and goes on until another thread frees a context; alone it never returns,
  which is the value None.
\<close>

definition first_conn :: "u64 \<Rightarrow> int" where
  "first_conn data_addr = uint (data_addr AND QUEUE_NUM_MASK)"

partial_function (option) find_ctx ::
  "int \<Rightarrow> ctx_pool_list list \<Rightarrow> int \<Rightarrow> (int \<times> nat \<times> ctx_pool_list list) res option" where
  "find_ctx submit_queues pools conn_id =
     (case arr_get pools conn_id of
        Inl e \<Rightarrow> Some (Inl e)
      | Inr pool \<Rightarrow>
          (case IS_get_ctx pool of
             Inl e \<Rightarrow> Some (Inl e)
           | Inr (Some ctx, pool') \<Rightarrow> Some (Inr (conn_id, ctx, pools[nat conn_id := pool']))
           | Inr (None, pool') \<Rightarrow>
               find_ctx submit_queues (pools[nat conn_id := pool']) ((conn_id + 1) mod submit_queues)))"

section \<open>The contract of a pool\<close>

text \<open>
  A pool in good order stands for the stack of its free contexts (\<open>free\<close>, top last). The transfer
  code relies on: a context handed out is no longer free, a context that is not free can be put
  back, and nothing else changes.
\<close>

locale ctx_stack =
  fixes get :: "'p \<Rightarrow> (nat option \<times> 'p) res"
    and ins :: "'p \<Rightarrow> nat \<Rightarrow> 'p res"
    and free :: "'p \<Rightarrow> nat list"
    and wf :: "'p \<Rightarrow> bool"
    and depth :: nat
  assumes free_distinct: "wf p \<Longrightarrow> distinct (free p)"
    and free_slots: "wf p \<Longrightarrow> set (free p) \<subseteq> {..<depth}"
    and get_empty: "wf p \<Longrightarrow> free p = [] \<Longrightarrow> get p = Inr (None, p)"
    and get_pop: "wf p \<Longrightarrow> free p = xs @ [c] \<Longrightarrow> \<exists>p'. get p = Inr (Some c, p') \<and> wf p' \<and> free p' = xs"
    and ins_push: "wf p \<Longrightarrow> c < depth \<Longrightarrow> c \<notin> set (free p) \<Longrightarrow>
       \<exists>p'. ins p c = Inr p' \<and> wf p' \<and> free p' = free p @ [c]"
begin

lemma get_total: "wf p \<Longrightarrow> \<exists>r p'. get p = Inr (r, p') \<and> wf p'"
  by (cases "free p" rule: rev_cases) (auto dest: get_empty get_pop)

lemma get_Some:
  assumes "wf p" and "get p = Inr (Some c, p')"
  shows "wf p' \<and> free p = free p' @ [c] \<and> c \<notin> set (free p') \<and> c < depth"
proof (cases "free p" rule: rev_cases)
  case Nil
  with assms get_empty show ?thesis by simp
next
  case (snoc xs y)
  with get_pop [OF assms(1)] obtain q where "get p = Inr (Some y, q)" "wf q" "free q = xs" by blast
  with assms snoc free_distinct [OF assms(1)] free_slots [OF assms(1)] show ?thesis by auto
qed

lemma get_None: "wf p \<Longrightarrow> get p = Inr (None, p') \<Longrightarrow> free p = [] \<and> p' = p"
  by (cases "free p" rule: rev_cases) (auto dest: get_empty get_pop)

text \<open>A context taken and given back restores the stack.\<close>

lemma get_ins_roundtrip:
  assumes "wf p" and "get p = Inr (Some c, p')"
  shows "\<exists>p''. ins p' c = Inr p'' \<and> wf p'' \<and> free p'' = free p"
  using get_Some [OF assms] ins_push [of p' c] by auto

text \<open>The number of free contexts never exceeds the depth, so a push never runs off the array.\<close>

lemma free_bound: "wf p \<Longrightarrow> length (free p) \<le> depth"
  using card_mono [OF _ free_slots, of p] distinct_card [OF free_distinct, of p] by simp

end

section \<open>The C pools meet the contract\<close>

definition pool_wf :: "ctx_pool_list \<Rightarrow> bool" where
  "pool_wf p \<longleftrightarrow> (case free_ctxs p of None \<Rightarrow> False | Some f \<Rightarrow>
     length (ctx_pool p) = IS_QUEUE_DEPTH \<and> length (ctx_list f) = IS_QUEUE_DEPTH \<and>
     -1 \<le> tail f \<and> tail f < int IS_QUEUE_DEPTH \<and>
     distinct (take (nat (tail f + 1)) (ctx_list f)) \<and>
     set (take (nat (tail f + 1)) (ctx_list f)) \<subseteq> Some ` {..<IS_QUEUE_DEPTH})"

definition free_stack :: "ctx_pool_list \<Rightarrow> nat list" where
  "free_stack p = (case free_ctxs p of None \<Rightarrow> [] | Some f \<Rightarrow> map the (take (nat (tail f + 1)) (ctx_list f)))"

lemma map_Some_the: "set xs \<subseteq> Some ` A \<Longrightarrow> map Some (map the xs) = xs"
  by (induction xs) auto

lemma pool_wfE:
  assumes "pool_wf p"
  obtains f where "free_ctxs p = Some f" "length (ctx_pool p) = IS_QUEUE_DEPTH"
    "length (ctx_list f) = IS_QUEUE_DEPTH" "-1 \<le> tail f" "tail f < int IS_QUEUE_DEPTH"
    "map Some (free_stack p) = take (nat (tail f + 1)) (ctx_list f)"
    "distinct (free_stack p)" "set (free_stack p) \<subseteq> {..<IS_QUEUE_DEPTH}"
proof -
  from assms obtain f where f: "free_ctxs p = Some f" "length (ctx_pool p) = IS_QUEUE_DEPTH"
    "length (ctx_list f) = IS_QUEUE_DEPTH" "-1 \<le> tail f" "tail f < int IS_QUEUE_DEPTH"
    "distinct (take (nat (tail f + 1)) (ctx_list f))"
    "set (take (nat (tail f + 1)) (ctx_list f)) \<subseteq> Some ` {..<IS_QUEUE_DEPTH}"
    by (auto simp: pool_wf_def split: option.splits)
  then have eq: "map Some (free_stack p) = take (nat (tail f + 1)) (ctx_list f)"
    using map_Some_the [OF f(7)] by (simp add: free_stack_def)
  then have "distinct (map Some (free_stack p))" "set (map Some (free_stack p)) \<subseteq> Some ` {..<IS_QUEUE_DEPTH}"
    using f(6,7) by simp_all
  then have "distinct (free_stack p)" "set (free_stack p) \<subseteq> {..<IS_QUEUE_DEPTH}"
    by (auto simp: distinct_map)
  with that f eq show thesis by blast
qed

text \<open>A pool whose list begins with the pointers \<open>xs\<close>.\<close>

lemma pool_wfI:
  assumes "free_ctxs p = Some f" "length (ctx_pool p) = IS_QUEUE_DEPTH" "length (ctx_list f) = IS_QUEUE_DEPTH"
    "-1 \<le> tail f" "tail f < int IS_QUEUE_DEPTH" "take (nat (tail f + 1)) (ctx_list f) = map Some xs"
    "distinct xs" "set xs \<subseteq> {..<IS_QUEUE_DEPTH}"
  shows "pool_wf p" "free_stack p = xs"
  using assms by (auto simp: pool_wf_def free_stack_def distinct_map o_def)

lemma pool_wf_ctx_pool [simp]:
  "length xs = length (ctx_pool p) \<Longrightarrow> pool_wf (p\<lparr>ctx_pool := xs\<rparr>) = pool_wf p"
  "free_stack (p\<lparr>ctx_pool := xs\<rparr>) = free_stack p"
  by (simp_all add: pool_wf_def free_stack_def split: option.splits)

lemma free_stack_length:
  "pool_wf p \<Longrightarrow> free_ctxs p = Some f \<Longrightarrow> length (free_stack p) = nat (tail f + 1)"
proof (erule pool_wfE)
  fix f'
  assume "free_ctxs p = Some f" "free_ctxs p = Some f'" "length (ctx_list f') = IS_QUEUE_DEPTH"
    "tail f' < int IS_QUEUE_DEPTH" "map Some (free_stack p) = take (nat (tail f' + 1)) (ctx_list f')"
  then have "length (map Some (free_stack p)) = nat (tail f + 1)" by (simp add: nat_less_iff)
  then show "length (free_stack p) = nat (tail f + 1)" by simp
qed

lemma IS_get_ctx_pop:
  assumes wf: "pool_wf p" and fs: "free_stack p = xs @ [c]"
  shows "\<exists>p'. IS_get_ctx p = Inr (Some c, p') \<and> pool_wf p' \<and> free_stack p' = xs"
proof -
  from wf obtain f where f: "free_ctxs p = Some f" "length (ctx_pool p) = IS_QUEUE_DEPTH"
    "length (ctx_list f) = IS_QUEUE_DEPTH" "-1 \<le> tail f" "tail f < int IS_QUEUE_DEPTH"
    "map Some (free_stack p) = take (nat (tail f + 1)) (ctx_list f)"
    "distinct (free_stack p)" "set (free_stack p) \<subseteq> {..<IS_QUEUE_DEPTH}" by (rule pool_wfE)
  have len: "length xs = nat (tail f)" "0 \<le> tail f"
    using free_stack_length [OF wf f(1)] fs by simp_all
  then have t: "nat (tail f + 1) = Suc (nat (tail f))" "nat (tail f) < length (ctx_list f)"
    using f(3,5) by (simp_all add: nat_less_iff)
  then have "take (Suc (nat (tail f))) (ctx_list f) = take (nat (tail f)) (ctx_list f) @ [ctx_list f ! nat (tail f)]"
    by (simp add: take_Suc_conv_app_nth)
  with fs f(6) t(1) have eq: "take (nat (tail f)) (ctx_list f) = map Some xs" "ctx_list f ! nat (tail f) = Some c"
    by simp_all
  let ?p' = "p\<lparr>free_ctxs := Some (f\<lparr>tail := tail f - 1\<rparr>)\<rparr>"
  have "IS_get_ctx p = Inr (Some c, ?p')"
    using f len eq by (simp add: IS_get_ctx_def)
  moreover have "pool_wf ?p'" "free_stack ?p' = xs"
    using f len eq fs by (auto intro!: pool_wfI [of ?p' "f\<lparr>tail := tail f - 1\<rparr>" xs])
  ultimately show ?thesis by blast
qed

lemma IS_insert_ctx_push:
  assumes wf: "pool_wf p" and c: "c < IS_QUEUE_DEPTH" "c \<notin> set (free_stack p)"
  shows "\<exists>p'. IS_insert_ctx p c = Inr p' \<and> pool_wf p' \<and> free_stack p' = free_stack p @ [c]"
proof -
  from wf obtain f where f: "free_ctxs p = Some f" "length (ctx_pool p) = IS_QUEUE_DEPTH"
    "length (ctx_list f) = IS_QUEUE_DEPTH" "-1 \<le> tail f" "tail f < int IS_QUEUE_DEPTH"
    "map Some (free_stack p) = take (nat (tail f + 1)) (ctx_list f)"
    "distinct (free_stack p)" "set (free_stack p) \<subseteq> {..<IS_QUEUE_DEPTH}" by (rule pool_wfE)
  have "card (insert c (set (free_stack p))) \<le> card {..<IS_QUEUE_DEPTH}"
    using f(8) c by (intro card_mono) auto
  then have "length (free_stack p) < IS_QUEUE_DEPTH"
    using c(2) f(7) by (simp add: distinct_card)
  then have room: "nat (tail f + 1) < length (ctx_list f)" "0 \<le> tail f + 1"
    using free_stack_length [OF wf f(1)] f(3,4) by simp_all
  let ?f' = "f\<lparr>tail := tail f + 1, ctx_list := (ctx_list f)[nat (tail f + 1) := Some c]\<rparr>"
  have new: "take (nat (tail f + 1 + 1)) ((ctx_list f)[nat (tail f + 1) := Some c]) = map Some (free_stack p @ [c])"
    using room f(6) nat_add_distrib [of "tail f + 1" 1] by (simp add: take_Suc_conv_app_nth)
  have "IS_insert_ctx p c = Inr (p\<lparr>free_ctxs := Some ?f'\<rparr>)"
    using f(1) room by (simp add: IS_insert_ctx_def)
  moreover have "tail f + 1 < int IS_QUEUE_DEPTH" using room f(3) by linarith
  ultimately show ?thesis
    using f c new room(2)
    by (auto intro!: pool_wfI [of "p\<lparr>free_ctxs := Some ?f'\<rparr>" ?f' "free_stack p @ [c]"])
qed

interpretation ctx_pool: ctx_stack IS_get_ctx IS_insert_ctx free_stack pool_wf IS_QUEUE_DEPTH
proof
  fix p
  assume wf: "pool_wf p"
  then show "distinct (free_stack p)" "set (free_stack p) \<subseteq> {..<IS_QUEUE_DEPTH}"
    by (auto elim: pool_wfE)
  assume "free_stack p = []"
  with wf show "IS_get_ctx p = Inr (None, p)"
    by (elim pool_wfE) (auto simp: IS_get_ctx_def IS_QUEUE_DEPTH_def)
qed (simp_all add: IS_get_ctx_pop IS_insert_ctx_push)

section \<open>Initialisation\<close>

lemma IS_ctx_init_loop_all:
  assumes "\<And>i. i < n \<Longrightarrow> buf_ok i"
  shows "IS_ctx_init_loop buf_ok [0..<n] \<lparr>ctx_pool = replicate m zero_ctx,
      free_ctxs = Some \<lparr>pool_len = l, ctx_list = replicate m None, head = h, tail = t\<rparr>\<rparr> =
    (True, \<lparr>ctx_pool = map (\<lambda>i. if i < n then init_ctx else zero_ctx) [0..<m],
      free_ctxs = Some \<lparr>pool_len = l, ctx_list = map (\<lambda>i. if i < n then Some i else None) [0..<m],
                         head = h, tail = t\<rparr>\<rparr>)"
proof -
  have loop_append: "IS_ctx_init_loop buf_ok (is @ [i]) p =
     (case IS_ctx_init_loop buf_ok is p of
        (False, q) \<Rightarrow> (False, q)
      | (True, q) \<Rightarrow> IS_ctx_init_loop buf_ok [i] q)" for "is" i p
    by (induction "is" arbitrary: p) (simp_all add: Let_def)
  show ?thesis
    using assms
  proof (induction n)
    case 0
    then show ?case by (simp add: map_replicate_const [symmetric] map_replicate_trivial)
  next
    case (Suc n)
    then have "buf_ok n" and IH: "\<And>i. i < n \<Longrightarrow> buf_ok i" by simp_all
    then show ?case
      using map_upt_fill [of n "\<lambda>_. init_ctx" "\<lambda>_. zero_ctx" m] map_upt_fill [of n Some "\<lambda>_. None" m]
      by (simp add: loop_append Let_def Suc.IH)
  qed
qed

lemma IS_ctx_init_ok:
  assumes "\<And>i. i < IS_QUEUE_DEPTH \<Longrightarrow> buf_ok i"
  shows "\<exists>p. IS_ctx_init buf_ok = (True, p) \<and> pool_wf p \<and> free_stack p = [0..<IS_QUEUE_DEPTH] \<and>
     (\<forall>ctx \<in> set (ctx_pool p). in_flight ctx = CTX_IDLE)"
proof -
  have l: "map (\<lambda>i. if i < IS_QUEUE_DEPTH then Some i else None) [0..<IS_QUEUE_DEPTH] = map Some [0..<IS_QUEUE_DEPTH]"
    by (rule nth_equalityI) simp_all
  let ?f = "\<lparr>pool_len = IS_QUEUE_DEPTH, ctx_list = map Some [0..<IS_QUEUE_DEPTH], head = 0,
             tail = int IS_QUEUE_DEPTH - 1\<rparr>"
  let ?p = "\<lparr>ctx_pool = map (\<lambda>i. if i < IS_QUEUE_DEPTH then init_ctx else zero_ctx) [0..<IS_QUEUE_DEPTH],
             free_ctxs = Some ?f\<rparr>"
  have "IS_ctx_init buf_ok = (True, ?p)"
    using IS_ctx_init_loop_all [of IS_QUEUE_DEPTH buf_ok IS_QUEUE_DEPTH] assms l by (simp add: IS_ctx_init_def)
  moreover have "pool_wf ?p" "free_stack ?p = [0..<IS_QUEUE_DEPTH]"
    using pool_wfI [of ?p ?f "[0..<IS_QUEUE_DEPTH]"] by (simp_all add: lessThan_atLeast0)
  moreover have "\<forall>ctx \<in> set (ctx_pool ?p). in_flight ctx = CTX_IDLE"
    by (auto simp: init_ctx_def)
  ultimately show ?thesis by blast
qed

section \<open>The search for a free context\<close>

lemma mod_index_range: "0 < (n :: int) \<Longrightarrow> 0 \<le> i mod n \<and> i mod n < n"
  by simp

lemma find_ctx_hit:
  assumes "0 \<le> c" "c < int (length pools)" "pool_wf (pools ! nat c)" "free_stack (pools ! nat c) = xs @ [x]"
  shows "\<exists>p'. find_ctx q pools c = Some (Inr (c, x, pools[nat c := p'])) \<and> pool_wf p' \<and> free_stack p' = xs"
  using IS_get_ctx_pop [OF assms(3,4)] assms(1,2) by (subst find_ctx.simps) auto

lemma find_ctx_miss:
  assumes "0 \<le> c" "c < int (length pools)" "pool_wf (pools ! nat c)" "free_stack (pools ! nat c) = []"
  shows "find_ctx q pools c = find_ctx q pools ((c + 1) mod q)"
  using ctx_pool.get_empty [OF assms(3,4)] assms(1,2) by (subst find_ctx.simps) simp

lemma find_ctx_walk:
  assumes q: "q = int (length pools)" and wf: "\<And>p. p \<in> set pools \<Longrightarrow> pool_wf p"
    and c: "0 \<le> c" "c < q"
    and empty: "\<And>j. j < k \<Longrightarrow> free_stack (pools ! nat ((c + int j) mod q)) = []"
  shows "find_ctx q pools c = find_ctx q pools ((c + int k) mod q)"
  using empty
proof (induction k)
  case 0
  then show ?case using c by simp
next
  case (Suc k)
  let ?d = "(c + int k) mod q"
  have r: "0 \<le> ?d" "?d < q" using c by auto
  then have "pools ! nat ?d \<in> set pools" using q by (simp add: nat_less_iff)
  with r q Suc.prems have "find_ctx q pools ?d = find_ctx q pools ((?d + 1) mod q)"
    by (intro find_ctx_miss wf) auto
  also have "(?d + 1) mod q = (c + int (Suc k)) mod q" by (simp add: mod_simps ac_simps)
  finally show ?case using Suc by simp
qed

text \<open>
  C30: the search for a free context. When the pools of all connections are in good order and at
  least one has a free context, the search that \<open>IS_rdma_read\<close> and \<open>IS_rdma_write\<close> start at
  connection \<open>c\<close> returns: it takes the top of the first non-empty pool going round from \<open>c\<close>, after
  at most one round, and that context is no longer free.
\<close>

theorem find_ctx_returns:
  assumes "q = int (length pools)" and "0 \<le> c" and "c < q" and "\<forall>p \<in> set pools. pool_wf p"
    and "\<exists>p \<in> set pools. free_stack p \<noteq> []"
  shows "\<exists>k x p'. k < length pools \<and>
     find_ctx q pools c = Some (Inr ((c + int k) mod q, x, pools[nat ((c + int k) mod q) := p'])) \<and> pool_wf p' \<and>
     free_stack (pools ! nat ((c + int k) mod q)) = free_stack p' @ [x] \<and>
     x \<notin> set (free_stack p') \<and>
     (\<forall>j<k. free_stack (pools ! nat ((c + int j) mod q)) = [])"
proof -
  define hit where "hit k \<longleftrightarrow> free_stack (pools ! nat ((c + int k) mod q)) \<noteq> []" for k
  obtain i where i: "i < length pools" "free_stack (pools ! i) \<noteq> []"
    using assms(5) by (auto simp: in_set_conv_nth)
  have "(c + (int i - c) mod q) mod q = int i" using i assms(1-3) by (simp add: mod_simps)
  moreover have "0 \<le> (int i - c) mod q" using assms(2,3) by simp
  ultimately have "hit (nat ((int i - c) mod q))" using i by (simp add: hit_def)
  moreover have "nat ((int i - c) mod q) < length pools"
    using assms(1-3) mod_index_range [of q "int i - c"] by linarith
  ultimately have ex: "hit (LEAST k. hit k)" and less: "(LEAST k. hit k) < length pools"
    by (auto intro: LeastI le_less_trans [OF Least_le])
  define k where "k = (LEAST k. hit k)"
  have miss: "free_stack (pools ! nat ((c + int j) mod q)) = []" if "j < k" for j
    using not_less_Least [of j hit] that by (simp add: k_def hit_def)
  let ?d = "(c + int k) mod q"
  have d: "0 \<le> ?d" "?d < q" using assms(2,3) by auto
  then have wfd: "pool_wf (pools ! nat ?d)" using assms(1,4) by (simp add: nat_less_iff)
  obtain xs x where fs: "free_stack (pools ! nat ?d) = xs @ [x]"
    using ex by (cases "free_stack (pools ! nat ?d)" rule: rev_cases) (auto simp: hit_def k_def)
  then obtain p' where "find_ctx q pools ?d = Some (Inr (?d, x, pools[nat ?d := p']))" "pool_wf p'" "free_stack p' = xs"
    using find_ctx_hit d wfd assms(1) by blast
  moreover have "find_ctx q pools c = find_ctx q pools ?d"
    using assms miss by (intro find_ctx_walk) auto
  moreover have "x \<notin> set xs" using ctx_pool.free_distinct [OF wfd] fs by simp
  moreover have "k < length pools" using less by (simp add: k_def)
  ultimately show ?thesis using fs miss by auto
qed

definition empty_pool :: ctx_pool_list where
  "empty_pool = \<lparr>ctx_pool = replicate IS_QUEUE_DEPTH zero_ctx,
     free_ctxs = Some \<lparr>pool_len = IS_QUEUE_DEPTH, ctx_list = replicate IS_QUEUE_DEPTH None,
                       head = 0, tail = -1\<rparr>\<rparr>"

definition full_pool :: ctx_pool_list where
  "full_pool = snd (IS_ctx_init (\<lambda>_. True))"

lemma empty_pool_wf [simp]: "pool_wf empty_pool" "free_stack empty_pool = []"
  by (simp_all add: pool_wf_def free_stack_def empty_pool_def)

lemma full_pool_wf [simp]: "pool_wf full_pool" "free_stack full_pool = [0..<IS_QUEUE_DEPTH]"
  using IS_ctx_init_ok [of "\<lambda>_. True"] by (auto simp: full_pool_def)

theorem find_ctx_returns_witness:
  "(2 :: int) = int (length [empty_pool, full_pool]) \<and> list_all pool_wf [empty_pool, full_pool] \<and>
   free_stack full_pool \<noteq> [] \<and>
   (\<exists>p'. find_ctx 2 [empty_pool, full_pool] 0 = Some (Inr (1, 255, [empty_pool, p'])))"
proof -
  have h: "(2 :: int) = int (length [empty_pool, full_pool])"
    "\<forall>p \<in> set [empty_pool, full_pool]. pool_wf p"
    "\<exists>p \<in> set [empty_pool, full_pool]. free_stack p \<noteq> []"
    by (simp_all add: IS_QUEUE_DEPTH_def)
  obtain k x p' where k: "k < 2" and
    f: "find_ctx 2 [empty_pool, full_pool] 0 =
      Some (Inr (int k mod 2, x, [empty_pool, full_pool][nat (int k mod 2) := p']))"
    and fs: "free_stack ([empty_pool, full_pool] ! nat (int k mod 2)) = free_stack p' @ [x]"
    using find_ctx_returns [OF h(1) _ _ h(2,3), of 0] by auto
  have "k \<noteq> 0" using fs by (intro notI) simp
  then have "k = 1" using k by linarith
  moreover from this fs have "[0..<256] = free_stack p' @ [x]" by (simp add: IS_QUEUE_DEPTH_def)
  then have "last [0..<256] = x" by (simp only: last_snoc)
  then have "x = 255" by simp
  ultimately show ?thesis using f by (simp add: IS_QUEUE_DEPTH_def)
qed

text \<open>
  C31: the other side of the search. When no pool has a free context, the loop does not return by
  itself: the transfer spins (sleeping 1 ms per round, with preemption disabled by the caller's
  \<open>get_cpu\<close>) until some completion frees a context.
\<close>

theorem find_ctx_exhausted:
  assumes "q = int (length pools)" and "0 \<le> c" and "c < q"
    and "\<forall>p \<in> set pools. pool_wf p \<and> free_stack p = []"
  shows "find_ctx q pools c = None"
proof (rule ccontr)
  assume "find_ctx q pools c \<noteq> None"
  then obtain r where ret: "find_ctx q pools c = Some r" by blast
  let ?P = "\<lambda>q pools c r. \<not> (q = int (length pools) \<and> 0 \<le> c \<and> c < q \<and>
      (\<forall>p \<in> set pools. pool_wf p \<and> free_stack p = []))"
  have "?P q pools c r"
  proof (rule find_ctx.raw_induct [where P = ?P, OF _ ret], rule notI)
    fix f q pools c r
    assume IH: "\<And>q pools c r. f q pools c = Some r \<Longrightarrow> ?P q pools c r"
      and eq: "(case arr_get pools c of Inl e \<Rightarrow> Some (Inl e)
         | Inr pool \<Rightarrow> (case IS_get_ctx pool of Inl e \<Rightarrow> Some (Inl e)
             | Inr (Some ctx, pool') \<Rightarrow> Some (Inr (c, ctx, pools[nat c := pool']))
             | Inr (None, pool') \<Rightarrow> f q (pools[nat c := pool']) ((c + 1) mod q))) = Some r"
      and h: "q = int (length pools) \<and> 0 \<le> c \<and> c < q \<and> (\<forall>p \<in> set pools. pool_wf p \<and> free_stack p = [])"
    then have mem: "pools ! nat c \<in> set pools" by (simp add: nat_less_iff)
    with h have "IS_get_ctx (pools ! nat c) = Inr (None, pools ! nat c)"
      by (intro ctx_pool.get_empty) auto
    with eq h have "f q pools ((c + 1) mod q) = Some r" by simp
    from IH [OF this] h mod_index_range [of q "c + 1"] show False by linarith
  qed
  with assms show False by blast
qed

theorem find_ctx_exhausted_witness:
  "list_all (\<lambda>p. pool_wf p \<and> free_stack p = []) [empty_pool, empty_pool] \<and>
   find_ctx 2 [empty_pool, empty_pool] 1 = None"
  using find_ctx_exhausted [of 2 "[empty_pool, empty_pool]" 1] by simp

text \<open>
  C32: the context stack. Putting back a context that is not free never writes outside the 256-entry
  array, although the code checks the index only after the store; the context becomes the one that is
  handed out next, and handing it out restores the stack as it was.
\<close>

theorem ctx_pool_conserved:
  assumes "pool_wf p" and "c < IS_QUEUE_DEPTH" and "c \<notin> set (free_stack p)"
  shows "\<exists>p' p''. IS_insert_ctx p c = Inr p' \<and> pool_wf p' \<and> free_stack p' = free_stack p @ [c] \<and>
           IS_get_ctx p' = Inr (Some c, p'') \<and> pool_wf p'' \<and> free_stack p'' = free_stack p"
proof -
  obtain p' where p': "IS_insert_ctx p c = Inr p'" "pool_wf p'" "free_stack p' = free_stack p @ [c]"
    using ctx_pool.ins_push [OF assms] by blast
  with ctx_pool.get_pop [OF p'(2,3)] show ?thesis by blast
qed

theorem ctx_pool_conserved_witness:
  "\<exists>p' p''. IS_insert_ctx empty_pool 7 = Inr p' \<and> free_stack p' = [7] \<and>
     IS_get_ctx p' = Inr (Some 7, p'') \<and> free_stack p'' = []"
  using ctx_pool_conserved [of empty_pool 7] by (auto simp: IS_QUEUE_DEPTH_def)

text \<open>
  A context put back twice. On a pool whose contexts are all free, one more
  \<open>IS_insert_ctx\<close> stores at index 256 of the 256-entry array: the message about the index comes too
  late. A context must therefore never be freed by two completions.
\<close>

theorem IS_insert_ctx_full_overflows:
  assumes "pool_wf p" and "length (free_stack p) = IS_QUEUE_DEPTH"
  shows "IS_insert_ctx p c = Inl Out_Of_Bounds"
proof -
  from assms(1) obtain f where f: "free_ctxs p = Some f" "length (ctx_list f) = IS_QUEUE_DEPTH"
    by (rule pool_wfE)
  with free_stack_length [OF assms(1) f(1)] assms(2) have "tail f + 1 = int IS_QUEUE_DEPTH"
    by (simp add: IS_QUEUE_DEPTH_def)
  with f show ?thesis by (simp add: IS_insert_ctx_def arr_set_def)
qed

theorem IS_insert_ctx_full_overflows_witness:
  "pool_wf full_pool \<and> length (free_stack full_pool) = IS_QUEUE_DEPTH \<and>
   IS_insert_ctx full_pool 7 = Inl Out_Of_Bounds"
  using IS_insert_ctx_full_overflows [of full_pool 7] by simp

end
