(* ===== verification/Byte_Order.thy ===== *)
theory Byte_Order
  imports IS_Prelude
begin

text \<open>
  Byte order of the control messages. The block device and the daemon exchange 32-bit keys through
  \<open>htonl\<close>/\<open>ntohl\<close> and 64-bit addresses and activity counters through three 64-bit conversions
  of their own: the macro \<open>ntohll\<close> (the same text in \<open>infiniswap.h\<close> and \<open>rdma-common.h\<close>),
  the macro \<open>htonll\<close> of the block device, which is \<open>ntohll\<close> again, and the function \<open>htonll\<close>
  of the daemon. The byte order of the host is the parameter \<open>le\<close> (True: little endian).
\<close>

section \<open>The conversions\<close>

text \<open>\<open>htonl\<close> and \<open>ntohl\<close> of the C library: reverse the four bytes on a little-endian host.\<close>

definition bswap32 :: "u32 \<Rightarrow> u32" where
  "bswap32 x =
     push_bit 24 (take_bit 8 x) OR push_bit 16 (take_bit 8 (drop_bit 8 x)) OR
     push_bit 8 (take_bit 8 (drop_bit 16 x)) OR take_bit 8 (drop_bit 24 x)"

definition htonl :: "bool \<Rightarrow> u32 \<Rightarrow> u32" where
  "htonl le x = (if le then bswap32 x else x)"

definition ntohl :: "bool \<Rightarrow> u32 \<Rightarrow> u32" where
  "ntohl le x = (if le then bswap32 x else x)"

text \<open>\<open>htons\<close>, used for the port of a server.\<close>

definition htons :: "bool \<Rightarrow> u16 \<Rightarrow> u16" where
  "htons le x = (if le then push_bit 8 (take_bit 8 x) OR drop_bit 8 x else x)"

text \<open>The macro: \<open>(ntohl((int)((x << 32) >> 32)) << 32) | (unsigned int)ntohl((int)(x >> 32))\<close>.\<close>

definition ntohll :: "bool \<Rightarrow> u64 \<Rightarrow> u64" where
  "ntohll le x =
     push_bit 32 (ucast (ntohl le (ucast (drop_bit 32 (push_bit 32 x))))) OR
     ucast (ntohl le (ucast (drop_bit 32 x)))"

text \<open>The block device defines \<open>htonll(x)\<close> as \<open>ntohll(x)\<close>.\<close>

definition bd_htonll :: "bool \<Rightarrow> u64 \<Rightarrow> u64" where
  "bd_htonll le x = ntohll le x"

text \<open>The daemon's function tests the host's byte order at run time.\<close>

definition daemon_htonll :: "bool \<Rightarrow> u64 \<Rightarrow> u64" where
  "daemon_htonll le value =
     (if le
      then push_bit 32 (ucast (htonl le (ucast (value AND 0xFFFFFFFF)))) OR
           ucast (htonl le (ucast (drop_bit 32 value)))
      else value)"

section \<open>The contract of a conversion pair\<close>

text \<open>
  What the message handlers rely on: decoding undoes encoding, and zero is encoded as zero. The
  second law matters because both sides use a zero key or a zero counter, tested on the encoded
  value, to mean that the entry is absent.
\<close>

locale wire_codec =
  fixes enc :: "'a::len word \<Rightarrow> 'a word"
    and dec :: "'a word \<Rightarrow> 'a word"
  assumes dec_enc: "dec (enc x) = x"
    and enc_zero: "enc 0 = 0"
begin

lemma enc_inject: "enc x = enc y \<longleftrightarrow> x = y"
  by (metis dec_enc)

lemma enc_eq_zero_iff: "enc x = 0 \<longleftrightarrow> x = 0"
  by (metis dec_enc enc_zero)

lemma dec_zero: "dec 0 = 0"
  by (metis dec_enc enc_zero)

lemma dec_enc_array: "map dec (map enc xs) = xs"
  by (induction xs) (simp_all add: dec_enc)

end

section \<open>Bit-level lemmas\<close>

lemma bit_bswap32:
  "bit (bswap32 x) n \<longleftrightarrow>
     n < 32 \<and> bit x (if n < 8 then n + 24 else if n < 16 then n + 8 else if n < 24 then n - 8 else n - 24)"
proof -
  consider "n < 8" | "8 \<le> n" "n < 16" | "16 \<le> n" "n < 24" | "24 \<le> n" "n < 32" | "32 \<le> n"
    by linarith
  then show ?thesis
    by cases (auto simp: bswap32_def bit_simps add.commute)
qed

lemma bswap32_bswap32 [simp]: "bswap32 (bswap32 x) = x"
  by (rule bit_word_eqI) (auto simp: bit_bswap32)

lemma bswap32_zero [simp]: "bswap32 0 = 0"
  by (rule bit_word_eqI) (simp add: bit_bswap32)

lemma ntohl_htonl: "ntohl le (htonl le x) = x"
  by (simp add: ntohl_def htonl_def)

text \<open>The 64-bit macro exchanges the two halves and converts each.\<close>

lemma low_word_shift: "(ucast (drop_bit 32 (push_bit 32 (x :: u64))) :: u32) = ucast x"
  by (rule bit_word_eqI) (simp add: bit_simps)

lemma low_word_mask: "(ucast ((x :: u64) AND 0xFFFFFFFF) :: u32) = ucast x"
proof -
  have "(0xFFFFFFFF :: u64) = mask 32" by (simp add: mask_eq_exp_minus_1)
  then have "x AND 0xFFFFFFFF = take_bit 32 x" by (simp only: take_bit_eq_mask)
  then show ?thesis by (simp only:) (rule bit_word_eqI, simp add: bit_simps)
qed

definition join_words :: "u32 \<Rightarrow> u32 \<Rightarrow> u64" where
  "join_words hi lo = push_bit 32 (ucast hi) OR ucast lo"

lemma low_join_words [simp]: "(ucast (join_words hi lo) :: u32) = lo"
  by (rule bit_word_eqI) (auto simp: join_words_def bit_simps)

lemma high_join_words [simp]: "(ucast (drop_bit 32 (join_words hi lo)) :: u32) = hi"
  by (rule bit_word_eqI) (auto simp: join_words_def bit_simps dest: bit_imp_le_length)

lemma join_words_split [simp]: "join_words (ucast (drop_bit 32 x)) (ucast (x :: u64)) = x"
  by (rule bit_word_eqI) (auto simp: join_words_def bit_simps dest: bit_imp_le_length)

lemma ntohll_eq: "ntohll le x = join_words (ntohl le (ucast x)) (ntohl le (ucast (drop_bit 32 x)))"
  by (simp only: ntohll_def join_words_def low_word_shift)

lemma daemon_htonll_eq:
  "daemon_htonll le x =
     (if le then join_words (htonl le (ucast x)) (htonl le (ucast (drop_bit 32 x))) else x)"
  by (simp only: daemon_htonll_def join_words_def low_word_mask)

lemma join_words_zero: "join_words 0 0 = 0"
  by (simp add: join_words_def)

section \<open>The conversion pairs meet the contract\<close>

interpretation rkey: wire_codec "htonl le" "ntohl le" for le
  by unfold_locales (simp_all add: ntohl_htonl, simp add: htonl_def)

text \<open>Activity counters: encoded by the block device, decoded by the daemon, on any host.\<close>

interpretation activity: wire_codec "bd_htonll le" "ntohll le" for le
  by unfold_locales
    (simp_all add: bd_htonll_def ntohll_eq ntohl_def join_words_zero)

text \<open>Region addresses: encoded by the daemon, decoded by the block device, little endian.\<close>

interpretation region: wire_codec "daemon_htonll True" "ntohll True"
  by unfold_locales
    (simp_all add: daemon_htonll_eq ntohll_eq ntohl_def htonl_def join_words_zero)

text \<open>
  C35: a chunk's address and an activity counter survive the trip between the two programs. The
  address the daemon encodes with its function \<open>htonll\<close> and the block device decodes with its macro
  \<open>ntohll\<close> is the same address between little-endian hosts; between big-endian hosts, where the
  function keeps the value and the macro still exchanges its halves, it is the address with the two
  32-bit halves exchanged. The counter the block device encodes is decoded correctly on both.
\<close>

theorem wire_roundtrip:
  "ntohll le (daemon_htonll le x) =
     (if le then x else push_bit 32 (ucast (ucast x :: u32)) OR ucast (ucast (drop_bit 32 x) :: u32))
   \<and> ntohll le (bd_htonll le y) = y \<and> (daemon_htonll le x = 0 \<longleftrightarrow> x = 0)"
proof (cases le)
  case True
  then show ?thesis
    using region.dec_enc region.enc_eq_zero_iff activity.dec_enc by simp
next
  case False
  then have "ntohll le (daemon_htonll le x) =
      push_bit 32 (ucast (ucast x :: u32)) OR ucast (ucast (drop_bit 32 x) :: u32)"
    by (simp add: daemon_htonll_eq ntohll_eq ntohl_def join_words_def)
  with False show ?thesis
    by (simp only: activity.dec_enc) (simp add: daemon_htonll_eq)
qed

end
