(* ===== verification/Chunk_Map.thy ===== *)
theory Chunk_Map
  imports Ctx_Pool Byte_Order
begin

text \<open>
  The placement tables of the block device. The session records for every 1 GB chunk of the swap
  space which server holds it (\<open>cb_index_map\<close>) and in which of the server's chunks
  (\<open>chunk_map_cb_chunk\<close>); every control block records the inverse (\<open>chunk_map\<close>). This theory has
  the creation of the tables, the two operations that enter a mapping (\<open>is_mq.c\<close>), the handlers of
  the messages a server sends (\<open>is_main.c\<close>) and the invariant that ties the tables together.
\<close>

section \<open>Access to a control block\<close>

abbreviation cb_at :: "IS_session \<Rightarrow> nat \<Rightarrow> kernel_cb" where
  "cb_at s c \<equiv> cb_list s ! c"

abbreviation rc_at :: "IS_session \<Rightarrow> nat \<Rightarrow> remote_chunk_g_list" where
  "rc_at s c \<equiv> remote_chunk (cb_list s ! c)"

definition upd_cb :: "nat \<Rightarrow> (kernel_cb \<Rightarrow> kernel_cb) \<Rightarrow> IS_session \<Rightarrow> IS_session" where
  "upd_cb c f s = s\<lparr>cb_list := (cb_list s)[c := f (cb_list s ! c)]\<rparr>"

definition upd_rc :: "nat \<Rightarrow> (remote_chunk_g_list \<Rightarrow> remote_chunk_g_list) \<Rightarrow> IS_session \<Rightarrow> IS_session" where
  "upd_rc c f s = upd_cb c (\<lambda>cb. cb\<lparr>remote_chunk := f (remote_chunk cb)\<rparr>) s"

section \<open>Creation\<close>

text \<open>
  A control block from \<open>kzalloc\<close>: no arrays yet. The zero \<open>type\<close> of its buffers has no enumerator;
  it is never read, since a type is stored before every send and received before every switch.
\<close>

definition zero_rc :: remote_chunk_g_list where
  "zero_rc = \<lparr>chunk_list = [], remote_mapped = [], chunk_size_g = 0, target_size_g = 0,
              shrink_size_g = 0, chunk_map = [], evict_chunk_map = [], c_state = C_IDLE\<rparr>"

definition zero_cb :: kernel_cb where
  "zero_cb = \<lparr>cb_index = 0, cb_port = 0, recv_buf = zero_msg DONE, send_buf = zero_msg DONE,
              remote_chunk = zero_rc, state = IDLE, txdepth = 0, cb_size = 0,
              hw = zero_hw\<rparr>"

text \<open>
  \<open>kernel_cb_init\<close> with the result of \<open>rdma_create_id\<close>; None: the control block was freed and
  the error returned.
\<close>

definition kernel_cb_init :: "bool \<Rightarrow> int \<Rightarrow> kernel_cb \<Rightarrow> kernel_cb option" where
  "kernel_cb_init id_ok submit_queues cb =
     (let cb' = cb\<lparr>txdepth := int IS_QUEUE_DEPTH * submit_queues + 1,
                   cb_size := int (IS_PAGE_SIZE * MAX_SGL_LEN), state := IDLE,
                   hw := (hw cb)\<lparr>mem := DMA, cm_id := (if id_ok then Live else Err_Ptr)\<rparr>,
                   remote_chunk := (remote_chunk cb)
                     \<lparr>chunk_size_g := 0, chunk_list := replicate MAX_MR_SIZE_GB zero_chunk,
                      remote_mapped := replicate MAX_MR_SIZE_GB CHUNK_UNMAPPED,
                      chunk_map := replicate MAX_MR_SIZE_GB (-1),
                      evict_chunk_map := replicate MAX_MR_SIZE_GB (CHR 0x00), c_state := C_IDLE\<rparr>\<rparr>
      in if id_ok then Some cb' else None)"

definition RDMA_TRIGGER_THRESHOLD :: u64 where "RDMA_TRIGGER_THRESHOLD = 0"
definition RDMA_W_WEIGHT :: int where "RDMA_W_WEIGHT = 50"
definition RDMA_CUR_WEIGHT :: int where "RDMA_CUR_WEIGHT = 80"

text \<open>\<open>IS_create_conn\<close>: one connection per CPU, with an empty pool list per server.\<close>

definition IS_create_conn :: "nat \<Rightarrow> int \<Rightarrow> IS_connection" where
  "IS_create_conn NUM_CB cpu = \<lparr>cpu_id = cpu, ctx_pools = replicate NUM_CB zero_pool_list\<rparr>"

text \<open>
  \<open>IS_session_create\<close> after \<open>portal_parser\<close>, which gives the port of every server. \<open>conn_ok i\<close> is the
  result of the allocation of connection \<open>i\<close>; None: the error path, all connections destroyed.
\<close>

definition IS_session_create :: "bool \<Rightarrow> (nat \<Rightarrow> bool) \<Rightarrow> nat \<Rightarrow> u16 list \<Rightarrow> IS_session option" where
  "IS_session_create le conn_ok submit_queues ports =
     (let n = length ports; g = STACKBD_SIZE_G
      in if \<forall>i < submit_queues. conn_ok i
         then Some \<lparr>mapped_cb_num = 0,
           cb_list = map (\<lambda>i. zero_cb\<lparr>cb_index := int i, cb_port := htons le (ports ! i)\<rparr>) [0..<n],
           cb_num = int n, cb_state_list = replicate n CB_IDLE,
           IS_conns = map (\<lambda>i. IS_create_conn n (int i)) [0..<submit_queues],
           capacity = of_nat g * of_nat ONE_GB, capacity_g = int g,
           cb_index_map = replicate g NO_CB_MAPPED, chunk_map_cb_chunk = replicate g (-1),
           unmapped_chunk_list = map (\<lambda>i. int g - 1 - int i) [0..<g], free_chunk_index = int g - 1,
           rdma_on = DEV_RDMA_OFF, write_ops = replicate g 0, read_ops = replicate g 0,
           last_ops = replicate g 0, trigger_threshold = RDMA_TRIGGER_THRESHOLD, w_weight = RDMA_W_WEIGHT,
           cur_weight = RDMA_CUR_WEIGHT, trigger_enable = TRIGGER_ON\<rparr>
         else None)"

section \<open>Entering a mapping\<close>

text \<open>
  The remote chunk \<open>i\<close> as the message describes it, with a fresh bitmap (\<open>kzalloc\<close> and
  \<open>IS_bitmap_init\<close>); the previous bitmap, if any, is dropped.
\<close>

definition received_chunk :: "bool \<Rightarrow> IS_rdma_info \<Rightarrow> nat \<Rightarrow> remote_chunk_g \<Rightarrow> remote_chunk_g res" where
  "received_chunk le m i ch =
     bind_res (arr_get (rkey m) (int i)) (\<lambda>rk.
     bind_res (arr_get (buf m) (int i)) (\<lambda>ad.
     bind_res (IS_bitmap_init (replicate BITMAP_INT_SIZE 0)) (\<lambda>bm.
       Inr (ch\<lparr>remote_rkey := ntohl le rk, remote_addr := ntohll le ad, bitmap_g := Some bm\<rparr>))))"

text \<open>Chunk \<open>i\<close> of control block \<open>c\<close> becomes session chunk \<open>g\<close>: both tables and the flags.\<close>

definition enter_mapping :: "bool \<Rightarrow> nat \<Rightarrow> nat \<Rightarrow> int \<Rightarrow> IS_session \<Rightarrow> IS_session res" where
  "enter_mapping le c i g s =
     (let cb = cb_at s c; rc = remote_chunk cb in
      bind_res (arr_get (chunk_list rc) (int i)) (\<lambda>ch.
      bind_res (received_chunk le (recv_buf cb) i ch) (\<lambda>ch'.
      bind_res (arr_set (chunk_list rc) (int i) ch') (\<lambda>cl.
      bind_res (arr_set (chunk_map_cb_chunk s) g (int i)) (\<lambda>mcc.
      bind_res (arr_set (chunk_map rc) (int i) g) (\<lambda>cm.
      bind_res (arr_set (remote_mapped rc) (int i) CHUNK_MAPPED) (\<lambda>rm.
      bind_res (arr_set (cb_index_map s) g (cb_index cb)) (\<lambda>cim.
        Inr (upd_rc c (\<lambda>rc. rc\<lparr>chunk_list := cl, chunk_map := cm, remote_mapped := rm\<rparr>)
              (s\<lparr>free_chunk_index := free_chunk_index s - 1, chunk_map_cb_chunk := mcc,
                 cb_index_map := cim\<rparr>))))))))))"

text \<open>
  \<open>IS_single_chunk_init\<close>: the first chunk with a non-zero key is mapped to the session chunk that
  the message names in \<open>size_gb\<close>; the list of unmapped chunks is left alone, only its index moves.
\<close>

fun single_chunk_init_loop :: "bool \<Rightarrow> nat \<Rightarrow> int \<Rightarrow> nat list \<Rightarrow> IS_session \<Rightarrow> IS_session res" where
  "single_chunk_init_loop le c g [] s = Inr s"
| "single_chunk_init_loop le c g (i # is) s =
     bind_res (arr_get (rkey (recv_buf (cb_at s c))) (int i)) (\<lambda>rk.
       if rk \<noteq> 0
       then bind_res (enter_mapping le c i g s) (\<lambda>s'.
              Inr (upd_rc c (\<lambda>rc. rc\<lparr>chunk_size_g := chunk_size_g rc + 1, c_state := C_READY\<rparr>) s'))
       else single_chunk_init_loop le c g is s)"

definition IS_single_chunk_init :: "bool \<Rightarrow> nat \<Rightarrow> IS_session \<Rightarrow> IS_session res" where
  "IS_single_chunk_init le c s =
     single_chunk_init_loop le c (size_gb (recv_buf (cb_at s c))) [0..<MAX_MR_SIZE_GB] s"

text \<open>
  \<open>IS_chunk_list_init\<close>: every chunk with a non-zero key is mapped to the session chunk on top of the
  list of unmapped ones.
\<close>

definition IS_chunk_list_init :: "bool \<Rightarrow> nat \<Rightarrow> IS_session \<Rightarrow> IS_session res" where
  "IS_chunk_list_init le c s =
     bind_res (for_res (\<lambda>i s.
         bind_res (arr_get (rkey (recv_buf (cb_at s c))) (int i)) (\<lambda>rk.
           if rk \<noteq> 0
           then bind_res (arr_get (unmapped_chunk_list s) (free_chunk_index s)) (\<lambda>g.
                  enter_mapping le c i g s)
           else Inr s)) [0..<MAX_MR_SIZE_GB] s)
       (\<lambda>s'. Inr (upd_rc c (\<lambda>rc. rc\<lparr>chunk_size_g := chunk_size_g rc + size_gb (recv_buf (cb_at s c)),
                                     c_state := C_READY\<rparr>) s'))"

section \<open>Messages from a server\<close>

definition client_recv_evict :: "nat \<Rightarrow> IS_session \<Rightarrow> IS_session" where
  "client_recv_evict c s =
     (let m = recv_buf (cb_at s c)
      in if size_gb m = 0 then s
         else upd_rc c (\<lambda>rc. rc\<lparr>shrink_size_g := size_gb m, c_state := C_EVICT\<rparr>) s)"

definition client_recv_stop :: "nat \<Rightarrow> IS_session \<Rightarrow> IS_session res" where
  "client_recv_stop c s =
     (let m = recv_buf (cb_at s c);
          s1 = upd_rc c (\<lambda>rc. rc\<lparr>shrink_size_g := size_gb m\<rparr>) s
      in if size_gb m = 0
         then Inr (upd_rc c (\<lambda>rc. rc\<lparr>c_state := C_STOP\<rparr>) s1)
         else bind_res (for_res (\<lambda>i ecm.
                  bind_res (arr_get (rkey m) (int i)) (\<lambda>rk.
                    arr_set ecm (int i) (if rk \<noteq> 0 then CHR ''s'' else CHR ''a'')))
                [0..<MAX_MR_SIZE_GB] (evict_chunk_map (rc_at s c)))
              (\<lambda>ecm. Inr (upd_rc c (\<lambda>rc. rc\<lparr>evict_chunk_map := ecm, c_state := C_STOP\<rparr>) s1)))"

text \<open>
  \<open>client_recv\<close>: the boolean is False for the error return \<open>-1\<close> (a message of the wrong length, a
  control block that is not connected, a type the block device does not expect).
\<close>

definition sizeof_IS_rdma_info :: nat where
  "sizeof_IS_rdma_info = 8 * MAX_MR_SIZE_GB + 4 * MAX_MR_SIZE_GB + 4 + 4"

definition client_recv :: "bool \<Rightarrow> nat \<Rightarrow> nat \<Rightarrow> IS_session \<Rightarrow> (bool \<times> IS_session) res" where
  "client_recv le byte_len c s =
     (let m = recv_buf (cb_at s c);
          goto = (\<lambda>st s. upd_cb c (\<lambda>cb. cb\<lparr>state := st\<rparr>) s);
          mapped = (\<lambda>k. bind_res (arr_set (cb_state_list s) (cb_index (cb_at s c)) CB_MAPPED)
                          (\<lambda>l. k (goto WAIT_OPS (s\<lparr>cb_state_list := l\<rparr>))));
          ok = (\<lambda>r. bind_res r (\<lambda>s. Inr (True, s)))
      in if byte_len \<noteq> sizeof_IS_rdma_info then Inr (False, s)
         else if state (cb_at s c) < CONNECTED then Inr (False, s)
         else (case mtype m of
             FREE_SIZE \<Rightarrow> Inr (True, goto FREE_MEM_RECV (upd_rc c (\<lambda>rc. rc\<lparr>target_size_g := size_gb m\<rparr>) s))
           | INFO \<Rightarrow> ok (mapped (IS_chunk_list_init le c))
           | INFO_SINGLE \<Rightarrow> ok (mapped (IS_single_chunk_init le c))
           | EVICT \<Rightarrow> Inr (True, client_recv_evict c (goto RECV_EVICT s))
           | STOP \<Rightarrow> ok (client_recv_stop c (goto RECV_STOP s))
           | _ \<Rightarrow> Inr (False, s)))"

section \<open>The invariant of the tables\<close>

text \<open>The placements the control blocks record, and those the session records: \<open>(c, k, g)\<close>, session
  chunk \<open>g\<close> is chunk \<open>k\<close> of server \<open>c\<close>.\<close>

definition cb_view :: "IS_session \<Rightarrow> (nat \<times> nat \<times> nat) set" where
  "cb_view s = {(c, k, g). c < length (cb_list s) \<and> k < length (chunk_map (rc_at s c)) \<and>
                           chunk_map (rc_at s c) ! k = int g}"

definition sess_view :: "IS_session \<Rightarrow> (nat \<times> nat \<times> nat) set" where
  "sess_view s = {(c, k, g). g < length (cb_index_map s) \<and> cb_index_map s ! g = int c \<and>
                             chunk_map_cb_chunk s ! g = int k}"

text \<open>One control block: arrays of the declared size (or none yet), the flags and the count agree with
  the map, and every mapped chunk has its bitmap.\<close>

definition rc_sized :: "remote_chunk_g_list \<Rightarrow> nat \<Rightarrow> bool" where
  "rc_sized rc n \<longleftrightarrow> length (chunk_list rc) = n \<and> length (remote_mapped rc) = n \<and>
                    length (chunk_map rc) = n \<and> length (evict_chunk_map rc) = n"

definition has_bitmap :: "remote_chunk_g \<Rightarrow> bool" where
  "has_bitmap ch \<longleftrightarrow> (case bitmap_g ch of None \<Rightarrow> False | Some bm \<Rightarrow> bitmap_wf bm)"

definition rc_inv :: "remote_chunk_g_list \<Rightarrow> bool" where
  "rc_inv rc \<longleftrightarrow>
     (rc_sized rc MAX_MR_SIZE_GB \<or> rc_sized rc 0) \<and>
     (\<forall>k < length (chunk_map rc). -1 \<le> chunk_map rc ! k \<and>
        remote_mapped rc ! k = (if chunk_map rc ! k = -1 then CHUNK_UNMAPPED else CHUNK_MAPPED) \<and>
        (chunk_map rc ! k \<noteq> -1 \<longrightarrow> has_bitmap (chunk_list rc ! k))) \<and>
     chunk_size_g rc = count_if (\<lambda>g. g \<noteq> -1) (chunk_map rc)"

definition sess_wf :: "IS_session \<Rightarrow> bool" where
  "sess_wf s \<longleftrightarrow>
     length (cb_state_list s) = length (cb_list s) \<and> cb_num s = int (length (cb_list s)) \<and>
     length (cb_index_map s) = STACKBD_SIZE_G \<and> length (chunk_map_cb_chunk s) = STACKBD_SIZE_G \<and>
     length (unmapped_chunk_list s) = STACKBD_SIZE_G \<and>
     (\<forall>c < length (cb_list s). cb_index (cb_at s c) = int c)"

text \<open>
  The whole invariant. During an eviction the chunks in \<open>L\<close> are in limbo: already taken from their
  server, but not yet entered in the list of unmapped chunks and with a stale \<open>chunk_map_cb_chunk\<close>.
\<close>

definition map_inv_upto :: "nat set \<Rightarrow> IS_session \<Rightarrow> bool" where
  "map_inv_upto L s \<longleftrightarrow>
     sess_wf s \<and> (\<forall>c < length (cb_list s). rc_inv (rc_at s c)) \<and> cb_view s = sess_view s \<and>
     (\<forall>g < STACKBD_SIZE_G. -1 \<le> cb_index_map s ! g \<and>
        (if g \<in> L then cb_index_map s ! g = -1
         else cb_index_map s ! g = -1 \<longleftrightarrow> chunk_map_cb_chunk s ! g = -1)) \<and>
     (\<forall>g < STACKBD_SIZE_G. -1 \<le> chunk_map_cb_chunk s ! g) \<and> L \<subseteq> {..<STACKBD_SIZE_G} \<and>
     free_chunk_index s + 1 + int (card L) = count_if (\<lambda>i. i = -1) (cb_index_map s)"

abbreviation map_inv :: "IS_session \<Rightarrow> bool" where
  "map_inv \<equiv> map_inv_upto {}"

lemma map_invD:
  assumes "map_inv_upto L s"
  shows "sess_wf s" "\<And>c. c < length (cb_list s) \<Longrightarrow> rc_inv (rc_at s c)" "cb_view s = sess_view s"
    "free_chunk_index s + 1 + int (card L) = count_if (\<lambda>i. i = -1) (cb_index_map s)"
  using assms by (simp_all add: map_inv_upto_def)

section \<open>Updates of one control block\<close>

lemma upd_cb_simps [simp]:
  "length (cb_list (upd_cb c f s)) = length (cb_list s)"
  "c < length (cb_list s) \<Longrightarrow> cb_at (upd_cb c f s) c = f (cb_at s c)"
  "c \<noteq> d \<Longrightarrow> cb_at (upd_cb c f s) d = cb_at s d"
  "cb_index_map (upd_cb c f s) = cb_index_map s"
  "chunk_map_cb_chunk (upd_cb c f s) = chunk_map_cb_chunk s"
  "unmapped_chunk_list (upd_cb c f s) = unmapped_chunk_list s"
  "free_chunk_index (upd_cb c f s) = free_chunk_index s"
  "cb_state_list (upd_cb c f s) = cb_state_list s"
  "cb_num (upd_cb c f s) = cb_num s"
  "rdma_on (upd_cb c f s) = rdma_on s"
  "IS_conns (upd_cb c f s) = IS_conns s"
  "last_ops (upd_cb c f s) = last_ops s"
  by (simp_all add: upd_cb_def)

lemma upd_rc_simps [simp]:
  "length (cb_list (upd_rc c f s)) = length (cb_list s)"
  "c < length (cb_list s) \<Longrightarrow> cb_at (upd_rc c f s) c = (cb_at s c)\<lparr>remote_chunk := f (rc_at s c)\<rparr>"
  "c \<noteq> d \<Longrightarrow> cb_at (upd_rc c f s) d = cb_at s d"
  "cb_index_map (upd_rc c f s) = cb_index_map s"
  "chunk_map_cb_chunk (upd_rc c f s) = chunk_map_cb_chunk s"
  "unmapped_chunk_list (upd_rc c f s) = unmapped_chunk_list s"
  "free_chunk_index (upd_rc c f s) = free_chunk_index s"
  "cb_state_list (upd_rc c f s) = cb_state_list s"
  "cb_num (upd_rc c f s) = cb_num s"
  "rdma_on (upd_rc c f s) = rdma_on s"
  "IS_conns (upd_rc c f s) = IS_conns s"
  "last_ops (upd_rc c f s) = last_ops s"
  by (simp_all add: upd_rc_def)

text \<open>An update that keeps the index and the tables of its control block keeps the invariant.\<close>

definition rc_tables :: "remote_chunk_g_list \<Rightarrow> remote_chunk_g list \<times> int list \<times> int list \<times> int \<times> nat" where
  "rc_tables rc = (chunk_list rc, remote_mapped rc, chunk_map rc, chunk_size_g rc, length (evict_chunk_map rc))"

lemma rc_inv_cong: "rc_tables a = rc_tables b \<Longrightarrow> rc_inv a = rc_inv b"
  by (simp add: rc_tables_def rc_inv_def rc_sized_def)

lemma map_inv_cong:
  assumes "length (cb_list t) = length (cb_list s)"
    and "\<And>c. c < length (cb_list s) \<Longrightarrow>
           cb_index (cb_at t c) = cb_index (cb_at s c) \<and> rc_tables (rc_at t c) = rc_tables (rc_at s c)"
    and "cb_index_map t = cb_index_map s" "chunk_map_cb_chunk t = chunk_map_cb_chunk s"
    and "length (unmapped_chunk_list t) = length (unmapped_chunk_list s)"
    and "free_chunk_index t = free_chunk_index s" "length (cb_state_list t) = length (cb_state_list s)"
    and "cb_num t = cb_num s"
  shows "map_inv_upto L t = map_inv_upto L s"
proof -
  have "chunk_map (rc_at t c) = chunk_map (rc_at s c)" if "c < length (cb_list s)" for c
    using assms(2)[OF that] by (simp add: rc_tables_def)
  then have "cb_view t = cb_view s"
    using assms(1) by (auto simp: cb_view_def)
  moreover have "sess_view t = sess_view s" using assms(3,4) by (simp add: sess_view_def)
  moreover have "(\<forall>c < length (cb_list s). cb_index (cb_at t c) = int c) \<longleftrightarrow>
      (\<forall>c < length (cb_list s). cb_index (cb_at s c) = int c)"
    using assms(2) by metis
  then have "sess_wf t = sess_wf s"
    by (simp only: sess_wf_def assms(1,3-8))
  moreover have "(\<forall>c < length (cb_list s). rc_inv (rc_at t c)) \<longleftrightarrow>
      (\<forall>c < length (cb_list s). rc_inv (rc_at s c))"
    using assms(2) rc_inv_cong by metis
  ultimately show ?thesis
    by (simp only: map_inv_upto_def assms(1,3,4,6))
qed

lemma map_inv_upd_cb:
  assumes "\<And>cb. cb_index (f cb) = cb_index cb \<and> rc_tables (remote_chunk (f cb)) = rc_tables (remote_chunk cb)"
  shows "map_inv_upto L (upd_cb c f s) = map_inv_upto L s"
proof (rule map_inv_cong)
  fix d
  assume "d < length (cb_list s)"
  then show "cb_index (cb_at (upd_cb c f s) d) = cb_index (cb_at s d) \<and>
      rc_tables (rc_at (upd_cb c f s) d) = rc_tables (rc_at s d)"
    using assms by (cases "d = c") simp_all
qed simp_all

lemma map_inv_upd_rc:
  "(\<And>rc. rc_tables (f rc) = rc_tables rc) \<Longrightarrow> map_inv_upto L (upd_rc c f s) = map_inv_upto L s"
  unfolding upd_rc_def by (rule map_inv_upd_cb) simp

lemma map_inv_cb_state_list [simp]:
  "length xs = length (cb_state_list s) \<Longrightarrow> map_inv_upto L (s\<lparr>cb_state_list := xs\<rparr>) = map_inv_upto L s"
  by (rule map_inv_cong) simp_all

section \<open>A placement keeps the invariant\<close>

text \<open>The effect of entering a mapping, with its count.\<close>

definition placed :: "nat \<Rightarrow> nat \<Rightarrow> nat \<Rightarrow> remote_chunk_g \<Rightarrow> IS_session \<Rightarrow> IS_session" where
  "placed c i g ch s =
     upd_rc c (\<lambda>rc. rc\<lparr>chunk_list := (chunk_list rc)[i := ch], chunk_map := (chunk_map rc)[i := int g],
                       remote_mapped := (remote_mapped rc)[i := CHUNK_MAPPED]\<rparr>)
       (s\<lparr>free_chunk_index := free_chunk_index s - 1,
          chunk_map_cb_chunk := (chunk_map_cb_chunk s)[g := int i],
          cb_index_map := (cb_index_map s)[g := int c]\<rparr>)"

definition counted :: "nat \<Rightarrow> int \<Rightarrow> IS_session \<Rightarrow> IS_session" where
  "counted c n s = upd_rc c (\<lambda>rc. rc\<lparr>chunk_size_g := chunk_size_g rc + n\<rparr>) s"

definition slot_free :: "nat \<Rightarrow> nat \<Rightarrow> IS_session \<Rightarrow> bool" where
  "slot_free c i s \<longleftrightarrow> c < length (cb_list s) \<and> rc_sized (rc_at s c) MAX_MR_SIZE_GB \<and>
                       i < MAX_MR_SIZE_GB \<and> chunk_map (rc_at s c) ! i = -1"

definition chunk_free :: "nat \<Rightarrow> IS_session \<Rightarrow> bool" where
  "chunk_free g s \<longleftrightarrow> g < STACKBD_SIZE_G \<and> cb_index_map s ! g = NO_CB_MAPPED"

lemma rc_inv_placed:
  assumes "rc_inv rc" "rc_sized rc MAX_MR_SIZE_GB" "i < MAX_MR_SIZE_GB" "chunk_map rc ! i = -1"
    "has_bitmap ch"
  shows "rc_inv (rc\<lparr>chunk_list := (chunk_list rc)[i := ch], chunk_map := (chunk_map rc)[i := int g],
      remote_mapped := (remote_mapped rc)[i := CHUNK_MAPPED], chunk_size_g := chunk_size_g rc + 1\<rparr>)"
  using assms by (auto simp: rc_inv_def rc_sized_def nth_list_update count_if_update)

lemma cb_view_placed:
  assumes "slot_free c i s"
  shows "cb_view (counted c 1 (placed c i g ch s)) = insert (c, i, g) (cb_view s)"
proof (intro set_eqI)
  fix x :: "nat \<times> nat \<times> nat"
  obtain d k h where x: "x = (d, k, h)" by (cases x)
  show "x \<in> cb_view (counted c 1 (placed c i g ch s)) \<longleftrightarrow> x \<in> insert (c, i, g) (cb_view s)"
    using assms
    by (cases "d = c"; cases "k = i")
      (auto simp: x cb_view_def counted_def placed_def slot_free_def rc_sized_def)
qed

lemma sess_view_placed:
  assumes "sess_wf s" "chunk_free g s"
  shows "sess_view (counted c 1 (placed c i g ch s)) = insert (c, i, g) (sess_view s)"
proof (intro set_eqI)
  fix x :: "nat \<times> nat \<times> nat"
  obtain d k h where x: "x = (d, k, h)" by (cases x)
  show "x \<in> sess_view (counted c 1 (placed c i g ch s)) \<longleftrightarrow> x \<in> insert (c, i, g) (sess_view s)"
    using assms
    by (cases "h = g")
      (auto simp: x sess_view_def counted_def placed_def chunk_free_def sess_wf_def NO_CB_MAPPED_def)
qed

lemma map_inv_placed:
  assumes inv: "map_inv_upto L s" and slot: "slot_free c i s" and free: "chunk_free g s" "g \<notin> L" and bm: "has_bitmap ch"
  shows "map_inv_upto L (counted c 1 (placed c i g ch s))"
proof -
  let ?t = "counted c 1 (placed c i g ch s)"
  note wf = map_invD(1)[OF inv]
  have "sess_wf ?t"
    unfolding sess_wf_def
  proof (intro conjI allI impI)
    fix d
    assume "d < length (cb_list ?t)"
    then show "cb_index (cb_at ?t d) = int d"
      using wf by (cases "d = c") (simp_all add: counted_def placed_def sess_wf_def)
  qed (use wf in \<open>simp_all add: counted_def placed_def sess_wf_def\<close>)
  moreover have "rc_inv (rc_at ?t d)" if d: "d < length (cb_list ?t)" for d
  proof (cases "d = c")
    case True
    then show ?thesis
      using rc_inv_placed [of "rc_at s c" i ch g] map_invD(2)[OF inv] slot bm d
      by (simp add: counted_def placed_def slot_free_def)
  next
    case False
    then show ?thesis
      using map_invD(2)[OF inv] d by (simp add: counted_def placed_def)
  qed
  moreover have "cb_view ?t = sess_view ?t"
    using cb_view_placed [OF slot] sess_view_placed [OF wf free(1)] map_invD(3)[OF inv] by simp
  moreover have "free_chunk_index ?t + 1 + int (card L) = count_if (\<lambda>i. i = -1) (cb_index_map ?t)"
    using map_invD(4)[OF inv] free wf
    by (simp add: counted_def placed_def count_if_update chunk_free_def sess_wf_def NO_CB_MAPPED_def)
  moreover have "-1 \<le> cb_index_map ?t ! h" "-1 \<le> chunk_map_cb_chunk ?t ! h"
    "if h \<in> L then cb_index_map ?t ! h = -1 else cb_index_map ?t ! h = -1 \<longleftrightarrow> chunk_map_cb_chunk ?t ! h = -1"
    if "h < STACKBD_SIZE_G" for h
    using inv wf free that
    by (cases "h = g"; simp add: counted_def placed_def map_inv_upto_def sess_wf_def)+
  moreover have "L \<subseteq> {..<STACKBD_SIZE_G}" using inv by (simp add: map_inv_upto_def)
  ultimately show ?thesis
    unfolding map_inv_upto_def by blast
qed

text \<open>\<open>enter_mapping\<close> computes exactly that.\<close>

definition chunk_of_msg :: "bool \<Rightarrow> IS_rdma_info \<Rightarrow> nat \<Rightarrow> remote_chunk_g \<Rightarrow> remote_chunk_g" where
  "chunk_of_msg le m i ch = ch\<lparr>remote_rkey := ntohl le (rkey m ! i), remote_addr := ntohll le (buf m ! i),
                              bitmap_g := Some (replicate BITMAP_INT_SIZE 0)\<rparr>"

lemma has_bitmap_chunk_of_msg [simp]: "has_bitmap (chunk_of_msg le m i ch)"
  by (simp add: has_bitmap_def chunk_of_msg_def)

lemma received_chunk_eq:
  "msg_wf m \<Longrightarrow> i < MAX_MR_SIZE_GB \<Longrightarrow> received_chunk le m i ch = Inr (chunk_of_msg le m i ch)"
  by (simp add: received_chunk_def msg_wf_def chunk_of_msg_def IS_bitmap_init_eq)

lemma enter_mapping_eq:
  assumes "sess_wf s" "slot_free c i s" "g < STACKBD_SIZE_G" "msg_wf (recv_buf (cb_at s c))"
  shows "enter_mapping le c i (int g) s =
           Inr (placed c i g (chunk_of_msg le (recv_buf (cb_at s c)) i (chunk_list (rc_at s c) ! i)) s)"
  using assms
  by (simp add: enter_mapping_def Let_def received_chunk_eq slot_free_def rc_sized_def sess_wf_def
      placed_def upd_rc_def upd_cb_def)

section \<open>The offer of a single chunk\<close>

text \<open>The slot an offer names: the first non-zero key of the message.\<close>

definition offered_slot :: "IS_rdma_info \<Rightarrow> nat option" where
  "offered_slot m = find (\<lambda>i. rkey m ! i \<noteq> 0) [0..<MAX_MR_SIZE_GB]"

lemma single_chunk_init_loop_eq:
  assumes "\<forall>i \<in> set is. i < length (rkey (recv_buf (cb_at s c)))"
  shows "single_chunk_init_loop le c g is s =
     (case find (\<lambda>i. rkey (recv_buf (cb_at s c)) ! i \<noteq> 0) is of
        None \<Rightarrow> Inr s
      | Some i \<Rightarrow> bind_res (enter_mapping le c i g s) (\<lambda>s'.
          Inr (upd_rc c (\<lambda>rc. rc\<lparr>chunk_size_g := chunk_size_g rc + 1, c_state := C_READY\<rparr>) s')))"
  using assms by (induction "is") simp_all

lemma IS_single_chunk_init_eq:
  "msg_wf (recv_buf (cb_at s c)) \<Longrightarrow>
     IS_single_chunk_init le c s =
       (case offered_slot (recv_buf (cb_at s c)) of
          None \<Rightarrow> Inr s
        | Some i \<Rightarrow> bind_res (enter_mapping le c i (size_gb (recv_buf (cb_at s c))) s) (\<lambda>s'.
            Inr (upd_rc c (\<lambda>rc. rc\<lparr>chunk_size_g := chunk_size_g rc + 1, c_state := C_READY\<rparr>) s')))"
  unfolding IS_single_chunk_init_def offered_slot_def
  by (rule single_chunk_init_loop_eq) (simp add: msg_wf_def)

text \<open>What the block device relies on when a server offers a chunk: the slot is not already one of
  ours, and the session chunk is one that is not mapped.\<close>

definition offer_ok :: "nat \<Rightarrow> IS_session \<Rightarrow> bool" where
  "offer_ok c s \<longleftrightarrow>
     (let m = recv_buf (cb_at s c) in
      msg_wf m \<and> (case offered_slot m of None \<Rightarrow> True
                  | Some i \<Rightarrow> slot_free c i s \<and> 0 \<le> size_gb m \<and> chunk_free (nat (size_gb m)) s))"

lemma counted_ready:
  "upd_rc c (\<lambda>rc. rc\<lparr>chunk_size_g := chunk_size_g rc + 1, c_state := C_READY\<rparr>) s =
   upd_rc c (\<lambda>rc. rc\<lparr>c_state := C_READY\<rparr>) (counted c 1 s)"
  by (cases "c < length (cb_list s)") (simp_all add: counted_def upd_rc_def upd_cb_def list_update_beyond)

lemma map_inv_ready [simp]: "map_inv_upto L (upd_rc c (\<lambda>rc. rc\<lparr>c_state := st\<rparr>) s) = map_inv_upto L s"
  by (rule map_inv_upd_rc) (simp add: rc_tables_def)

lemma views_upd_rc_state [simp]:
  "sess_view (upd_rc c f s) = sess_view s"
  by (simp add: sess_view_def)

lemma IS_single_chunk_init_placed:
  assumes "map_inv_upto L s" "offer_ok c s" "offered_slot (recv_buf (cb_at s c)) = Some i"
  shows "IS_single_chunk_init le c s =
     Inr (upd_rc c (\<lambda>rc. rc\<lparr>c_state := C_READY\<rparr>) (counted c 1 (placed c i (nat (size_gb (recv_buf (cb_at s c))))
       (chunk_of_msg le (recv_buf (cb_at s c)) i (chunk_list (rc_at s c) ! i)) s)))"
  using assms enter_mapping_eq [of s c i "nat (size_gb (recv_buf (cb_at s c)))" le] map_invD(1)[OF assms(1)]
  by (simp add: IS_single_chunk_init_eq offer_ok_def Let_def counted_ready chunk_free_def)

lemma IS_single_chunk_init_inv:
  assumes "map_inv s" "offer_ok c s"
  shows "\<exists>s'. IS_single_chunk_init le c s = Inr s' \<and> map_inv s' \<and> length (cb_list s') = length (cb_list s)"
proof (cases "offered_slot (recv_buf (cb_at s c))")
  case None
  then show ?thesis
    using assms by (simp add: IS_single_chunk_init_eq offer_ok_def Let_def)
next
  case (Some i)
  then show ?thesis
    using assms by (simp add: IS_single_chunk_init_placed offer_ok_def Let_def map_inv_placed)
      (simp add: counted_def placed_def)
qed

section \<open>Properties\<close>

text \<open>Connecting a control block that holds no mapping: \<open>kernel_cb_init\<close> gives it empty tables.\<close>

definition no_mapping :: "remote_chunk_g_list \<Rightarrow> bool" where
  "no_mapping rc \<longleftrightarrow> (\<forall>k < length (chunk_map rc). chunk_map rc ! k = -1)"

lemma map_inv_replace_cb:
  assumes "map_inv_upto L s" "no_mapping (rc_at s c)" "no_mapping (remote_chunk cb)" "rc_inv (remote_chunk cb)"
    "cb_index cb = int c"
  shows "map_inv_upto L (upd_cb c (\<lambda>_. cb) s)"
proof (cases "c < length (cb_list s)")
  case True
  let ?t = "upd_cb c (\<lambda>_. cb) s"
  have "(d, k, g) \<in> cb_view ?t \<longleftrightarrow> (d, k, g) \<in> cb_view s" for d k g
    using assms(2,3) True by (cases "d = c") (auto simp: cb_view_def no_mapping_def)
  then have "cb_view ?t = cb_view s" by auto
  moreover have "sess_view ?t = sess_view s" by (simp add: sess_view_def)
  moreover have "cb_index (cb_at ?t d) = int d" "rc_inv (rc_at ?t d)" if "d < length (cb_list s)" for d
    using assms True that by (cases "d = c"; simp add: map_inv_upto_def sess_wf_def)+
  ultimately show ?thesis
    using assms(1) by (simp add: map_inv_upto_def sess_wf_def)
next
  case False
  then show ?thesis using assms(1) by (simp add: upd_cb_def list_update_beyond)
qed

lemma kernel_cb_init_ok:
  assumes "kernel_cb_init True q cb = Some cb'"
  shows "no_mapping (remote_chunk cb')" "rc_inv (remote_chunk cb')" "cb_index cb' = cb_index cb"
    "rc_sized (remote_chunk cb') MAX_MR_SIZE_GB" "state cb' = IDLE"
  using assms by (auto simp: kernel_cb_init_def Let_def no_mapping_def rc_inv_def rc_sized_def)

lemma cb_view_fresh: "\<forall>c < length (cb_list s). chunk_map (rc_at s c) = [] \<Longrightarrow> cb_view s = {}"
  by (auto simp: cb_view_def)

lemma IS_session_create_map_inv:
  assumes "IS_session_create le conn_ok q ports = Some s"
  shows "map_inv s" "sess_view s = {}"
proof -
  have "cb_view s = {}" "sess_view s = {}"
    using assms by (auto simp: IS_session_create_def Let_def sess_view_def zero_cb_def zero_rc_def
        NO_CB_MAPPED_def intro!: cb_view_fresh split: if_splits)
  moreover have "rc_inv zero_rc"
    by (simp add: rc_inv_def rc_sized_def zero_rc_def)
  ultimately show "map_inv s" "sess_view s = {}"
    using assms by (auto simp: IS_session_create_def Let_def map_inv_upto_def sess_wf_def zero_cb_def
        STACKBD_SIZE_G_def NO_CB_MAPPED_def split: if_splits)
qed


text \<open>
  C10: \<open>IS_single_chunk_init\<close> on an offer that names a free slot of the server and an unmapped session
  chunk records exactly one new placement, in the session and in the control block alike, keeps
  every other placement and the invariant, and stores the server's key and address decoded and an
  empty page bitmap.
\<close>

theorem IS_single_chunk_init_spec:
  assumes "map_inv s" "offer_ok c s" "offered_slot (recv_buf (cb_list s ! c)) = Some i"
    and "g = nat (size_gb (recv_buf (cb_list s ! c)))"
  shows "\<exists>s'. IS_single_chunk_init le c s = Inr s' \<and> map_inv s' \<and>
           sess_view s' = insert (c, i, g) (sess_view s) \<and> (c, i, g) \<notin> sess_view s \<and>
           chunk_list (remote_chunk (cb_list s' ! c)) ! i =
             \<lparr>remote_rkey = ntohl le (rkey (recv_buf (cb_list s ! c)) ! i),
              remote_addr = ntohll le (buf (recv_buf (cb_list s ! c)) ! i),
              bitmap_g = Some (replicate BITMAP_INT_SIZE 0)\<rparr> \<and>
           c_state (remote_chunk (cb_list s' ! c)) = C_READY \<and>
           chunk_size_g (remote_chunk (cb_list s' ! c)) = chunk_size_g (remote_chunk (cb_list s ! c)) + 1"
proof -
  let ?ch = "chunk_of_msg le (recv_buf (cb_list s ! c)) i (chunk_list (rc_at s c) ! i)"
  have slot: "slot_free c i s" and free: "chunk_free g s"
    using assms by (simp_all add: offer_ok_def Let_def)
  note wf = map_invD(1)[OF assms(1)]
  have "map_inv (counted c 1 (placed c i g ?ch s))"
    using assms(1) slot free by (simp add: map_inv_placed)
  moreover have "(c, i, g) \<notin> sess_view s"
    using free by (auto simp: sess_view_def chunk_free_def NO_CB_MAPPED_def)
  ultimately show ?thesis
    using IS_single_chunk_init_placed [OF assms(1-3), of le] sess_view_placed [OF wf free, of c i ?ch]
      slot assms(4)
    by (simp add: slot_free_def rc_sized_def)
      (simp add: counted_def placed_def chunk_of_msg_def)
qed

text \<open>A session with one connected server that offers its chunk 3 for session chunk 5.\<close>

definition demo_session :: "nat \<Rightarrow> IS_session" where
  "demo_session n = the (IS_session_create True (\<lambda>_. True) 1 (replicate n 9400))"

definition demo_offer :: IS_rdma_info where
  "demo_offer = (zero_msg INFO_SINGLE)\<lparr>rkey := (replicate MAX_MR_SIZE_GB 0)[3 := 0x11223344],
                  buf := (replicate MAX_MR_SIZE_GB 0)[3 := 0x1000], size_gb := 5\<rparr>"

definition demo_connected :: "IS_rdma_info \<Rightarrow> IS_session" where
  "demo_connected m = upd_cb 0 (\<lambda>cb. (the (kernel_cb_init True 1 cb))\<lparr>recv_buf := m, state := AFTER_FREE_MEM\<rparr>)
                        (demo_session 1)"

lemma demo_session_inv: "map_inv (demo_session n)"
  by (rule IS_session_create_map_inv [of True "\<lambda>_. True" 1 "replicate n 9400"])
    (simp add: demo_session_def IS_session_create_def Let_def)

lemma demo_session_cb:
  "length (cb_list (demo_session n)) = n"
  "c < n \<Longrightarrow> cb_at (demo_session n) c = zero_cb\<lparr>cb_index := int c, cb_port := htons True 9400\<rparr>"
  by (simp_all add: demo_session_def IS_session_create_def Let_def)

lemma demo_connected_inv: "map_inv (demo_connected m)"
proof -
  let ?cb = "(the (kernel_cb_init True 1 (cb_at (demo_session 1) 0)))\<lparr>recv_buf := m, state := AFTER_FREE_MEM\<rparr>"
  obtain cb where cb: "kernel_cb_init True 1 (cb_at (demo_session 1) 0) = Some cb"
    by (simp add: kernel_cb_init_def Let_def)
  have "map_inv (upd_cb 0 (\<lambda>_. ?cb) (demo_session 1))"
    using kernel_cb_init_ok [OF cb] cb
    by (intro map_inv_replace_cb)
      (simp_all add: demo_session_inv demo_session_cb no_mapping_def zero_cb_def zero_rc_def)
  then show ?thesis by (simp add: demo_connected_def upd_cb_def)
qed

lemma demo_connected_cb:
  "recv_buf (cb_at (demo_connected m) 0) = m"
  "length (cb_list (demo_connected m)) = 1"
  "rc_sized (rc_at (demo_connected m) 0) MAX_MR_SIZE_GB"
  "i < MAX_MR_SIZE_GB \<Longrightarrow> chunk_map (rc_at (demo_connected m) 0) ! i = -1"
  "cb_index_map (demo_connected m) = replicate STACKBD_SIZE_G (-1)"
  by (simp_all add: demo_connected_def demo_session_cb kernel_cb_init_def Let_def rc_sized_def)
    (simp add: demo_session_def IS_session_create_def Let_def NO_CB_MAPPED_def)

lemma demo_offer_slot: "offered_slot demo_offer = Some 3"
  by code_simp

lemma demo_offer_ok: "offer_ok 0 (demo_connected demo_offer)"
proof -
  have "3 < MAX_MR_SIZE_GB" "nat (size_gb demo_offer) < STACKBD_SIZE_G" "0 \<le> size_gb demo_offer"
    "msg_wf demo_offer"
    by (simp_all add: demo_offer_def msg_wf_def zero_msg_def is_consts)
  then show ?thesis
    by (simp add: offer_ok_def Let_def demo_connected_cb demo_offer_slot slot_free_def chunk_free_def
        NO_CB_MAPPED_def)
qed

theorem IS_single_chunk_init_spec_witness:
  "\<exists>s'. IS_single_chunk_init True 0 (demo_connected demo_offer) = Inr s' \<and> map_inv s' \<and>
     (0, 3, 5) \<in> sess_view s' \<and>
     remote_rkey (chunk_list (remote_chunk (cb_list s' ! 0)) ! 3) = 0x44332211"
proof -
  have slot: "offered_slot (recv_buf (cb_at (demo_connected demo_offer) 0)) = Some 3"
    by (simp add: demo_connected_cb demo_offer_slot)
  have "nat (size_gb demo_offer) = 5" "rkey demo_offer ! 3 = 0x11223344"
    by (simp_all add: demo_offer_def MAX_MR_SIZE_GB_def)
  moreover have "ntohl True 0x11223344 = 0x44332211" by code_simp
  ultimately show ?thesis
    using IS_single_chunk_init_spec [OF demo_connected_inv demo_offer_ok slot refl, of True]
    by (auto simp: demo_connected_cb)
qed

section \<open>The message handler\<close>

lemma map_inv_upd_cb_state [simp]: "map_inv_upto L (upd_cb c (\<lambda>cb. cb\<lparr>state := st\<rparr>) s) = map_inv_upto L s"
  by (rule map_inv_upd_cb) simp

lemma client_recv_evict_inv: "map_inv_upto L (client_recv_evict c s) = map_inv_upto L s"
  unfolding client_recv_evict_def Let_def
  by (simp split: if_splits, intro impI map_inv_upd_rc) (simp add: rc_tables_def)

lemma stop_marks_ok:
  assumes "length (rkey m) = MAX_MR_SIZE_GB" "length ecm = MAX_MR_SIZE_GB"
  shows "for_res (\<lambda>i ecm. bind_res (arr_get (rkey m) (int i))
             (\<lambda>rk. arr_set ecm (int i) (if rk \<noteq> 0 then CHR ''s'' else CHR ''a''))) [0..<MAX_MR_SIZE_GB] ecm =
         Inr (map (\<lambda>rk. if rk \<noteq> 0 then CHR ''s'' else CHR ''a'') (rkey m))"
proof -
  let ?f = "\<lambda>rk. if rk \<noteq> 0 then CHR ''s'' else CHR ''a''"
  let ?body = "\<lambda>i ecm. bind_res (arr_get (rkey m) (int i)) (\<lambda>rk. arr_set ecm (int i) (?f rk))"
  have "\<exists>s'. for_res ?body [0..<MAX_MR_SIZE_GB] ecm = Inr s' \<and>
      (length s' = MAX_MR_SIZE_GB \<and> (\<forall>k < MAX_MR_SIZE_GB. s' ! k = ?f (rkey m ! k)))"
    by (rule for_res_inv [where P = "\<lambda>j e. length e = MAX_MR_SIZE_GB \<and> (\<forall>k < j. e ! k = ?f (rkey m ! k))"])
      (use assms in \<open>auto simp: nth_list_update less_Suc_eq\<close>)
  then obtain s' where "for_res ?body [0..<MAX_MR_SIZE_GB] ecm = Inr s'"
    "length s' = MAX_MR_SIZE_GB" "\<forall>k < MAX_MR_SIZE_GB. s' ! k = ?f (rkey m ! k)" by blast
  moreover from this assms have "s' = map ?f (rkey m)" by (auto intro: nth_equalityI)
  ultimately show ?thesis by simp
qed

lemma client_recv_stop_eq:
  assumes "rc_sized (rc_at s c) MAX_MR_SIZE_GB" "msg_wf (recv_buf (cb_at s c))"
  shows "\<exists>f. client_recv_stop c s = Inr (upd_rc c f s) \<and> c_state (f (rc_at s c)) = C_STOP \<and>
             rc_tables (f (rc_at s c)) = rc_tables (rc_at s c) \<and>
             shrink_size_g (f (rc_at s c)) = size_gb (recv_buf (cb_at s c))"
proof (cases "size_gb (recv_buf (cb_at s c)) = 0")
  case True
  then show ?thesis
    by (intro exI [of _ "\<lambda>rc. rc\<lparr>shrink_size_g := 0, c_state := C_STOP\<rparr>"])
      (cases "c < length (cb_list s)";
        simp add: client_recv_stop_def Let_def upd_rc_def upd_cb_def rc_tables_def list_update_beyond)
next
  case False
  let ?e = "map (\<lambda>rk. if rk \<noteq> 0 then CHR ''s'' else CHR ''a'') (rkey (recv_buf (cb_at s c)))"
  from False assms show ?thesis
    by (intro exI [of _ "\<lambda>rc. rc\<lparr>shrink_size_g := size_gb (recv_buf (cb_at s c)),
                               evict_chunk_map := ?e, c_state := C_STOP\<rparr>"])
      (cases "c < length (cb_list s)";
        simp add: client_recv_stop_def Let_def stop_marks_ok rc_sized_def msg_wf_def upd_rc_def
          upd_cb_def rc_tables_def list_update_beyond)
qed

lemma map_inv_upd_rc_at:
  assumes "rc_tables (f (rc_at s c)) = rc_tables (rc_at s c)"
  shows "map_inv_upto L (upd_rc c f s) = map_inv_upto L s"
proof (rule map_inv_cong)
  fix d
  assume "d < length (cb_list s)"
  then show "cb_index (cb_at (upd_rc c f s) d) = cb_index (cb_at s d) \<and>
      rc_tables (rc_at (upd_rc c f s) d) = rc_tables (rc_at s d)"
    using assms by (cases "d = c") simp_all
qed simp_all

lemma offer_ok_goto:
  "c < length (cb_list s) \<Longrightarrow>
     offer_ok c (upd_cb c (\<lambda>cb. cb\<lparr>state := st\<rparr>) (s\<lparr>cb_state_list := l\<rparr>)) = offer_ok c s"
  by (simp add: offer_ok_def Let_def slot_free_def chunk_free_def cong: option.case_cong)

text \<open>
  C11: \<open>client_recv\<close> never touches memory outside its arrays and keeps the table invariant, whatever
  the message, provided a single-chunk offer names a free slot and an unmapped chunk. It accepts
  exactly the messages of the right length that arrive on a connected control block with one of the
  types a server sends, and a message it rejects changes nothing. (The bulk offer \<open>INFO\<close> answers
  \<open>BIND\<close>, which the block device never sends; \<open>IS_chunk_list_init\<close> has its own property.)
\<close>

theorem client_recv_safe:
  assumes "map_inv s" "c < length (cb_list s)" "rc_sized (remote_chunk (cb_list s ! c)) MAX_MR_SIZE_GB"
    and "msg_wf (recv_buf (cb_list s ! c))" "mtype (recv_buf (cb_list s ! c)) \<noteq> INFO"
    and offer: "mtype (recv_buf (cb_list s ! c)) = INFO_SINGLE \<Longrightarrow> offer_ok c s"
  shows "\<exists>ok s'. client_recv le n c s = Inr (ok, s') \<and> map_inv s' \<and>
     (ok \<longleftrightarrow> n = sizeof_IS_rdma_info \<and> CONNECTED \<le> state (cb_list s ! c) \<and>
             mtype (recv_buf (cb_list s ! c)) \<in> {FREE_SIZE, INFO_SINGLE, EVICT, STOP}) \<and>
     (\<not> ok \<longrightarrow> s' = s)"
proof -
  let ?m = "recv_buf (cb_at s c)"
  have idx: "cb_index (cb_at s c) = int c" "c < length (cb_state_list s)"
    using assms(1,2) by (simp_all add: map_inv_upto_def sess_wf_def)
  have single: "\<exists>s'. IS_single_chunk_init le c (upd_cb c (\<lambda>cb. cb\<lparr>state := WAIT_OPS\<rparr>)
      (s\<lparr>cb_state_list := (cb_state_list s)[c := CB_MAPPED]\<rparr>)) = Inr s' \<and> map_inv s'"
    if "mtype ?m = INFO_SINGLE"
    using IS_single_chunk_init_inv [of "upd_cb c (\<lambda>cb. cb\<lparr>state := WAIT_OPS\<rparr>)
      (s\<lparr>cb_state_list := (cb_state_list s)[c := CB_MAPPED]\<rparr>)" c le] offer [OF that] assms(1,2)
    by (auto simp: offer_ok_goto)
  have stop: "\<exists>s'. client_recv_stop c (upd_cb c (\<lambda>cb. cb\<lparr>state := RECV_STOP\<rparr>) s) = Inr s' \<and> map_inv s'"
    using client_recv_stop_eq [of "upd_cb c (\<lambda>cb. cb\<lparr>state := RECV_STOP\<rparr>) s" c] assms(1-4)
    by (auto simp: map_inv_upd_rc_at)
  have target: "map_inv (upd_rc c (\<lambda>rc. rc\<lparr>target_size_g := size_gb ?m\<rparr>) s)"
    using assms(1) by (subst map_inv_upd_rc) (simp_all add: rc_tables_def)
  show ?thesis
    using assms(1,5) idx single stop target
    by (cases "mtype ?m") (auto simp: client_recv_def Let_def client_recv_evict_inv not_less)
qed

theorem client_recv_safe_witness:
  "\<exists>s'. client_recv True 392 0 (demo_connected demo_offer) = Inr (True, s') \<and> map_inv s'"
proof -
  have "0 < length (cb_list (demo_connected demo_offer))" "msg_wf demo_offer" "mtype demo_offer = INFO_SINGLE"
    by (simp_all add: demo_connected_cb) (simp_all add: demo_offer_def msg_wf_def zero_msg_def)
  moreover have size: "sizeof_IS_rdma_info = 392"
    by (simp add: sizeof_IS_rdma_info_def MAX_MR_SIZE_GB_def)
  moreover have "state (cb_at (demo_connected demo_offer) 0) = AFTER_FREE_MEM"
    by (simp add: demo_connected_def demo_session_cb)
  ultimately show ?thesis
    using client_recv_safe [OF demo_connected_inv, of 0 demo_offer True 392]
    by (auto simp: demo_connected_cb demo_offer_ok test_state_order size)
qed

section \<open>The bulk offer\<close>

text \<open>The used part of \<open>unmapped_chunk_list\<close> lists each unmapped session chunk once.\<close>

definition list_inv :: "IS_session \<Rightarrow> bool" where
  "list_inv s \<longleftrightarrow>
     (let free = take (nat (free_chunk_index s + 1)) (unmapped_chunk_list s)
      in distinct free \<and> set free = {int g | g. g < STACKBD_SIZE_G \<and> cb_index_map s ! g = NO_CB_MAPPED})"



lemma slot_free_counted [simp]: "slot_free c i (counted c n s) = slot_free c i s"
  by (cases "c < length (cb_list s)") (simp_all add: slot_free_def counted_def rc_sized_def)

lemma counted_simps [simp]:
  "cb_index_map (counted c n s) = cb_index_map s" "unmapped_chunk_list (counted c n s) = unmapped_chunk_list s"
  "free_chunk_index (counted c n s) = free_chunk_index s"
  "length (cb_list (counted c n s)) = length (cb_list s)"
  by (simp_all add: counted_def)

lemma list_inv_counted [simp]: "list_inv (counted c n s) = list_inv s"
  by (simp add: list_inv_def)










lemma demo_connected_list:
  "list_inv (demo_connected m)" "free_chunk_index (demo_connected m) = 11"
  "unmapped_chunk_list (demo_connected m) = [11, 10, 9, 8, 7, 6, 5, 4, 3, 2, 1, 0]"
proof -
  have list: "map (\<lambda>i. 11 - int i) [0..<12] = [11, 10, 9, 8, 7, 6, 5, 4, 3, 2, 1, 0]"
    by (simp add: upt_rec)
  show idx: "free_chunk_index (demo_connected m) = 11"
    "unmapped_chunk_list (demo_connected m) = [11, 10, 9, 8, 7, 6, 5, 4, 3, 2, 1, 0]"
    by (simp_all add: demo_connected_def demo_session_def IS_session_create_def Let_def STACKBD_SIZE_G_def list)
  have "set [11, 10, 9, 8, 7, 6, 5, 4, 3, 2, 1, 0] = {int g | g. g < 12}"
    by (auto; presburger)
  then show "list_inv (demo_connected m)"
    by (auto simp: list_inv_def Let_def idx demo_connected_cb STACKBD_SIZE_G_def NO_CB_MAPPED_def)
qed


text \<open>
  A single-chunk offer leaves the list of unmapped chunks wrong. \<open>IS_single_chunk_init\<close> lowers
  \<open>free_chunk_index\<close> without taking its chunk out of \<open>unmapped_chunk_list\<close>: whenever the chunk is not
  the one on top, the list afterwards still offers a chunk that is mapped, and has lost the one that
  was on top, which is not mapped.
\<close>

theorem IS_single_chunk_init_stale_list:
  assumes "map_inv s" "list_inv s" "offer_ok c s"
    and "offered_slot (recv_buf (cb_list s ! c)) = Some i"
    and "g = nat (size_gb (recv_buf (cb_list s ! c)))"
    and "h = unmapped_chunk_list s ! nat (free_chunk_index s)" "h \<noteq> int g"
  shows "\<exists>s'. IS_single_chunk_init le c s = Inr s' \<and> \<not> list_inv s' \<and>
     int g \<in> set (take (nat (free_chunk_index s' + 1)) (unmapped_chunk_list s')) \<and>
     cb_index_map s' ! g = int c \<and>
     h \<notin> set (take (nat (free_chunk_index s' + 1)) (unmapped_chunk_list s')) \<and>
     cb_index_map s' ! nat h = NO_CB_MAPPED"
proof -
  let ?n = "nat (free_chunk_index s)" and ?l = "unmapped_chunk_list s"
  have free: "chunk_free g s" using assms(3-5) by (simp add: offer_ok_def Let_def)
  have wf: "sess_wf s" using map_invD(1)[OF assms(1)] .
  have "0 < count_if (\<lambda>i. i = -1) (cb_index_map s)"
    using free wf by (auto simp: count_if_pos_iff chunk_free_def sess_wf_def NO_CB_MAPPED_def)
  with map_invD(4)[OF assms(1)] have nn: "0 \<le> free_chunk_index s" by simp
  then have less: "?n < length ?l"
    using map_invD(4)[OF assms(1)] count_if_le_length [of "\<lambda>i. i = -1" "cb_index_map s"] wf
    by (simp add: sess_wf_def nat_less_iff)
  have Suc: "nat (free_chunk_index s + 1) = Suc ?n" using nn by simp
  have "take (Suc ?n) ?l = take ?n ?l @ [h]" using less assms(6) by (simp add: take_Suc_conv_app_nth)
  with assms(2) Suc have d: "h \<notin> set (take ?n ?l)"
    and e: "insert h (set (take ?n ?l)) = {int g | g. g < STACKBD_SIZE_G \<and> cb_index_map s ! g = -1}"
    by (simp_all add: list_inv_def Let_def NO_CB_MAPPED_def)
  have "int g \<in> insert h (set (take ?n ?l))"
    unfolding e using free by (auto simp: chunk_free_def NO_CB_MAPPED_def)
  with assms(7) have mem: "int g \<in> set (take ?n ?l)" by simp
  have "h \<in> insert h (set (take ?n ?l))" by simp
  then obtain k where k: "h = int k" "k < STACKBD_SIZE_G" "cb_index_map s ! k = -1" unfolding e by blast
  with assms(7) have "g \<noteq> k" by simp
  with k mem d show ?thesis
    using IS_single_chunk_init_placed [OF assms(1,3,4), of le] assms(5) free wf
    by (auto simp: counted_def placed_def list_inv_def Let_def sess_wf_def chunk_free_def NO_CB_MAPPED_def)
qed

theorem IS_single_chunk_init_stale_list_witness:
  "\<exists>s'. IS_single_chunk_init True 0 (demo_connected demo_offer) = Inr s' \<and> \<not> list_inv s' \<and>
     cb_index_map s' ! 5 = 0 \<and> cb_index_map s' ! 0 = NO_CB_MAPPED"
proof -
  have slot: "offered_slot (recv_buf (cb_at (demo_connected demo_offer) 0)) = Some 3"
    by (simp add: demo_connected_cb demo_offer_slot)
  have "nat (size_gb demo_offer) = 5" by (simp add: demo_offer_def)
  then show ?thesis
    using IS_single_chunk_init_stale_list
      [OF demo_connected_inv demo_connected_list(1) demo_offer_ok slot refl refl, of True]
    by (auto simp: demo_connected_cb demo_connected_list)
qed

end
