(* ===== verification/Conn_Setup.thy ===== *)
theory Conn_Setup
  imports Chunk_Map
begin

text \<open>
  Connecting a control block to its server (\<open>is_main.c\<close>): the verbs objects that \<open>IS_setup_qp\<close> and
  \<open>IS_setup_buffers\<close> allocate, the error paths that release them, and the waits for the connection
  manager's events. What the verbs layer and the connection manager answer is a parameter: the
  return codes of their calls and the events delivered during each wait.
\<close>

section \<open>The answers of the verbs layer\<close>

datatype cm_event = ADDR_RESOLVED_EV | ROUTE_RESOLVED_EV | CONNECT_REQUEST_EV | ESTABLISHED_EV
  | ADDR_ERROR_EV | ROUTE_ERROR_EV | CONNECT_ERROR_EV | UNREACHABLE_EV | REJECTED_EV
  | DISCONNECTED_EV | DEVICE_REMOVAL_EV | OTHER_EV

record verbs =
  alloc_pd_ret :: int
  create_cq_ret :: int
  req_notify_ret :: int
  create_qp_ret :: int
  get_dma_mr_ret :: int
  resolve_addr_ret :: int
  resolve_events :: "cm_event list"
  post_recv_ret :: int
  connect_ret :: int
  connect_events :: "cm_event list"

definition verbs_good :: verbs where
  "verbs_good = \<lparr>alloc_pd_ret = 0, create_cq_ret = 0, req_notify_ret = 0, create_qp_ret = 0,
                 get_dma_mr_ret = 0, resolve_addr_ret = 0,
                 resolve_events = [ADDR_RESOLVED_EV, ROUTE_RESOLVED_EV], post_recv_ret = 0,
                 connect_ret = 0, connect_events = [ESTABLISHED_EV]\<rparr>"

definition EINTR :: int where "EINTR = 4"

text \<open>A call through a pointer that is not valid.\<close>

definition deref :: "ptr_state \<Rightarrow> 'a res \<Rightarrow> 'a res" where
  "deref p k = (case p of Live \<Rightarrow> k | Null \<Rightarrow> Inl Null_Deref | _ \<Rightarrow> Inl Use_After_Free)"

abbreviation upd_hw :: "(cb_hw \<Rightarrow> cb_hw) \<Rightarrow> kernel_cb \<Rightarrow> kernel_cb" where
  "upd_hw f cb \<equiv> cb\<lparr>hw := f (hw cb)\<rparr>"

section \<open>Events\<close>

text \<open>
  \<open>IS_cma_event_handler\<close> on the control block; the call of \<open>IS_disconnect_handler\<close> for a disconnect
  is in the theory of that handler. The boolean is False for the return value \<open>-1\<close>.
\<close>

definition cma_event_state :: "cm_event \<Rightarrow> kernel_cb \<Rightarrow> bool \<times> kernel_cb" where
  "cma_event_state ev cb =
     (case ev of
        ADDR_RESOLVED_EV \<Rightarrow> (True, cb\<lparr>state := ADDR_RESOLVED\<rparr>)
      | ROUTE_RESOLVED_EV \<Rightarrow> (True, cb\<lparr>state := ROUTE_RESOLVED\<rparr>)
      | CONNECT_REQUEST_EV \<Rightarrow> (True, cb\<lparr>state := CONNECT_REQUEST\<rparr>)
      | ESTABLISHED_EV \<Rightarrow> (True, cb\<lparr>state := CONNECTED\<rparr>)
      | ADDR_ERROR_EV \<Rightarrow> (True, cb\<lparr>state := ERROR\<rparr>)
      | ROUTE_ERROR_EV \<Rightarrow> (True, cb\<lparr>state := ERROR\<rparr>)
      | CONNECT_ERROR_EV \<Rightarrow> (True, cb\<lparr>state := ERROR\<rparr>)
      | UNREACHABLE_EV \<Rightarrow> (True, cb\<lparr>state := ERROR\<rparr>)
      | REJECTED_EV \<Rightarrow> (True, cb\<lparr>state := ERROR\<rparr>)
      | DISCONNECTED_EV \<Rightarrow> (True, cb\<lparr>state := CM_DISCONNECT\<rparr>)
      | DEVICE_REMOVAL_EV \<Rightarrow> (False, cb)
      | OTHER_EV \<Rightarrow> (True, cb))"

text \<open>\<open>wait_event_interruptible\<close> on the state of the control block while events arrive.\<close>

fun wait_state :: "(test_state \<Rightarrow> bool) \<Rightarrow> cm_event list \<Rightarrow> kernel_cb \<Rightarrow> kernel_cb res" where
  "wait_state P [] cb = (if P (state cb) then Inr cb else Inl Blocked)"
| "wait_state P (ev # evs) cb =
     (if P (state cb) then Inr cb else wait_state P evs (snd (cma_event_state ev cb)))"

section \<open>Queue pair and buffers\<close>

definition IS_setup_wr :: "cb_hw \<Rightarrow> cb_hw" where
  "IS_setup_wr h =
     (let key = (\<lambda>old. if local_dma_lkey h \<noteq> 0 then Local_Dma_Lkey
                       else if mem h = DMA then Dma_Mr_Lkey else old)
      in h\<lparr>recv_sgl := \<lparr>sge_length = sizeof_IS_rdma_info, sge_lkey = key (sge_lkey (recv_sgl h))\<rparr>,
           send_sgl := \<lparr>sge_length = sizeof_IS_rdma_info, sge_lkey = key (sge_lkey (send_sgl h))\<rparr>\<rparr>)"

text \<open>
  \<open>IS_setup_buffers\<close>: two DMA mappings and the DMA memory region. The code behind \<open>bail\<close> deregisters
  the regions that are valid: none, as \<open>rdma_mr\<close>, \<open>recv_mr\<close> and \<open>send_mr\<close> are never set.
\<close>

definition IS_setup_buffers :: "verbs \<Rightarrow> cb_hw \<Rightarrow> (int \<times> cb_hw) res" where
  "IS_setup_buffers v h =
     deref (pd h)
       (let h1 = h\<lparr>dma_maps := dma_maps h + 2\<rparr>
        in if mem h1 = DMA
           then if get_dma_mr_ret v \<noteq> 0 then Inr (get_dma_mr_ret v, h1\<lparr>dma_mr := Err_Ptr\<rparr>)
                else Inr (0, IS_setup_wr (h1\<lparr>dma_mr := Live\<rparr>))
           else Inr (0, IS_setup_wr h1))"

text \<open>\<open>IS_free_buffers\<close>; deregistering anything but a valid region is an error.\<close>

definition IS_free_buffers :: "cb_hw \<Rightarrow> cb_hw res" where
  "IS_free_buffers h =
     bind_res (if dma_mr h = Null then Inr h else deref (dma_mr h) (Inr (h\<lparr>dma_mr := Freed\<rparr>)))
       (\<lambda>h1. deref (pd h1) (Inr (h1\<lparr>dma_maps := dma_maps h1 - 2\<rparr>)))"

definition IS_create_qp :: "verbs \<Rightarrow> cb_hw \<Rightarrow> (int \<times> cb_hw) res" where
  "IS_create_qp v h =
     deref (cm_id h) (if create_qp_ret v = 0 then Inr (0, h\<lparr>qp := Live\<rparr>) else Inr (create_qp_ret v, h))"

definition IS_free_qp :: "cb_hw \<Rightarrow> cb_hw res" where
  "IS_free_qp h =
     deref (qp h) (deref (cq h) (deref (pd h) (Inr (h\<lparr>qp := Freed, cq := Freed, pd := Freed\<rparr>))))"

definition IS_setup_qp :: "verbs \<Rightarrow> cb_hw \<Rightarrow> (int \<times> cb_hw) res" where
  "IS_setup_qp v h =
     deref (cm_id h)
      (if alloc_pd_ret v \<noteq> 0 then Inr (alloc_pd_ret v, h\<lparr>pd := Err_Ptr\<rparr>)
       else (let h1 = h\<lparr>pd := Live\<rparr>;
                 err1 = (\<lambda>ret h. Inr (ret, h\<lparr>pd := Freed\<rparr>));
                 err2 = (\<lambda>ret h. err1 ret (h\<lparr>cq := Freed\<rparr>))
             in if create_cq_ret v \<noteq> 0 then err1 (create_cq_ret v) (h1\<lparr>cq := Err_Ptr\<rparr>)
                else (let h2 = h1\<lparr>cq := Live\<rparr>
                      in if req_notify_ret v \<noteq> 0 then err2 (req_notify_ret v) h2
                         else bind_res (IS_create_qp v h2)
                                (\<lambda>(ret, h3). if ret \<noteq> 0 then err2 ret h3 else Inr (0, h3)))))"

section \<open>Address resolution and connection\<close>

definition IS_bind_client :: "verbs \<Rightarrow> kernel_cb \<Rightarrow> (int \<times> kernel_cb) res" where
  "IS_bind_client v cb =
     deref (cm_id (hw cb))
      (if resolve_addr_ret v \<noteq> 0 then Inr (resolve_addr_ret v, cb)
       else bind_res (wait_state (\<lambda>st. ROUTE_RESOLVED \<le> st) (resolve_events v) cb)
              (\<lambda>cb. Inr (if state cb \<noteq> ROUTE_RESOLVED then - EINTR else 0, cb)))"

definition IS_connect_client :: "verbs \<Rightarrow> kernel_cb \<Rightarrow> (int \<times> kernel_cb) res" where
  "IS_connect_client v cb =
     deref (cm_id (hw cb))
      (if connect_ret v \<noteq> 0 then Inr (connect_ret v, cb)
       else bind_res (wait_state (\<lambda>st. CONNECTED \<le> st) (connect_events v) cb)
              (\<lambda>cb. Inr (if state cb = ERROR then -1 else 0, cb)))"

definition rdma_connect_upper :: "verbs \<Rightarrow> kernel_cb \<Rightarrow> (int \<times> kernel_cb) res" where
  "rdma_connect_upper v cb =
     bind_res (IS_bind_client v cb) (\<lambda>(ret, cb).
       if ret \<noteq> 0 then Inr (ret, cb)
       else bind_res (IS_setup_qp v (hw cb)) (\<lambda>(ret, h).
         if ret \<noteq> 0 then Inr (ret, cb\<lparr>hw := h\<rparr>)
         else bind_res (IS_setup_buffers v h) (\<lambda>(ret, h).
           if ret \<noteq> 0 then bind_res (IS_free_qp h) (\<lambda>h. Inr (ret, cb\<lparr>hw := h\<rparr>))
           else Inr (0, cb\<lparr>hw := h\<rparr>))))"

definition rdma_connect_down :: "verbs \<Rightarrow> kernel_cb \<Rightarrow> (int \<times> kernel_cb) res" where
  "rdma_connect_down v cb =
     (let err = (\<lambda>ret cb. bind_res (IS_free_buffers (hw cb)) (\<lambda>h. Inr (ret, cb\<lparr>hw := h\<rparr>)))
      in deref (qp (hw cb))
          (if post_recv_ret v \<noteq> 0 then err (post_recv_ret v) cb
           else bind_res (IS_connect_client v cb)
                  (\<lambda>(ret, cb). if ret \<noteq> 0 then err ret cb else Inr (0, cb))))"

section \<open>Waiting\<close>

lemma cma_event_keeps: "\<exists>st. snd (cma_event_state ev cb) = cb\<lparr>state := st\<rparr>"
  by (cases ev) (auto simp: cma_event_state_def intro: exI [of _ "state cb"])

lemma wait_state_keeps:
  "wait_state P evs cb = Inr cb' \<Longrightarrow> P (state cb') \<and> (\<exists>st. cb' = cb\<lparr>state := st\<rparr>)"
proof (induction P evs cb rule: wait_state.induct)
  case (1 P cb)
  then show ?case by (auto split: if_splits intro: exI [of _ "state cb"])
next
  case (2 P ev evs cb)
  obtain st where "snd (cma_event_state ev cb) = cb\<lparr>state := st\<rparr>" using cma_event_keeps by blast
  with 2 show ?case by (auto split: if_splits intro: exI [of _ "state cb"])
qed

lemma wait_state_error: "wait_state P evs cb = Inl e \<Longrightarrow> e = Blocked"
  by (induction P evs cb rule: wait_state.induct) (auto split: if_splits)

section \<open>The ledger of verbs objects\<close>

definition hw_fresh :: "cb_hw \<Rightarrow> bool" where
  "hw_fresh h \<longleftrightarrow> cm_id h = Live \<and> pd h \<noteq> Live \<and> cq h \<noteq> Live \<and> qp h \<noteq> Live \<and> dma_mr h \<noteq> Live \<and>
                  dma_maps h = 0 \<and> mem h = DMA"

definition hw_open :: "cb_hw \<Rightarrow> bool" where
  "hw_open h \<longleftrightarrow> cm_id h = Live \<and> pd h = Live \<and> cq h = Live \<and> qp h = Live \<and> dma_mr h = Live \<and>
                 dma_maps h = 2 \<and> mem h = DMA"

definition hw_released :: "cb_hw \<Rightarrow> bool" where
  "hw_released h \<longleftrightarrow> pd h \<noteq> Live \<and> cq h \<noteq> Live \<and> qp h \<noteq> Live \<and> dma_mr h \<noteq> Live"

lemma deref_Live [simp]: "deref Live k = k"
  by (simp add: deref_def)

lemma IS_setup_qp_ledger:
  assumes "hw_fresh h"
  shows "\<exists>ret h'. IS_setup_qp v h = Inr (ret, h') \<and>
     (ret = 0 \<longleftrightarrow> alloc_pd_ret v = 0 \<and> create_cq_ret v = 0 \<and> req_notify_ret v = 0 \<and> create_qp_ret v = 0) \<and>
     (ret = 0 \<longrightarrow> h' = h\<lparr>pd := Live, cq := Live, qp := Live\<rparr>) \<and>
     (ret \<noteq> 0 \<longrightarrow> hw_released h' \<and> dma_maps h' = 0)"
  using assms by (auto simp: IS_setup_qp_def IS_create_qp_def hw_fresh_def hw_released_def Let_def)

lemma IS_setup_buffers_ledger:
  assumes "hw_fresh h" "h' = h\<lparr>pd := Live, cq := Live, qp := Live\<rparr>"
  shows "\<exists>ret h''. IS_setup_buffers v h' = Inr (ret, h'') \<and> (ret = 0 \<longleftrightarrow> get_dma_mr_ret v = 0) \<and>
     (ret = 0 \<longrightarrow> hw_open h'' \<and> sge_length (recv_sgl h'') = sizeof_IS_rdma_info) \<and>
     (ret \<noteq> 0 \<longrightarrow> h'' = h'\<lparr>dma_maps := 2, dma_mr := Err_Ptr\<rparr>)"
  using assms by (auto simp: IS_setup_buffers_def IS_setup_wr_def hw_fresh_def hw_open_def Let_def)

lemma IS_bind_client_cases:
  assumes "cm_id (hw cb) = Live"
  shows "IS_bind_client v cb = Inl Blocked \<or>
     (\<exists>ret st. IS_bind_client v cb = Inr (ret, cb\<lparr>state := st\<rparr>) \<and> (ret = 0 \<longrightarrow> st = ROUTE_RESOLVED))"
proof (cases "resolve_addr_ret v = 0")
  case True
  then show ?thesis
    using assms wait_state_keeps [of "\<lambda>st. ROUTE_RESOLVED \<le> st" "resolve_events v" cb]
      wait_state_error [of "\<lambda>st. ROUTE_RESOLVED \<le> st" "resolve_events v" cb]
    by (cases "wait_state (\<lambda>st. ROUTE_RESOLVED \<le> st) (resolve_events v) cb")
      (auto simp: IS_bind_client_def EINTR_def)
next
  case False
  then show ?thesis
    using assms by (auto simp: IS_bind_client_def intro!: exI [of _ "state cb"])
qed


definition demo_cb :: kernel_cb where
  "demo_cb = the (kernel_cb_init True 1 zero_cb)"

lemma demo_cb_fresh: "hw_fresh (hw demo_cb)" "state demo_cb = IDLE"
  by (simp_all add: demo_cb_def kernel_cb_init_def zero_cb_def zero_hw_def hw_fresh_def Let_def)


text \<open>
  What \<open>IS_single_chunk_map\<close> does after a failed \<open>rdma_connect_upper\<close>, whose return code it drops,
  is to call \<open>rdma_connect_down\<close> on the same control block: that posts a receive on a queue pair that
  was never created or has been destroyed.
\<close>

theorem rdma_connect_down_after_failure:
  assumes "hw_fresh (hw cb)" "rdma_connect_upper v cb = Inr (ret, cb')" "ret \<noteq> 0"
  shows "rdma_connect_down w cb' = Inl Null_Deref \<or> rdma_connect_down w cb' = Inl Use_After_Free"
proof -
  have "qp (hw cb') \<noteq> Live"
  proof -
    have live: "cm_id (hw cb) = Live" using assms by (simp add: hw_fresh_def)
    obtain ret1 h1 where qp: "IS_setup_qp v (hw cb) = Inr (ret1, h1)"
      "ret1 = 0 \<longrightarrow> h1 = (hw cb)\<lparr>pd := Live, cq := Live, qp := Live\<rparr>"
      "ret1 \<noteq> 0 \<longrightarrow> hw_released h1 \<and> dma_maps h1 = 0"
      using IS_setup_qp_ledger [OF assms(1)] by blast
    from IS_bind_client_cases [OF live, of v] assms qp IS_setup_buffers_ledger [OF assms(1), of h1 v]
    show ?thesis
      by (auto simp: rdma_connect_upper_def IS_free_qp_def hw_released_def hw_fresh_def split: if_splits)
  qed
  then show ?thesis
    by (cases "qp (hw cb')") (simp_all add: rdma_connect_down_def deref_def Let_def)
qed

theorem rdma_connect_down_after_failure_witness:
  "\<exists>cb'. rdma_connect_upper (verbs_good\<lparr>create_qp_ret := -22\<rparr>) demo_cb = Inr (-22, cb') \<and>
     (rdma_connect_down verbs_good cb' = Inl Null_Deref \<or> rdma_connect_down verbs_good cb' = Inl Use_After_Free)"
proof -
  have "is_ok (rdma_connect_upper (verbs_good\<lparr>create_qp_ret := -22\<rparr>) demo_cb)"
    "fst (projr (rdma_connect_upper (verbs_good\<lparr>create_qp_ret := -22\<rparr>) demo_cb)) = -22"
    by code_simp+
  then obtain cb' where "rdma_connect_upper (verbs_good\<lparr>create_qp_ret := -22\<rparr>) demo_cb = Inr (-22, cb')"
    by (auto simp: is_ok_iff)
  with rdma_connect_down_after_failure [OF demo_cb_fresh(1) this, of verbs_good] show ?thesis by auto
qed

lemma IS_connect_client_cases:
  assumes "cm_id (hw cb) = Live"
  shows "IS_connect_client v cb = Inl Blocked \<or>
     (\<exists>ret st. IS_connect_client v cb = Inr (ret, cb\<lparr>state := st\<rparr>) \<and>
        (ret = 0 \<longrightarrow> CONNECTED \<le> st \<and> st \<noteq> ERROR))"
proof (cases "connect_ret v = 0")
  case True
  then show ?thesis
    using assms wait_state_keeps [of "\<lambda>st. CONNECTED \<le> st" "connect_events v" cb]
      wait_state_error [of "\<lambda>st. CONNECTED \<le> st" "connect_events v" cb]
    by (cases "wait_state (\<lambda>st. CONNECTED \<le> st) (connect_events v) cb")
      (auto simp: IS_connect_client_def)
next
  case False
  then show ?thesis
    using assms by (auto simp: IS_connect_client_def intro!: exI [of _ "state cb"])
qed

text \<open>
  C25: \<open>rdma_connect_down\<close> on open verbs objects is memory safe and, when it returns 0, leaves them open
  on a connected control block. Its error path releases the memory region and the DMA mappings but
  keeps the queue pair, the completion queue and the protection domain allocated; nothing else frees
  them.
\<close>

theorem rdma_connect_down_ledger:
  assumes "hw_open (hw cb)"
  shows "case rdma_connect_down v cb of
      Inl e \<Rightarrow> e = Blocked
    | Inr (ret, cb') \<Rightarrow>
        (if ret = 0 then hw_open (hw cb') \<and> CONNECTED \<le> state cb' \<and> state cb' \<noteq> ERROR
         else dma_mr (hw cb') = Freed \<and> dma_maps (hw cb') = 0 \<and>
              qp (hw cb') = Live \<and> cq (hw cb') = Live \<and> pd (hw cb') = Live) \<and>
        remote_chunk cb' = remote_chunk cb \<and> cb_index cb' = cb_index cb"
proof -
  have live: "cm_id (hw cb) = Live" "qp (hw cb) = Live" using assms by (simp_all add: hw_open_def)
  show ?thesis
    using IS_connect_client_cases [OF live(1), of v] assms live
    by (auto simp: rdma_connect_down_def IS_free_buffers_def hw_open_def Let_def)
qed

definition demo_open :: kernel_cb where
  "demo_open = snd (projr (rdma_connect_upper verbs_good demo_cb))"

theorem rdma_connect_down_ledger_witness:
  "hw_open (hw demo_open) \<and>
   (\<exists>cb'. rdma_connect_down (verbs_good\<lparr>connect_events := [REJECTED_EV]\<rparr>) demo_open = Inr (-1, cb') \<and>
      qp (hw cb') = Live) \<and>
   (\<exists>cb'. rdma_connect_down verbs_good demo_open = Inr (0, cb') \<and> CONNECTED \<le> state cb')"
proof -
  have o: "hw_open (hw demo_open)" by code_simp
  let ?bad = "rdma_connect_down (verbs_good\<lparr>connect_events := [REJECTED_EV]\<rparr>) demo_open"
  let ?good = "rdma_connect_down verbs_good demo_open"
  have "is_ok ?bad" "fst (projr ?bad) = -1" "is_ok ?good" "fst (projr ?good) = 0"
    by code_simp+
  then show ?thesis
    using o rdma_connect_down_ledger [OF o, of verbs_good]
      rdma_connect_down_ledger [OF o, of "verbs_good\<lparr>connect_events := [REJECTED_EV]\<rparr>"]
    by (auto simp: is_ok_iff)
qed

end
