(* ===== verification/Server_Select.thy ===== *)
theory Server_Select
  imports Conn_Setup
begin

text \<open>
  Choosing a server for a chunk: \<open>IS_single_chunk_map\<close> with the messages it sends and the completion
  handler that receives the answers. It asks up to \<open>SERVER_SELECT_NUM\<close> servers for their free memory,
  connecting those it has not used yet, and binds the chunk to the one with the most. The servers, the
  verbs layer, the random numbers and the allocator are the parameter \<open>net\<close>.
\<close>

section \<open>The environment\<close>

text \<open>
  \<open>hello c\<close> is what server \<open>c\<close> sends when a connection is made and \<open>reply c m\<close> what arrives after
  message \<open>m\<close> was posted to it (None: nothing); \<open>random j\<close> is the \<open>j\<close>-th number from
  \<open>get_random_bytes\<close>; \<open>rdma_buf_ok i j\<close> is the result of the allocation of the buffer of context \<open>j\<close>
  on connection \<open>i\<close>.
\<close>

record net =
  verbs_of :: "nat \<Rightarrow> verbs"
  id_ok :: "nat \<Rightarrow> bool"
  repost_ret :: "nat \<Rightarrow> int"
  hello :: "nat \<Rightarrow> IS_rdma_info option"
  reply :: "nat \<Rightarrow> IS_rdma_info \<Rightarrow> IS_rdma_info option"
  random :: "nat \<Rightarrow> u32"
  rdma_buf_ok :: "nat \<Rightarrow> nat \<Rightarrow> bool"

section \<open>Sending and receiving\<close>

definition IS_send_query :: "nat \<Rightarrow> IS_session \<Rightarrow> IS_session" where
  "IS_send_query c s = upd_cb c (\<lambda>cb. cb\<lparr>send_buf := (send_buf cb)\<lparr>mtype := QUERY\<rparr>\<rparr>) s"

definition IS_send_bind_single :: "nat \<Rightarrow> int \<Rightarrow> IS_session \<Rightarrow> IS_session" where
  "IS_send_bind_single c select_chunk s =
     upd_cb c (\<lambda>cb. cb\<lparr>send_buf := (send_buf cb)\<lparr>mtype := BIND_SINGLE, size_gb := select_chunk\<rparr>\<rparr>) s"

definition IS_send_done :: "nat \<Rightarrow> int \<Rightarrow> IS_session \<Rightarrow> IS_session" where
  "IS_send_done c num s =
     upd_cb c (\<lambda>cb. cb\<lparr>send_buf := (send_buf cb)\<lparr>mtype := DONE, size_gb := num\<rparr>\<rparr>) s"

text \<open>
  The receive branch of \<open>rdma_cq_event_handler\<close> for a complete message \<open>m\<close>: nothing in the ERROR
  state; a message that \<open>client_recv\<close> rejects or a receive that cannot be posted again puts the
  control block into that state.
\<close>

definition cq_recv :: "bool \<Rightarrow> net \<Rightarrow> nat \<Rightarrow> IS_rdma_info \<Rightarrow> IS_session \<Rightarrow> IS_session res" where
  "cq_recv le nt c m s =
     (if state (cb_at s c) = ERROR then Inr s
      else bind_res (client_recv le sizeof_IS_rdma_info c (upd_cb c (\<lambda>cb. cb\<lparr>recv_buf := m\<rparr>) s))
             (\<lambda>(ok, s'). Inr (if ok \<and> repost_ret nt c = 0 then s'
                              else upd_cb c (\<lambda>cb. cb\<lparr>state := ERROR\<rparr>) s')))"

text \<open>\<open>wait_event_interruptible\<close> for a state of control block \<open>c\<close>, during which one message arrives.\<close>

definition await :: "bool \<Rightarrow> net \<Rightarrow> nat \<Rightarrow> IS_rdma_info option \<Rightarrow> test_state \<Rightarrow> IS_session \<Rightarrow> IS_session res" where
  "await le nt c msg st s =
     (if state (cb_at s c) = st then Inr s
      else (case msg of None \<Rightarrow> Inl Blocked
            | Some m \<Rightarrow> bind_res (cq_recv le nt c m s)
                          (\<lambda>s'. if state (cb_at s' c) = st then Inr s' else Inl Blocked)))"

section \<open>The candidates\<close>

text \<open>All available servers, when they are few enough: \<open>selection\<close> is the array, \<open>j\<close> its length.\<close>

definition select_all :: "cb_state list \<Rightarrow> nat \<Rightarrow> nat list \<Rightarrow> (nat list \<times> nat) res" where
  "select_all states n_cbs selection =
     for_res (\<lambda>i (selection, j).
         bind_res (arr_get states (int i)) (\<lambda>st.
           if st < CB_EVICTING
           then bind_res (arr_set selection (int j) i) (\<lambda>sel. Inr (sel, j + 1))
           else Inr (selection, j)))
       [0..<n_cbs] (selection, 0)"

text \<open>Linear probing from a random start past the servers that are not available or already chosen.\<close>

partial_function (option) probe_cb :: "nat \<Rightarrow> cb_state list \<Rightarrow> bool list \<Rightarrow> nat \<Rightarrow> nat option" where
  "probe_cb NUM_CB states chosen random_num =
     (if CB_EVICTING \<le> states ! random_num \<or> chosen ! random_num
      then probe_cb NUM_CB states chosen ((random_num + 1) mod NUM_CB)
      else Some random_num)"

fun select_random ::
  "(nat \<Rightarrow> u32) \<Rightarrow> nat \<Rightarrow> cb_state list \<Rightarrow> nat list \<Rightarrow> nat list \<times> bool list \<Rightarrow> (nat list \<times> bool list) option"
  where
  "select_random rnd NUM_CB states [] (selection, chosen) = Some (selection, chosen)"
| "select_random rnd NUM_CB states (j # js) (selection, chosen) =
     (case probe_cb NUM_CB states chosen (unat (rnd j) mod NUM_CB) of
        None \<Rightarrow> None
      | Some r \<Rightarrow> select_random rnd NUM_CB states js (selection[j := r], chosen[r := True]))"

definition avail_cb :: "nat \<Rightarrow> cb_state list \<Rightarrow> nat" where
  "avail_cb NUM_CB states = length (filter (\<lambda>i. \<not> CB_EVICTING \<le> states ! i) [0..<NUM_CB])"

text \<open>The first half of \<open>IS_single_chunk_map\<close>: the servers to ask. None: the probing does not end.\<close>

definition select_servers ::
  "(nat \<Rightarrow> u32) \<Rightarrow> nat \<Rightarrow> nat \<Rightarrow> nat \<Rightarrow> cb_state list \<Rightarrow> (nat list \<times> nat) res option" where
  "select_servers rnd SERVER_SELECT_NUM NUM_CB n_cbs states =
     (let selection = replicate SERVER_SELECT_NUM NUM_CB
      in if avail_cb NUM_CB states \<le> SERVER_SELECT_NUM
         then Some (select_all states n_cbs selection)
         else (case select_random rnd NUM_CB states [0..<SERVER_SELECT_NUM]
                      (selection, replicate NUM_CB False) of
                 None \<Rightarrow> None
               | Some (sel, _) \<Rightarrow> Some (Inr (sel, SERVER_SELECT_NUM))))"

section \<open>Asking a server\<close>

definition ask_connected :: "bool \<Rightarrow> net \<Rightarrow> nat \<Rightarrow> IS_session \<Rightarrow> (int \<times> IS_session) res" where
  "ask_connected le nt c s =
     (let s1 = IS_send_query c s
      in bind_res (await le nt c (reply nt c (send_buf (cb_at s1 c))) FREE_MEM_RECV s1) (\<lambda>s2.
           Inr (target_size_g (rc_at s2 c), upd_cb c (\<lambda>cb. cb\<lparr>state := AFTER_FREE_MEM\<rparr>) s2)))"

text \<open>A server not used yet: the return codes of the three calls are dropped.\<close>

definition ask_idle :: "bool \<Rightarrow> net \<Rightarrow> nat \<Rightarrow> IS_session \<Rightarrow> (int \<times> IS_session) res" where
  "ask_idle le nt c s =
     (case kernel_cb_init (id_ok nt c) (int (length (IS_conns s))) (cb_at s c) of
        None \<Rightarrow> Inl Use_After_Free
      | Some cb \<Rightarrow>
          bind_res (rdma_connect_upper (verbs_of nt c) cb) (\<lambda>(_, cb).
          bind_res (rdma_connect_down (verbs_of nt c) cb) (\<lambda>(_, cb).
          bind_res (await le nt c (hello nt c) FREE_MEM_RECV (upd_cb c (\<lambda>_. cb) s)) (\<lambda>s2.
          bind_res (arr_set (cb_state_list s2) (int c) CB_CONNECTED) (\<lambda>states.
            Inr (target_size_g (rc_at s2 c),
                 upd_cb c (\<lambda>cb. cb\<lparr>state := AFTER_FREE_MEM\<rparr>) (s2\<lparr>cb_state_list := states\<rparr>)))))))"

definition ask_server ::
  "bool \<Rightarrow> net \<Rightarrow> nat list \<Rightarrow> nat \<Rightarrow> IS_session \<times> int list \<times> nat list \<Rightarrow> (IS_session \<times> int list \<times> nat list) res"
  where
  "ask_server le nt selection i = (\<lambda>(s, free_mem, free_mem_sorted).
     bind_res (arr_get selection (int i)) (\<lambda>c.
     bind_res (arr_get (cb_state_list s) (int c)) (\<lambda>st.
       if st = CB_FAIL then Inr (s, free_mem, free_mem_sorted)
       else bind_res (if CB_IDLE < st then ask_connected le nt c s else ask_idle le nt c s) (\<lambda>(size, s').
            bind_res (arr_set free_mem (int i) size) (\<lambda>fm.
            bind_res (arr_set free_mem_sorted (int i) c) (\<lambda>fs. Inr (s', fm, fs)))))))"

text \<open>The largest answer is moved to the front, exchanging by addition and subtraction.\<close>

fun move_max :: "nat list \<Rightarrow> int list \<times> int list \<Rightarrow> int list \<times> int list" where
  "move_max [] (fm, fs) = (fm, fs)"
| "move_max (j # js) (fm, fs) =
     (if fm ! 0 < fm ! j
      then (let fm = fm[0 := fm ! 0 + fm ! j]; fm = fm[j := fm ! 0 - fm ! j]; fm = fm[0 := fm ! 0 - fm ! j];
                fs = fs[0 := fs ! 0 + fs ! j]; fs = fs[j := fs ! 0 - fs ! j]; fs = fs[0 := fs ! 0 - fs ! j]
            in move_max js (fm, fs))
      else move_max js (fm, fs))"

section \<open>Binding\<close>

text \<open>\<open>IS_ctx_dma_setup\<close>: the context pools of a server, on every connection.\<close>

definition IS_ctx_dma_setup :: "net \<Rightarrow> nat \<Rightarrow> IS_session \<Rightarrow> IS_session" where
  "IS_ctx_dma_setup nt c s =
     s\<lparr>IS_conns := map (\<lambda>i. (IS_conns s ! i)\<lparr>ctx_pools := (ctx_pools (IS_conns s ! i))
                                  [c := snd (IS_ctx_init (rdma_buf_ok nt i))]\<rparr>) [0..<length (IS_conns s)]\<rparr>"

definition bind_chunk :: "bool \<Rightarrow> net \<Rightarrow> nat \<Rightarrow> int \<Rightarrow> IS_session \<Rightarrow> IS_session res" where
  "bind_chunk le nt c need_chunk s =
     bind_res (arr_get (cb_state_list s) (int c)) (\<lambda>st.
       let s1 = (if st = CB_CONNECTED
                 then IS_ctx_dma_setup nt c (s\<lparr>mapped_cb_num := mapped_cb_num s + 1\<rparr>) else s);
           s2 = IS_send_bind_single c need_chunk s1
       in bind_res (await le nt c (reply nt c (send_buf (cb_at s2 c))) WAIT_OPS s2) (\<lambda>s3.
            Inr (s3\<lparr>rdma_on := DEV_RDMA_ON\<rparr>)))"

text \<open>The return value and the session; the creation of the eviction thread is left out.\<close>

definition IS_single_chunk_map ::
  "bool \<Rightarrow> net \<Rightarrow> nat \<Rightarrow> nat \<Rightarrow> int \<Rightarrow> IS_session \<Rightarrow> (int \<times> IS_session) res option" where
  "IS_single_chunk_map le nt SERVER_SELECT_NUM NUM_CB select_chunk s =
     map_option (\<lambda>r.
       bind_res r (\<lambda>(selection, k).
         if k = 0 then Inr (-1, s)
         else bind_res (for_res (ask_server le nt selection) [0..<k]
                   (s, replicate SERVER_SELECT_NUM (-1), replicate SERVER_SELECT_NUM NUM_CB))
                (\<lambda>(s1, free_mem, free_mem_sorted).
                   case move_max [1..<k] (free_mem, map int free_mem_sorted) of (fm, fs) \<Rightarrow>
                     if fm ! 0 = 0 then Inr (-1, s1)
                     else bind_res (arr_get (cb_list s1) (fs ! 0)) (\<lambda>_.
                          bind_res (bind_chunk le nt (nat (fs ! 0)) select_chunk s1) (\<lambda>s2.
                            Inr (select_chunk, s2))))))
       (select_servers (random nt) SERVER_SELECT_NUM NUM_CB (nat (cb_num s)) (cb_state_list s))"

section \<open>The candidates are available and distinct\<close>

definition available :: "nat \<Rightarrow> cb_state list \<Rightarrow> nat list" where
  "available n states = filter (\<lambda>i. states ! i < CB_EVICTING) [0..<n]"

lemma available_set: "r \<in> set (available n states) \<longleftrightarrow> r < n \<and> states ! r < CB_EVICTING"
  by (auto simp: available_def)

lemma avail_cb_eq: "avail_cb n states = length (available n states)"
  by (simp add: avail_cb_def available_def not_le)

lemma available_distinct: "distinct (available n states)"
  by (simp add: available_def)

lemma available_Suc: "available (Suc n) states = available n states @ (if states ! n < CB_EVICTING then [n] else [])"
  by (simp add: available_def)

lemma available_mono: "i \<le> n \<Longrightarrow> length (available i states) \<le> length (available n states)"
  by (induction n) (auto simp: available_Suc le_Suc_eq)

lemma select_all_ok:
  assumes "length (available n states) \<le> m" "length states = n" "length sel = m"
  shows "\<exists>sel'. select_all states n sel = Inr (sel', length (available n states)) \<and> length sel' = m \<and>
           take (length (available n states)) sel' = available n states"
proof -
  let ?P = "\<lambda>i (sel', j). j = length (available i states) \<and> length sel' = m \<and> take j sel' = available i states"
  have "\<exists>s'. select_all states n sel = Inr s' \<and> ?P n s'"
    unfolding select_all_def
  proof (rule for_res_inv [where P = ?P])
    show "?P 0 (sel, 0)" using assms by (simp add: available_def)
  next
    fix i s
    assume i: "i < n" and P: "?P i s"
    obtain sel' j where s: "s = (sel', j)" by (cases s)
    have bound: "length (available (Suc i) states) \<le> m"
      using available_mono [of "Suc i" n states] i assms(1) by simp
    show "\<exists>s'. (case s of (selection, j) \<Rightarrow> bind_res (arr_get states (int i)) (\<lambda>st.
        if st < CB_EVICTING then bind_res (arr_set selection (int j) i) (\<lambda>sel. Inr (sel, j + 1))
        else Inr (selection, j))) = Inr s' \<and> ?P (Suc i) s'"
      using P bound i assms(2) s
      by (auto simp: available_Suc take_Suc_conv_app_nth)
  qed
  then show ?thesis by auto
qed

lemma probe_cb_hit:
  assumes "start < n" "\<not> (CB_EVICTING \<le> states ! ((start + k) mod n) \<or> chosen ! ((start + k) mod n))"
  shows "\<exists>r < n. probe_cb n states chosen start = Some r \<and> states ! r < CB_EVICTING \<and> \<not> chosen ! r"
  using assms
proof (induction k arbitrary: start)
  case 0
  then show ?case by (subst probe_cb.simps) (auto simp: not_le)
next
  case (Suc k)
  show ?case
  proof (cases "CB_EVICTING \<le> states ! start \<or> chosen ! start")
    case True
    then have "probe_cb n states chosen start = probe_cb n states chosen ((start + 1) mod n)"
      by (subst probe_cb.simps) simp
    moreover have "((start + 1) mod n + k) mod n = (start + Suc k) mod n"
      by (simp add: mod_simps)
    ultimately show ?thesis using Suc.IH [of "(start + 1) mod n"] Suc.prems by simp
  next
    case False
    then show ?thesis using Suc.prems(1) by (subst probe_cb.simps) (auto simp: not_le)
  qed
qed

lemma probe_cb_ok:
  assumes "start < n" "r < n" "states ! r < CB_EVICTING" "\<not> chosen ! r"
  shows "\<exists>r' < n. probe_cb n states chosen start = Some r' \<and> states ! r' < CB_EVICTING \<and> \<not> chosen ! r'"
proof -
  have "(start + (r + n - start)) mod n = r" using assms(1,2) by simp
  with assms show ?thesis by (intro probe_cb_hit [of start n states "r + n - start"]) (auto simp: not_le)
qed

lemma select_random_ok:
  assumes "m < length (available n states)" "j \<le> m" "length sel = m" "length chosen = n"
    and "distinct (take j sel)" "set (take j sel) \<subseteq> set (available n states)"
    and "\<And>r. r < n \<Longrightarrow> chosen ! r \<longleftrightarrow> r \<in> set (take j sel)"
  shows "\<exists>sel' ch'. select_random rnd n states [j..<m] (sel, chosen) = Some (sel', ch') \<and> length sel' = m \<and>
           distinct sel' \<and> set sel' \<subseteq> set (available n states)"
  using assms
proof (induction "m - j" arbitrary: j sel chosen)
  case 0
  then show ?case by simp
next
  case (Suc d)
  then have j: "j < m" by simp
  have "length (take j sel) < length (available n states)" using Suc.prems(1,3) j by simp
  then have "\<not> set (available n states) \<subseteq> set (take j sel)"
    using Suc.prems(5) available_distinct card_mono [of "set (take j sel)" "set (available n states)"]
    by (auto simp: distinct_card)
  then obtain r where "r \<in> set (available n states)" "r \<notin> set (take j sel)" by blast
  then have r: "r < n" "states ! r < CB_EVICTING" "\<not> chosen ! r"
    using Suc.prems(7) by (simp_all add: available_set)
  have "unat (rnd j) mod n < n" using r(1) by simp
  then obtain q where q: "q < n" "probe_cb n states chosen (unat (rnd j) mod n) = Some q"
    "states ! q < CB_EVICTING" "\<not> chosen ! q"
    using probe_cb_ok r by blast
  have new: "take (Suc j) (sel[j := q]) = take j sel @ [q]"
    using j Suc.prems(3) by (simp add: take_Suc_conv_app_nth)
  have "\<exists>sel' ch'. select_random rnd n states [Suc j..<m] (sel[j := q], chosen[q := True]) = Some (sel', ch') \<and>
      length sel' = m \<and> distinct sel' \<and> set sel' \<subseteq> set (available n states)"
  proof (rule Suc.hyps(1))
    show "(chosen[q := True]) ! r' \<longleftrightarrow> r' \<in> set (take (Suc j) (sel[j := q]))" if "r' < n" for r'
      unfolding new using Suc.prems(4) Suc.prems(7)[OF that] that by (cases "r' = q") simp_all
  qed (use Suc.hyps(2) Suc.prems j q new in \<open>auto simp: available_set\<close>)
  with j q show ?case by (simp add: upt_conv_Cons)
qed

lemma select_servers_ok:
  assumes "length states = n"
  shows "\<exists>sel k. select_servers rnd m n n states = Some (Inr (sel, k)) \<and> length sel = m \<and>
     k = min (avail_cb n states) m \<and> distinct (take k sel) \<and>
     (\<forall>c \<in> set (take k sel). c < n \<and> states ! c < CB_EVICTING)"
proof (cases "avail_cb n states \<le> m")
  case True
  with assms show ?thesis
    using select_all_ok [of n states m "replicate m n"] available_distinct
    by (auto simp: select_servers_def Let_def avail_cb_eq available_set)
next
  case False
  then show ?thesis
    using select_random_ok [of m n states 0 "replicate m n" "replicate n False" rnd]
    by (auto simp: select_servers_def Let_def avail_cb_eq available_set subset_iff)
qed

text \<open>
  C23: choosing the servers to ask always ends and stays inside its arrays, whatever the random numbers
  and whichever servers are being evicted or have failed: it selects \<open>min a m\<close> distinct servers, all
  available, where \<open>a\<close> servers are available and \<open>m\<close> is \<open>SERVER_SELECT_NUM\<close>.
\<close>

theorem select_servers_spec:
  assumes "length states = n"
  shows "\<exists>sel k. select_servers rnd m n n states = Some (Inr (sel, k)) \<and> length sel = m \<and>
     k = min (avail_cb n states) m \<and> distinct (take k sel) \<and>
     (\<forall>c \<in> set (take k sel). c < n \<and> states ! c < CB_EVICTING)"
  using assms by (rule select_servers_ok)

theorem select_servers_spec_witness:
  "\<exists>sel k. select_servers (\<lambda>_. 7) 2 4 4 [CB_FAIL, CB_IDLE, CB_MAPPED, CB_CONNECTED] = Some (Inr (sel, k)) \<and> k = 2"
proof -
  have "avail_cb 4 [CB_FAIL, CB_IDLE, CB_MAPPED, CB_CONNECTED] = 3" by code_simp
  then show ?thesis
    using select_servers_spec [of "[CB_FAIL, CB_IDLE, CB_MAPPED, CB_CONNECTED]" 4 "\<lambda>_. 7" 2] by auto
qed

section \<open>The largest answer wins\<close>

lemma move_max_ok:
  assumes "distinct js" "\<forall>j \<in> set js. 0 < j \<and> j < length fm" "length fs = length fm"
    "move_max js (fm, fs) = (fm', fs')"
  shows "\<exists>i \<in> insert 0 (set js). fm' ! 0 = fm ! i \<and> fs' ! 0 = fs ! i \<and> (\<forall>j \<in> insert 0 (set js). fm ! j \<le> fm ! i)"
  using assms
proof (induction js arbitrary: fm fs)
  case Nil
  then show ?case by simp
next
  case (Cons j js)
  show ?case
  proof (cases "fm ! 0 < fm ! j")
    case True
    let ?fm = "fm[0 := fm ! j, j := fm ! 0]" and ?fs = "fs[0 := fs ! j, j := fs ! 0]"
    have j: "0 < j" "j < length fm" "0 < length fm" using Cons.prems(2) by auto
    have "move_max js (?fm, ?fs) = (fm', fs')"
      using Cons.prems(3,4) True j by (simp add: Let_def list_update_swap)
    moreover have "\<forall>i \<in> set js. 0 < i \<and> i < length ?fm" using Cons.prems(2) by simp
    ultimately obtain i where i: "i \<in> insert 0 (set js)" "fm' ! 0 = ?fm ! i" "fs' ! 0 = ?fs ! i"
      "\<forall>k \<in> insert 0 (set js). ?fm ! k \<le> ?fm ! i"
      using Cons.IH [of ?fm ?fs] Cons.prems(1,3) by auto
    have same: "?fm ! k = fm ! k" "?fs ! k = fs ! k" if "k \<in> set js" for k
      using that Cons.prems(1,2) by (cases "k = 0"; cases "k = j"; force)+
    have zero: "?fm ! 0 = fm ! j" "?fs ! 0 = fs ! j" using j Cons.prems(3) by simp_all
    define k where "k = (if i = 0 then j else i)"
    have "fm' ! 0 = fm ! k" "fs' ! 0 = fs ! k" "k \<in> set (j # js)"
      using i(1-3) same zero by (auto simp: k_def)
    moreover have "fm ! l \<le> fm ! k" if "l \<in> insert 0 (set (j # js))" for l
    proof -
      have "?fm ! i = fm ! k" using i(1) same zero by (auto simp: k_def)
      with i(4) zero have "fm ! j \<le> fm ! k" by auto
      moreover have "fm ! l \<le> fm ! k" if "l \<in> set js"
        using i(4) same(1)[OF that] that \<open>?fm ! i = fm ! k\<close> by auto
      ultimately show ?thesis using that True by auto
    qed
    ultimately show ?thesis by auto
  next
    case False
    then have "move_max js (fm, fs) = (fm', fs')" using Cons.prems(4) by simp
    then obtain i where "i \<in> insert 0 (set js)" "fm' ! 0 = fm ! i" "fs' ! 0 = fs ! i"
      "\<forall>k \<in> insert 0 (set js). fm ! k \<le> fm ! i"
      using Cons.IH [of fm fs] Cons.prems(1-3) by auto
    with False show ?thesis by (intro bexI [of _ i]) auto
  qed
qed

section \<open>Asking keeps the tables\<close>

text \<open>What the session relies on between calls: a server not used yet has no open verbs objects and no
  mappings; a server in use is connected.\<close>

definition peers_ok :: "IS_session \<Rightarrow> bool" where
  "peers_ok s \<longleftrightarrow> (\<forall>c < length (cb_list s).
     (cb_state_list s ! c = CB_IDLE \<longrightarrow>
        hw_released (hw (cb_at s c)) \<and> dma_maps (hw (cb_at s c)) = 0 \<and> no_mapping (rc_at s c)) \<and>
     (CB_IDLE < cb_state_list s ! c \<and> cb_state_list s ! c < CB_EVICTING \<longrightarrow>
        rc_sized (rc_at s c) MAX_MR_SIZE_GB \<and> CONNECTED \<le> state (cb_at s c) \<and>
        state (cb_at s c) \<notin> {ERROR, FREE_MEM_RECV}))"

text \<open>What the servers and the verbs layer do: connections succeed, and a new connection and a query are
  answered with the free memory.\<close>

definition free_size_msg :: "IS_rdma_info \<Rightarrow> bool" where
  "free_size_msg m \<longleftrightarrow> mtype m = FREE_SIZE \<and> msg_wf m \<and> 0 \<le> size_gb m"

definition server_answers :: "net \<Rightarrow> IS_session \<Rightarrow> nat \<Rightarrow> bool" where
  "server_answers nt s c \<longleftrightarrow> id_ok nt c \<and> verbs_of nt c = verbs_good \<and> repost_ret nt c = 0 \<and>
     (if cb_state_list s ! c = CB_IDLE then \<exists>m. hello nt c = Some m \<and> free_size_msg m
      else \<forall>q. mtype q = QUERY \<longrightarrow> (\<exists>m. reply nt c q = Some m \<and> free_size_msg m))"

definition servers_answer :: "net \<Rightarrow> IS_session \<Rightarrow> bool" where
  "servers_answer nt s \<longleftrightarrow> (\<forall>c < length (cb_list s). cb_state_list s ! c < CB_EVICTING \<longrightarrow> server_answers nt s c)"

text \<open>The free memory that server \<open>c\<close> reports when it is asked in session \<open>s\<close>.\<close>

definition told :: "net \<Rightarrow> IS_session \<Rightarrow> nat \<Rightarrow> int" where
  "told nt s c =
     size_gb (the (if cb_state_list s ! c = CB_IDLE then hello nt c
                   else reply nt c ((send_buf (cb_at s c))\<lparr>mtype := QUERY\<rparr>)))"

lemma upd_cb_twice: "upd_cb c f (upd_cb c g s) = upd_cb c (\<lambda>cb. f (g cb)) s"
  by (cases "c < length (cb_list s)") (simp_all add: upd_cb_def list_update_beyond)

lemma await_free_size:
  assumes "c < length (cb_list s)" "CONNECTED \<le> state (cb_at s c)" "state (cb_at s c) \<notin> {ERROR, FREE_MEM_RECV}"
    "free_size_msg m" "repost_ret nt c = 0"
  shows "await le nt c (Some m) FREE_MEM_RECV s =
     Inr (upd_cb c (\<lambda>cb. cb\<lparr>recv_buf := m, remote_chunk := (remote_chunk cb)\<lparr>target_size_g := size_gb m\<rparr>,
                              state := FREE_MEM_RECV\<rparr>) s)"
  using assms
  by (simp add: await_def cq_recv_def client_recv_def free_size_msg_def not_less upd_rc_def upd_cb_twice Let_def)

definition asked_cb :: "kernel_cb \<Rightarrow> kernel_cb \<Rightarrow> bool" where
  "asked_cb cb cb' \<longleftrightarrow> cb_index cb' = cb_index cb \<and> state cb' = AFTER_FREE_MEM \<and>
                      rc_tables (remote_chunk cb') = rc_tables (remote_chunk cb)"

lemma ask_connected_ok:
  assumes "c < length (cb_list s)" "CB_IDLE < cb_state_list s ! c" "cb_state_list s ! c < CB_EVICTING"
    "peers_ok s" "server_answers nt s c"
  shows "\<exists>cb'. ask_connected le nt c s = Inr (told nt s c, upd_cb c (\<lambda>_. cb') s) \<and> asked_cb (cb_at s c) cb'"
proof -
  let ?s1 = "IS_send_query c s" and ?q = "(send_buf (cb_at s c))\<lparr>mtype := QUERY\<rparr>"
  obtain m where m: "reply nt c ?q = Some m" "free_size_msg m" "repost_ret nt c = 0"
    using assms(2,5) by (auto simp: server_answers_def split: if_splits dest!: spec [of _ ?q])
  have st: "CONNECTED \<le> state (cb_at ?s1 c)" "state (cb_at ?s1 c) \<notin> {ERROR, FREE_MEM_RECV}"
    using assms(1-4) by (simp_all add: peers_ok_def IS_send_query_def)
  have "await le nt c (Some m) FREE_MEM_RECV ?s1 = Inr (upd_cb c (\<lambda>cb. cb\<lparr>recv_buf := m,
        remote_chunk := (remote_chunk cb)\<lparr>target_size_g := size_gb m\<rparr>, state := FREE_MEM_RECV\<rparr>) ?s1)"
    using assms(1) by (intro await_free_size st m) (simp add: IS_send_query_def)
  then have "ask_connected le nt c s = Inr (size_gb m, upd_cb c (\<lambda>cb. cb\<lparr>send_buf := ?q, recv_buf := m,
        remote_chunk := (remote_chunk cb)\<lparr>target_size_g := size_gb m\<rparr>, state := AFTER_FREE_MEM\<rparr>) s)"
    using m assms(1) by (simp add: ask_connected_def IS_send_query_def upd_cb_twice Let_def)
      (simp add: upd_cb_def)
  moreover have "told nt s c = size_gb m" using m(1) assms(2) by (auto simp: told_def)
  ultimately show ?thesis
    by (intro exI [of _ "(cb_at s c)\<lparr>send_buf := ?q, recv_buf := m,
        remote_chunk := (rc_at s c)\<lparr>target_size_g := size_gb m\<rparr>, state := AFTER_FREE_MEM\<rparr>"])
      (simp add: upd_cb_def asked_cb_def rc_tables_def)
qed

lemma connect_good:
  assumes "hw_fresh (hw cb)" "state cb = IDLE"
  shows "\<exists>h. rdma_connect_upper verbs_good cb = Inr (0, cb\<lparr>state := ROUTE_RESOLVED, hw := h\<rparr>) \<and>
             rdma_connect_down verbs_good (cb\<lparr>state := ROUTE_RESOLVED, hw := h\<rparr>) =
               Inr (0, cb\<lparr>state := CONNECTED, hw := h\<rparr>)"
proof -
  have bind: "IS_bind_client verbs_good cb = Inr (0, cb\<lparr>state := ROUTE_RESOLVED\<rparr>)"
    using assms by (simp add: IS_bind_client_def hw_fresh_def verbs_good_def cma_event_state_def test_state_order)
  obtain h1 where qp: "IS_setup_qp verbs_good (hw cb) = Inr (0, h1)"
    "h1 = (hw cb)\<lparr>pd := Live, cq := Live, qp := Live\<rparr>"
    using IS_setup_qp_ledger [OF assms(1), of verbs_good] by (auto simp: verbs_good_def)
  obtain h where h: "IS_setup_buffers verbs_good h1 = Inr (0, h)" "hw_open h"
    using IS_setup_buffers_ledger [OF assms(1) qp(2), of verbs_good] by (auto simp: verbs_good_def)
  have "IS_connect_client verbs_good (cb\<lparr>state := ROUTE_RESOLVED, hw := h\<rparr>) =
      Inr (0, cb\<lparr>state := CONNECTED, hw := h\<rparr>)"
    using h(2) by (simp add: IS_connect_client_def hw_open_def verbs_good_def cma_event_state_def test_state_order)
  with bind qp h show ?thesis
    by (intro exI [of _ h])
      (simp add: rdma_connect_upper_def rdma_connect_down_def hw_open_def verbs_good_def)
qed

text \<open>A server asked for the first time: connected, with empty tables.\<close>

definition new_cb :: "kernel_cb \<Rightarrow> kernel_cb \<Rightarrow> bool" where
  "new_cb cb cb' \<longleftrightarrow> cb_index cb' = cb_index cb \<and> state cb' = AFTER_FREE_MEM \<and> no_mapping (remote_chunk cb') \<and>
                    rc_inv (remote_chunk cb') \<and> rc_sized (remote_chunk cb') MAX_MR_SIZE_GB"

lemma ask_idle_ok:
  assumes "c < length (cb_list s)" "length (cb_state_list s) = length (cb_list s)" "cb_state_list s ! c = CB_IDLE"
    "peers_ok s" "server_answers nt s c"
  shows "\<exists>cb'. ask_idle le nt c s =
           Inr (told nt s c, upd_cb c (\<lambda>_. cb') (s\<lparr>cb_state_list := (cb_state_list s)[c := CB_CONNECTED]\<rparr>)) \<and>
           new_cb (cb_at s c) cb'"
proof -
  obtain m where env: "id_ok nt c" "verbs_of nt c = verbs_good" "repost_ret nt c = 0"
    "hello nt c = Some m" "free_size_msg m"
    using assms(3,5) by (auto simp: server_answers_def)
  obtain cb where cb: "kernel_cb_init True (int (length (IS_conns s))) (cb_at s c) = Some cb"
    by (simp add: kernel_cb_init_def Let_def)
  note init = kernel_cb_init_ok [OF cb]
  have "hw_fresh (hw cb)"
    using cb assms(1,3,4) by (auto simp: kernel_cb_init_def Let_def hw_fresh_def peers_ok_def hw_released_def)
  then obtain h where h: "rdma_connect_upper verbs_good cb = Inr (0, cb\<lparr>state := ROUTE_RESOLVED, hw := h\<rparr>)"
    "rdma_connect_down verbs_good (cb\<lparr>state := ROUTE_RESOLVED, hw := h\<rparr>) = Inr (0, cb\<lparr>state := CONNECTED, hw := h\<rparr>)"
    using connect_good init(5) by blast
  let ?cb = "cb\<lparr>state := CONNECTED, hw := h\<rparr>"
  let ?cb' = "?cb\<lparr>recv_buf := m, remote_chunk := (remote_chunk cb)\<lparr>target_size_g := size_gb m\<rparr>,
                  state := AFTER_FREE_MEM\<rparr>"
  have "await le nt c (Some m) FREE_MEM_RECV (upd_cb c (\<lambda>_. ?cb) s) =
      Inr (upd_cb c (\<lambda>cb. cb\<lparr>recv_buf := m, remote_chunk := (remote_chunk cb)\<lparr>target_size_g := size_gb m\<rparr>,
        state := FREE_MEM_RECV\<rparr>) (upd_cb c (\<lambda>_. ?cb) s))"
    using assms(1) env by (intro await_free_size) (simp_all add: test_state_order)
  then have "ask_idle le nt c s =
      Inr (size_gb m, upd_cb c (\<lambda>_. ?cb') (s\<lparr>cb_state_list := (cb_state_list s)[c := CB_CONNECTED]\<rparr>))"
    using cb h env assms(1,2) by (simp add: ask_idle_def upd_cb_twice) (simp add: upd_cb_def)
  moreover have "told nt s c = size_gb m" using env assms(3) by (simp add: told_def)
  moreover have "new_cb (cb_at s c) ?cb'"
    using init by (simp add: new_cb_def no_mapping_def rc_inv_def rc_sized_def)
  ultimately show ?thesis by (intro exI [of _ ?cb']) simp
qed

section \<open>The round of questions\<close>

lemma map_inv_upd_cb_at:
  assumes "cb_index (f (cb_at s c)) = cb_index (cb_at s c)"
    "rc_tables (remote_chunk (f (cb_at s c))) = rc_tables (rc_at s c)"
  shows "map_inv_upto L (upd_cb c f s) = map_inv_upto L s"
proof (rule map_inv_cong)
  fix d
  assume "d < length (cb_list s)"
  then show "cb_index (cb_at (upd_cb c f s) d) = cb_index (cb_at s d) \<and>
      rc_tables (rc_at (upd_cb c f s) d) = rc_tables (rc_at s d)"
    using assms by (cases "d = c") simp_all
qed simp_all

text \<open>Server \<open>c\<close> after it was asked, compared with the session \<open>s0\<close> before the round.\<close>

definition asked :: "IS_session \<Rightarrow> IS_session \<Rightarrow> nat \<Rightarrow> bool" where
  "asked s0 s c \<longleftrightarrow>
     state (cb_at s c) = AFTER_FREE_MEM \<and> rc_sized (rc_at s c) MAX_MR_SIZE_GB \<and>
     CB_IDLE < cb_state_list s ! c \<and> cb_state_list s ! c < CB_EVICTING \<and>
     (\<forall>k < MAX_MR_SIZE_GB. chunk_map (rc_at s c) ! k =
        (if cb_state_list s0 ! c = CB_IDLE then -1 else chunk_map (rc_at s0 c) ! k))"

definition untouched :: "IS_session \<Rightarrow> IS_session \<Rightarrow> nat \<Rightarrow> bool" where
  "untouched s0 s c \<longleftrightarrow> cb_at s c = cb_at s0 c \<and> cb_state_list s ! c = cb_state_list s0 ! c"

definition same_session :: "IS_session \<Rightarrow> IS_session \<Rightarrow> bool" where
  "same_session s0 s \<longleftrightarrow> length (cb_list s) = length (cb_list s0) \<and> cb_index_map s = cb_index_map s0 \<and>
     chunk_map_cb_chunk s = chunk_map_cb_chunk s0 \<and> IS_conns s = IS_conns s0 \<and>
     unmapped_chunk_list s = unmapped_chunk_list s0"

lemma ask_one:
  assumes inv: "map_inv_upto L s" and peers: "peers_ok s" and same: "same_session s0 s" and ans0: "server_answers nt s0 c"
    and c: "c < length (cb_list s)" "untouched s0 s c" "cb_state_list s ! c < CB_EVICTING"
  shows "\<exists>s'. (if CB_IDLE < cb_state_list s ! c then ask_connected le nt c s else ask_idle le nt c s) =
           Inr (told nt s0 c, s') \<and> map_inv_upto L s' \<and> peers_ok s' \<and> same_session s0 s' \<and> asked s0 s' c \<and>
           (\<forall>d < length (cb_list s). d \<noteq> c \<longrightarrow> cb_at s' d = cb_at s d \<and> cb_state_list s' ! d = cb_state_list s ! d)"
proof -
  have len: "length (cb_state_list s) = length (cb_list s)" "cb_index (cb_at s c) = int c"
    using inv c(1) by (simp_all add: map_inv_upto_def sess_wf_def)
  have told: "told nt s c = told nt s0 c" using c(2) by (simp add: told_def untouched_def)
  have ans: "server_answers nt s c" using ans0 c(2) by (simp add: server_answers_def untouched_def)
  show ?thesis
  proof (cases "CB_IDLE < cb_state_list s ! c")
    case True
    obtain cb' where cb': "ask_connected le nt c s = Inr (told nt s c, upd_cb c (\<lambda>_. cb') s)" "asked_cb (cb_at s c) cb'"
      using ask_connected_ok [OF c(1) True c(3) peers ans] by blast
    let ?t = "upd_cb c (\<lambda>_. cb') s"
    have sized: "rc_sized (rc_at s c) MAX_MR_SIZE_GB" using True c peers by (simp add: peers_ok_def)
    have "map_inv_upto L ?t" using inv cb'(2) by (simp add: map_inv_upd_cb_at asked_cb_def)
    moreover have "peers_ok ?t"
      using peers cb'(2) sized c(1) True
      by (auto simp: peers_ok_def asked_cb_def rc_tables_def rc_sized_def test_state_order nth_list_update upd_cb_def)
    moreover have "asked s0 ?t c"
      using cb'(2) c sized True by (auto simp: asked_def asked_cb_def untouched_def rc_tables_def rc_sized_def)
    ultimately show ?thesis
      using True cb'(1) told same by (auto simp: same_session_def)
  next
    case False
    then have idle: "cb_state_list s ! c = CB_IDLE"
      by (cases "cb_state_list s ! c") (simp_all add: cb_state_order)
    obtain cb' where cb': "ask_idle le nt c s =
        Inr (told nt s c, upd_cb c (\<lambda>_. cb') (s\<lparr>cb_state_list := (cb_state_list s)[c := CB_CONNECTED]\<rparr>))"
      "new_cb (cb_at s c) cb'"
      using ask_idle_ok [OF c(1) len(1) idle peers ans] by blast
    let ?t = "upd_cb c (\<lambda>_. cb') (s\<lparr>cb_state_list := (cb_state_list s)[c := CB_CONNECTED]\<rparr>)"
    have "map_inv_upto L ?t"
      using inv cb'(2) peers c(1) idle len by (intro map_inv_replace_cb) (auto simp: new_cb_def peers_ok_def)
    moreover have "peers_ok ?t"
      using peers cb'(2) c(1) len
      by (auto simp: peers_ok_def new_cb_def test_state_order cb_state_order nth_list_update upd_cb_def)
    moreover have "asked s0 ?t c"
      using cb'(2) c len idle
      by (auto simp: asked_def new_cb_def untouched_def rc_sized_def no_mapping_def cb_state_order)
    ultimately show ?thesis
      using False cb'(1) told same by (auto simp: same_session_def)
  qed
qed

text \<open>The loop over the selection.\<close>

definition ask_inv :: "nat set \<Rightarrow> net \<Rightarrow> IS_session \<Rightarrow> nat list \<Rightarrow> nat \<Rightarrow> IS_session \<times> int list \<times> nat list \<Rightarrow> bool" where
  "ask_inv L nt s0 sel i = (\<lambda>(s, fm, fs).
     map_inv_upto L s \<and> peers_ok s \<and> same_session s0 s \<and> length fm = length sel \<and> length fs = length sel \<and>
     (\<forall>c < length (cb_list s0). if c \<in> set (take i sel) then asked s0 s c else untouched s0 s c) \<and>
     (\<forall>j < i. fm ! j = told nt s0 (sel ! j) \<and> fs ! j = sel ! j))"

lemma ask_server_step:
  assumes "ask_inv L nt s0 sel i st" "servers_answer nt s0" "i < k" "k \<le> length sel" "distinct (take k sel)"
    "\<forall>c \<in> set (take k sel). c < length (cb_list s0) \<and> cb_state_list s0 ! c < CB_EVICTING"
  shows "\<exists>st'. ask_server le nt sel i st = Inr st' \<and> ask_inv L nt s0 sel (Suc i) st'"
proof -
  obtain s fm fs where st: "st = (s, fm, fs)" by (cases st)
  let ?c = "sel ! i"
  have i: "i < length sel" "?c \<in> set (take k sel)" using assms(3,4) by (auto simp: in_set_conv_nth)
  have Suc: "take (Suc i) sel = take i sel @ [?c]" using i(1) by (rule take_Suc_conv_app_nth)
  have notin: "?c \<notin> set (take i sel)"
  proof -
    have "distinct (take (Suc i) (take k sel))" using assms(5) by (rule distinct_take)
    then show ?thesis using assms(3) by (simp add: Suc min_absorb1 Suc_leI)
  qed
  have inv: "map_inv_upto L s" "peers_ok s" "same_session s0 s" "untouched s0 s ?c" "?c < length (cb_list s)"
    "cb_state_list s ! ?c < CB_EVICTING" "length (cb_state_list s) = length (cb_list s)"
    using assms(1,6) i(2) notin st
    by (auto simp: ask_inv_def same_session_def untouched_def map_inv_upto_def sess_wf_def)
  have "server_answers nt s0 ?c" using assms(2,6) i(2) by (simp add: servers_answer_def)
  with inv obtain s' where s': "(if CB_IDLE < cb_state_list s ! ?c then ask_connected le nt ?c s else ask_idle le nt ?c s) =
      Inr (told nt s0 ?c, s')" "map_inv_upto L s'" "peers_ok s'" "same_session s0 s'" "asked s0 s' ?c"
    and other: "\<forall>d < length (cb_list s). d \<noteq> ?c \<longrightarrow> cb_at s' d = cb_at s d \<and> cb_state_list s' ! d = cb_state_list s ! d"
    using ask_one by blast
  let ?st = "(s', fm[i := told nt s0 ?c], fs[i := ?c])"
  have "ask_server le nt sel i st = Inr ?st"
    using st i(1) inv(5-7) s'(1) assms(1)
    by (auto simp: ask_server_def ask_inv_def cb_state_order)
  moreover have "if d \<in> set (take (Suc i) sel) then asked s0 s' d else untouched s0 s' d"
    if d: "d < length (cb_list s0)" for d
  proof (cases "d = ?c")
    case True
    then show ?thesis using s'(5) by (simp add: Suc)
  next
    case False
    then have "cb_at s' d = cb_at s d" "cb_state_list s' ! d = cb_state_list s ! d"
      using other d inv(3) by (simp_all add: same_session_def)
    then show ?thesis
      using assms(1) st d False by (auto simp: Suc ask_inv_def asked_def untouched_def)
  qed
  then have "ask_inv L nt s0 sel (Suc i) ?st"
    using assms(1) st s'(2-4) i(1) by (auto simp: ask_inv_def less_Suc_eq nth_list_update)
  ultimately show ?thesis by blast
qed

section \<open>Binding places the chunk\<close>

lemma map_inv_recv_buf [simp]: "map_inv_upto L (upd_cb c (\<lambda>cb. cb\<lparr>recv_buf := m\<rparr>) s) = map_inv_upto L s"
  by (rule map_inv_upd_cb) simp

lemma sess_view_upd_cb [simp]: "sess_view (upd_cb c f s) = sess_view s"
  by (simp add: sess_view_def)

lemma sess_view_cb_state_list [simp]: "sess_view (s\<lparr>cb_state_list := l\<rparr>) = sess_view s"
  by (simp add: sess_view_def)

lemma map_inv_other_fields [simp]:
  "map_inv_upto L (s\<lparr>mapped_cb_num := a, IS_conns := b\<rparr>) = map_inv_upto L s" "map_inv_upto L (s\<lparr>rdma_on := r\<rparr>) = map_inv_upto L s"
  "map_inv_upto L (s\<lparr>trigger_enable := e\<rparr>) = map_inv_upto L s"
  by (rule map_inv_cong; simp)+

text \<open>The key and the address that the session keeps for chunk \<open>i\<close> of server \<open>c\<close> are those of message \<open>m\<close>.\<close>

definition took_offer :: "bool \<Rightarrow> IS_rdma_info \<Rightarrow> nat \<Rightarrow> nat \<Rightarrow> IS_session \<Rightarrow> bool" where
  "took_offer le m c i s \<longleftrightarrow> remote_rkey (chunk_list (rc_at s c) ! i) = ntohl le (rkey m ! i) \<and>
     remote_addr (chunk_list (rc_at s c) ! i) = ntohll le (buf m ! i)"

text \<open>The session after chunk \<open>i\<close> of server \<open>c\<close> was bound to session chunk \<open>g\<close>, the tables apart.\<close>

definition bound :: "nat \<Rightarrow> nat \<Rightarrow> nat \<Rightarrow> IS_session \<Rightarrow> IS_session \<Rightarrow> bool" where
  "bound c i g s s' \<longleftrightarrow>
     length (cb_list s') = length (cb_list s) \<and> state (cb_at s' c) = WAIT_OPS \<and>
     rc_sized (rc_at s' c) MAX_MR_SIZE_GB \<and> cb_state_list s' = (cb_state_list s)[c := CB_MAPPED] \<and>
     (\<forall>d. d \<noteq> c \<longrightarrow> cb_at s' d = cb_at s d) \<and> cb_index_map s' = (cb_index_map s)[g := int c] \<and>
     chunk_map_cb_chunk s' = (chunk_map_cb_chunk s)[g := int i] \<and>
     unmapped_chunk_list s' = unmapped_chunk_list s"

lemma peers_ok_bound:
  assumes "peers_ok s" "bound c i g s s'" "c < length (cb_list s)" "length (cb_state_list s) = length (cb_list s)"
  shows "peers_ok s'"
  unfolding peers_ok_def
proof (intro allI impI)
  fix d
  assume "d < length (cb_list s')"
  then show "(cb_state_list s' ! d = CB_IDLE \<longrightarrow>
        hw_released (hw (cb_at s' d)) \<and> dma_maps (hw (cb_at s' d)) = 0 \<and> no_mapping (rc_at s' d)) \<and>
     (CB_IDLE < cb_state_list s' ! d \<and> cb_state_list s' ! d < CB_EVICTING \<longrightarrow>
        rc_sized (rc_at s' d) MAX_MR_SIZE_GB \<and> CONNECTED \<le> state (cb_at s' d) \<and>
        state (cb_at s' d) \<notin> {ERROR, FREE_MEM_RECV})"
    using assms by (cases "d = c") (simp_all add: bound_def peers_ok_def test_state_order)
qed

lemma cq_recv_offer:
  assumes inv: "map_inv_upto L s" and c: "c < length (cb_list s)"
    and st: "CONNECTED \<le> state (cb_at s c)" "state (cb_at s c) \<noteq> ERROR"
    and m: "mtype m = INFO_SINGLE" "msg_wf m" "offered_slot m = Some i" "size_gb m = int g"
    and free: "slot_free c i s" "chunk_free g s" "g \<notin> L" and nt: "repost_ret nt c = 0"
  shows "\<exists>s'. cq_recv le nt c m s = Inr s' \<and> map_inv_upto L s' \<and> sess_view s' = insert (c, i, g) (sess_view s) \<and>
           bound c i g s s' \<and> took_offer le m c i s'"
proof -
  have idx: "cb_index (cb_at s c) = int c" "c < length (cb_state_list s)"
    using inv c by (simp_all add: map_inv_upto_def sess_wf_def)
  let ?t = "upd_cb c (\<lambda>cb. cb\<lparr>state := WAIT_OPS\<rparr>)
      ((upd_cb c (\<lambda>cb. cb\<lparr>recv_buf := m\<rparr>) s)\<lparr>cb_state_list := (cb_state_list s)[c := CB_MAPPED]\<rparr>)"
  have t: "map_inv_upto L ?t" "cb_at ?t c = (cb_at s c)\<lparr>recv_buf := m, state := WAIT_OPS\<rparr>"
    "sess_view ?t = sess_view s"
    using inv c by simp_all
  have ft: "slot_free c i ?t" "chunk_free g ?t"
    using free c by (simp_all add: slot_free_def chunk_free_def)
  then have "offer_ok c ?t" using m t(2) by (simp add: offer_ok_def)
  then have "IS_single_chunk_init le c ?t = Inr (upd_rc c (\<lambda>rc. rc\<lparr>c_state := C_READY\<rparr>) (counted c 1 (placed c i g
      (chunk_of_msg le m i (chunk_list (rc_at ?t c) ! i)) ?t)))" (is "_ = Inr ?r")
    using IS_single_chunk_init_placed [OF t(1), of c i le] m t(2) by simp
  then have "cq_recv le nt c m s = Inr ?r"
    using st m(1) nt c idx by (simp add: cq_recv_def client_recv_def Let_def not_less)
  moreover have "map_inv_upto L ?r" using t(1) ft free(3) by (simp add: map_inv_placed)
  moreover have "sess_view ?r = insert (c, i, g) (sess_view s)"
    using sess_view_placed [OF map_invD(1)[OF t(1)] ft(2)] t(3) by simp
  moreover have "bound c i g s ?r"
    using c free(1) by (simp add: bound_def counted_def placed_def slot_free_def rc_sized_def)
  moreover have "took_offer le m c i ?r"
    using c free(1) by (simp add: took_offer_def counted_def placed_def slot_free_def rc_sized_def chunk_of_msg_def)
  ultimately show ?thesis by blast
qed

text \<open>The servers also keep their word: a server that reported free memory answers a request to bind
  chunk \<open>g\<close> with one of its chunks that the session does not use yet.\<close>

definition servers_bind :: "net \<Rightarrow> nat \<Rightarrow> IS_session \<Rightarrow> bool" where
  "servers_bind nt g s \<longleftrightarrow> (\<forall>c < length (cb_list s). cb_state_list s ! c < CB_EVICTING \<longrightarrow> 0 < told nt s c \<longrightarrow>
     (\<forall>q. mtype q = BIND_SINGLE \<and> size_gb q = int g \<longrightarrow>
        (\<exists>m i. reply nt c q = Some m \<and> mtype m = INFO_SINGLE \<and> msg_wf m \<and> size_gb m = int g \<and>
               offered_slot m = Some i \<and> i < MAX_MR_SIZE_GB \<and>
               (cb_state_list s ! c = CB_IDLE \<or> chunk_map (rc_at s c) ! i = -1))))"

definition binds_with :: "net \<Rightarrow> nat \<Rightarrow> nat \<Rightarrow> nat \<Rightarrow> IS_rdma_info \<Rightarrow> IS_rdma_info \<Rightarrow> bool" where
  "binds_with nt g c i q m \<longleftrightarrow> mtype q = BIND_SINGLE \<and> size_gb q = int g \<and> reply nt c q = Some m \<and> offered_slot m = Some i"

lemma bind_chunk_ok:
  assumes inv: "map_inv_upto L s" and same: "same_session s0 s" and c: "c < length (cb_list s0)" "asked s0 s c" "cb_state_list s0 ! c < CB_EVICTING"
    and told: "0 < told nt s0 c" and env: "servers_bind nt g s0" "servers_answer nt s0"
    and free: "chunk_free g s" "g \<notin> L"
  shows "\<exists>i q m s'. bind_chunk le nt c (int g) s = Inr s' \<and> map_inv_upto L s' \<and>
           sess_view s' = insert (c, i, g) (sess_view s) \<and> rdma_on s' = DEV_RDMA_ON \<and> bound c i g s s' \<and>
           binds_with nt g c i q m \<and> took_offer le m c i s'"
proof -
  define s1 where "s1 = (if cb_state_list s ! c = CB_CONNECTED
     then IS_ctx_dma_setup nt c (s\<lparr>mapped_cb_num := mapped_cb_num s + 1\<rparr>) else s)"
  have s1: "cb_list s1 = cb_list s" "sess_view s1 = sess_view s" "map_inv_upto L s1 = map_inv_upto L s"
    "chunk_free g s1 = chunk_free g s" "cb_state_list s1 = cb_state_list s" "cb_index_map s1 = cb_index_map s"
    "chunk_map_cb_chunk s1 = chunk_map_cb_chunk s" "unmapped_chunk_list s1 = unmapped_chunk_list s"
    by (auto simp: s1_def IS_ctx_dma_setup_def sess_view_def chunk_free_def)
  let ?q = "(send_buf (cb_at s c))\<lparr>mtype := BIND_SINGLE, size_gb := int g\<rparr>"
  let ?s2 = "upd_cb c (\<lambda>cb. cb\<lparr>send_buf := (send_buf cb)\<lparr>mtype := BIND_SINGLE, size_gb := int g\<rparr>\<rparr>) s1"
  obtain m i where m: "reply nt c ?q = Some m" "mtype m = INFO_SINGLE" "msg_wf m" "size_gb m = int g"
    "offered_slot m = Some i" "i < MAX_MR_SIZE_GB"
    and slot: "cb_state_list s0 ! c = CB_IDLE \<or> chunk_map (rc_at s0 c) ! i = -1"
    using env(1) c(1,3) told by (auto simp: servers_bind_def dest!: spec [of _ c] spec [of _ ?q])
  have ans: "server_answers nt s0 c" using env(2) c(1,3) by (simp add: servers_answer_def)
  have len: "c < length (cb_list s)" "length (cb_state_list s) = length (cb_list s)"
    using c(1) same inv by (simp_all add: same_session_def map_inv_upto_def sess_wf_def)
  have "map_inv_upto L ?s2" using inv s1 by (subst map_inv_upd_cb) simp_all
  moreover have "CONNECTED \<le> state (cb_at ?s2 c)" "state (cb_at ?s2 c) \<noteq> ERROR" "state (cb_at ?s2 c) \<noteq> WAIT_OPS"
    using c(2) len s1 by (simp_all add: asked_def test_state_order)
  moreover have "slot_free c i ?s2" "chunk_free g ?s2"
    using c(2) len s1 slot m(6) free by (auto simp: slot_free_def asked_def chunk_free_def)
  moreover have "repost_ret nt c = 0" using ans by (simp add: server_answers_def)
  ultimately obtain s' where s': "cq_recv le nt c m ?s2 = Inr s'" "map_inv_upto L s'"
    "sess_view s' = insert (c, i, g) (sess_view ?s2)" "bound c i g ?s2 s'" "took_offer le m c i s'"
    using cq_recv_offer [of L ?s2 c m i g nt le] m len s1(1) free(2) by auto
  have "bind_chunk le nt c (int g) s = Inr (s'\<lparr>rdma_on := DEV_RDMA_ON\<rparr>)"
    using s' m(1) len s1(1) \<open>state (cb_at ?s2 c) \<noteq> WAIT_OPS\<close> unfolding bound_def
    by (simp add: bind_chunk_def IS_send_bind_single_def Let_def await_def s1_def [symmetric])
  moreover have "map_inv_upto L (s'\<lparr>rdma_on := DEV_RDMA_ON\<rparr>)" using s'(2) by simp
  moreover have "sess_view (s'\<lparr>rdma_on := DEV_RDMA_ON\<rparr>) = insert (c, i, g) (sess_view s)"
    using s'(3) s1(2) by (simp add: sess_view_def)
  moreover have "bound c i g s (s'\<lparr>rdma_on := DEV_RDMA_ON\<rparr>)"
    using s'(4) s1 by (simp add: bound_def)
  moreover have "binds_with nt g c i ?q m" using m by (simp add: binds_with_def)
  moreover have "took_offer le m c i (s'\<lparr>rdma_on := DEV_RDMA_ON\<rparr>)" using s'(5) by (simp add: took_offer_def)
  ultimately show ?thesis
    by (intro exI [of _ i] exI [of _ ?q] exI [of _ m] exI [of _ "s'\<lparr>rdma_on := DEV_RDMA_ON\<rparr>"]) simp
qed

lemma told_nonneg: "server_answers nt s c \<Longrightarrow> 0 \<le> told nt s c"
  by (auto simp: told_def server_answers_def free_size_msg_def split: if_splits
      dest!: spec [of _ "(send_buf (cb_at s c))\<lparr>mtype := QUERY\<rparr>"])

lemma asking_round:
  assumes "map_inv_upto L s" "peers_ok s" "servers_answer nt s" "0 < k" "k \<le> length sel" "distinct (take k sel)"
    and "\<forall>c \<in> set (take k sel). c < length (cb_list s) \<and> cb_state_list s ! c < CB_EVICTING"
  shows "\<exists>s1 fm fs fm' fs' c.
     for_res (ask_server le nt sel) [0..<k] (s, replicate (length sel) (-1), replicate (length sel) n) = Inr (s1, fm, fs) \<and>
     move_max [1..<k] (fm, map int fs) = (fm', fs') \<and> c \<in> set (take k sel) \<and>
     fm' ! 0 = told nt s c \<and> fs' ! 0 = int c \<and> (\<forall>d \<in> set (take k sel). told nt s d \<le> told nt s c) \<and>
     map_inv_upto L s1 \<and> peers_ok s1 \<and> same_session s s1 \<and> asked s s1 c \<and>
     (\<forall>d < length (cb_list s). d \<notin> set (take k sel) \<longrightarrow> untouched s s1 d)"
proof -
  have lk: "length (take k sel) = k" using assms(5) by simp
  have "\<exists>st. for_res (ask_server le nt sel) [0..<k] (s, replicate (length sel) (-1), replicate (length sel) n) = Inr st \<and>
      ask_inv L nt s sel k st"
    using assms(1,2,7) ask_server_step [OF _ assms(3) _ assms(5,6)]
    by (intro for_res_inv [where P = "ask_inv L nt s sel"]) (auto simp: ask_inv_def same_session_def untouched_def)
  then obtain s1 fm fs where loop: "for_res (ask_server le nt sel) [0..<k]
      (s, replicate (length sel) (-1), replicate (length sel) n) = Inr (s1, fm, fs)"
    and inv: "ask_inv L nt s sel k (s1, fm, fs)" by auto
  obtain fm' fs' where mm: "move_max [1..<k] (fm, map int fs) = (fm', fs')" by (cases "move_max [1..<k] (fm, map int fs)")
  have "\<forall>j \<in> set [1..<k]. 0 < j \<and> j < length fm" "length (map int fs) = length fm"
    using inv assms(5) by (auto simp: ask_inv_def)
  then obtain i where i: "i \<in> insert 0 (set [1..<k])" "fm' ! 0 = fm ! i" "fs' ! 0 = map int fs ! i"
    "\<forall>j \<in> insert 0 (set [1..<k]). fm ! j \<le> fm ! i"
    using move_max_ok [OF distinct_upt _ _ mm] by blast
  then have ik: "i < k" using assms(4) by auto
  have c: "sel ! i \<in> set (take k sel)" "fm' ! 0 = told nt s (sel ! i)" "fs' ! 0 = int (sel ! i)"
    using ik i(2,3) inv lk assms(5) by (auto simp: ask_inv_def in_set_conv_nth)
  have "told nt s d \<le> told nt s (sel ! i)" if d: "d \<in> set (take k sel)" for d
  proof -
    obtain j where j: "j < k" "d = sel ! j" using d lk by (auto simp: in_set_conv_nth)
    then have "fm ! j \<le> fm ! i" using i(4) by (cases j) auto
    with j ik inv show ?thesis by (simp add: ask_inv_def)
  qed
  moreover have "map_inv_upto L s1" "peers_ok s1" "same_session s s1" "asked s s1 (sel ! i)"
    "\<forall>d < length (cb_list s). d \<notin> set (take k sel) \<longrightarrow> untouched s s1 d"
    using inv c(1) assms(7) by (auto simp: ask_inv_def)
  ultimately show ?thesis using loop mm c by blast
qed

text \<open>What the call leaves alone: every other chunk, and every server that is not available.\<close>

definition keeps_rest :: "nat \<Rightarrow> IS_session \<Rightarrow> IS_session \<Rightarrow> bool" where
  "keeps_rest g s s' \<longleftrightarrow>
     length (cb_list s') = length (cb_list s) \<and> unmapped_chunk_list s' = unmapped_chunk_list s \<and>
     (\<forall>h. h \<noteq> g \<longrightarrow> cb_index_map s' ! h = cb_index_map s ! h \<and> chunk_map_cb_chunk s' ! h = chunk_map_cb_chunk s ! h) \<and>
     (\<forall>c < length (cb_list s). \<not> cb_state_list s ! c < CB_EVICTING \<longrightarrow> untouched s s' c)"

definition chosen_server :: "net \<Rightarrow> nat list \<Rightarrow> IS_session \<Rightarrow> nat \<Rightarrow> bool" where
  "chosen_server nt cs s c \<longleftrightarrow> c \<in> set cs \<and> 0 < told nt s c \<and> (\<forall>d \<in> set cs. told nt s d \<le> told nt s c)"

lemma single_chunk_map_finish:
  assumes s1: "map_inv_upto L s1" "peers_ok s1" "same_session s s1" "asked s s1 c"
    and rest: "\<forall>d < length (cb_list s). d \<notin> set cs \<longrightarrow> untouched s s1 d"
    and c: "c \<in> set cs" and max: "\<forall>d \<in> set cs. told nt s d \<le> told nt s c"
    and env: "servers_answer nt s" "servers_bind nt g s" and free: "chunk_free g s" "g \<notin> L"
    and cs: "\<forall>d \<in> set cs. d < length (cb_list s) \<and> cb_state_list s ! d < CB_EVICTING"
    and eq: "f = (if told nt s c = 0 then Some (Inr (-1, s1))
                  else Some (bind_res (bind_chunk le nt c (int g) s1) (\<lambda>s2. Inr (int g, s2))))"
  shows "\<exists>r s'. f = Some (Inr (r, s')) \<and> map_inv_upto L s' \<and> peers_ok s' \<and> keeps_rest g s s' \<and>
     (\<forall>d < length (cb_list s). d \<notin> set cs \<longrightarrow> untouched s s' d) \<and>
     (r = -1 \<and> sess_view s' = sess_view s \<and> (\<forall>c \<in> set cs. told nt s c = 0) \<or>
      r = int g \<and> rdma_on s' = DEV_RDMA_ON \<and>
        (\<exists>c i q m. chosen_server nt cs s c \<and> sess_view s' = insert (c, i, g) (sess_view s) \<and>
           binds_with nt g c i q m \<and> took_offer le m c i s'))"
proof (cases "told nt s c = 0")
  case True
  have "told nt s d = 0" if "d \<in> set cs" for d
    using max that True told_nonneg [of nt s d] cs env(1) by (force simp: servers_answer_def)
  moreover have "keeps_rest g s s1" using s1(3) rest cs by (auto simp: keeps_rest_def same_session_def)
  moreover have "sess_view s1 = sess_view s" using s1(3) by (simp add: same_session_def sess_view_def)
  ultimately show ?thesis using True s1(1,2) eq rest by auto
next
  case False
  then have told: "0 < told nt s c" using told_nonneg [of nt s c] c cs env(1) by (force simp: servers_answer_def)
  have cl: "c < length (cb_list s)" "cb_state_list s ! c < CB_EVICTING" using c cs by simp_all
  have s1': "sess_view s1 = sess_view s" "chunk_free g s1"
    using s1(3) free(1) by (simp_all add: same_session_def sess_view_def chunk_free_def)
  obtain j q m s' where b: "bind_chunk le nt c (int g) s1 = Inr s'" "map_inv_upto L s'"
    "sess_view s' = insert (c, j, g) (sess_view s1)" "rdma_on s' = DEV_RDMA_ON" "bound c j g s1 s'"
    "binds_with nt g c j q m" "took_offer le m c j s'"
    using bind_chunk_ok [OF s1(1,3) cl(1) s1(4) cl(2) told env(2,1) s1'(2) free(2)] by blast
  have "length (cb_state_list s1) = length (cb_list s1)" "length (cb_list s1) = length (cb_list s)"
    using s1(1,3) by (simp_all add: map_inv_upto_def sess_wf_def same_session_def)
  then have "peers_ok s'" using peers_ok_bound [OF s1(2) b(5)] cl by simp
  moreover have "keeps_rest g s s'"
    unfolding keeps_rest_def
  proof (intro conjI allI impI)
    fix d
    assume d: "d < length (cb_list s)" "\<not> cb_state_list s ! d < CB_EVICTING"
    then have "d \<noteq> c" "untouched s s1 d" using c cs rest by auto
    with b(5) show "untouched s s' d" by (simp add: bound_def untouched_def)
  qed (use b(5) s1(3) in \<open>simp_all add: bound_def same_session_def\<close>)
  moreover have "untouched s s' d" if "d < length (cb_list s)" "d \<notin> set cs" for d
  proof -
    have "d \<noteq> c" "untouched s s1 d" using c that rest by auto
    with b(5) show "untouched s s' d" by (simp add: bound_def untouched_def)
  qed
  moreover have "chosen_server nt cs s c" using told c max by (simp add: chosen_server_def)
  moreover have "f = Some (Inr (int g, s'))" using eq b(1) False by simp
  moreover have "sess_view s' = insert (c, j, g) (sess_view s)" using b(3) s1'(1) by simp
  ultimately show ?thesis using b(2,4,6,7) by blast
qed

lemma IS_single_chunk_map_full:
  assumes "map_inv_upto L s" "peers_ok s" "servers_answer nt s" "servers_bind nt g s" "chunk_free g s" "g \<notin> L"
    and "NUM_CB = length (cb_list s)"
  shows "\<exists>asked r s'. IS_single_chunk_map le nt m NUM_CB (int g) s = Some (Inr (r, s')) \<and> map_inv_upto L s' \<and>
     peers_ok s' \<and> keeps_rest g s s' \<and>
     length asked = min (avail_cb NUM_CB (cb_state_list s)) m \<and> distinct asked \<and>
     (\<forall>c \<in> set asked. c < NUM_CB \<and> cb_state_list s ! c < CB_EVICTING) \<and>
     (\<forall>d < length (cb_list s). d \<notin> set asked \<longrightarrow> untouched s s' d) \<and>
     (r = -1 \<and> sess_view s' = sess_view s \<and> (\<forall>c \<in> set asked. told nt s c = 0) \<or>
      r = int g \<and> rdma_on s' = DEV_RDMA_ON \<and>
        (\<exists>c i q m. chosen_server nt asked s c \<and> sess_view s' = insert (c, i, g) (sess_view s) \<and>
           binds_with nt g c i q m \<and> took_offer le m c i s'))"
proof -
  have len: "length (cb_state_list s) = NUM_CB" "nat (cb_num s) = NUM_CB"
    using assms(1,7) by (simp_all add: map_inv_upto_def sess_wf_def)
  obtain sel k where sel: "select_servers (random nt) m NUM_CB NUM_CB (cb_state_list s) = Some (Inr (sel, k))"
    "length sel = m" "k = min (avail_cb NUM_CB (cb_state_list s)) m" "distinct (take k sel)"
    "\<forall>c \<in> set (take k sel). c < NUM_CB \<and> cb_state_list s ! c < CB_EVICTING"
    using select_servers_ok [OF len(1)] by blast
  let ?asked = "take k sel"
  have lk: "length ?asked = k" "k \<le> length sel" using sel(2,3) by simp_all
  show ?thesis
  proof (cases "k = 0")
    case True
    then show ?thesis
      using assms(1,2) sel len by (intro exI [of _ ?asked] exI [of _ "-1"] exI [of _ s])
        (auto simp: IS_single_chunk_map_def keeps_rest_def untouched_def)
  next
    case False
    then obtain s1 fm fs fm' fs' c where
      loop: "for_res (ask_server le nt sel) [0..<k] (s, replicate m (-1), replicate m NUM_CB) = Inr (s1, fm, fs)"
      and mm: "move_max [1..<k] (fm, map int fs) = (fm', fs')"
      and c: "c \<in> set ?asked" "fm' ! 0 = told nt s c" "fs' ! 0 = int c"
      and max: "\<forall>d \<in> set ?asked. told nt s d \<le> told nt s c"
      and s1: "map_inv_upto L s1" "peers_ok s1" "same_session s s1" "asked s s1 c"
      and rest: "\<forall>d < length (cb_list s). d \<notin> set ?asked \<longrightarrow> untouched s s1 d"
      using asking_round [OF assms(1-3), of k sel le NUM_CB] sel(2,4,5) assms(7) lk by auto
    have eq: "IS_single_chunk_map le nt m NUM_CB (int g) s =
        (if told nt s c = 0 then Some (Inr (-1, s1))
         else Some (bind_res (bind_chunk le nt c (int g) s1) (\<lambda>s2. Inr (int g, s2))))"
      using sel(1) len False loop mm c sel(5) assms(7) s1(3)
      by (auto simp: IS_single_chunk_map_def same_session_def)
    have cs: "\<forall>d \<in> set ?asked. d < length (cb_list s) \<and> cb_state_list s ! d < CB_EVICTING" using sel(5) assms(7) by simp
    obtain r s' where fin: "IS_single_chunk_map le nt m NUM_CB (int g) s = Some (Inr (r, s'))" "map_inv_upto L s'" "peers_ok s'"
      "keeps_rest g s s'" "\<forall>d < length (cb_list s). d \<notin> set ?asked \<longrightarrow> untouched s s' d"
      "r = -1 \<and> sess_view s' = sess_view s \<and> (\<forall>c \<in> set ?asked. told nt s c = 0) \<or>
       r = int g \<and> rdma_on s' = DEV_RDMA_ON \<and> (\<exists>c i q m. chosen_server nt ?asked s c \<and>
         sess_view s' = insert (c, i, g) (sess_view s) \<and> binds_with nt g c i q m \<and> took_offer le m c i s')"
      using single_chunk_map_finish [OF s1 rest c(1) max assms(3-6) cs eq] by (elim exE conjE) (rule that)
    have "length ?asked = min (avail_cb NUM_CB (cb_state_list s)) m" using lk(1) sel(3) by simp
    with fin sel(4,5) show ?thesis by (intro exI [of _ ?asked] exI [of _ r] exI [of _ s'] conjI)
  qed
qed

lemma IS_single_chunk_map_ok:
  assumes "map_inv_upto L s" "peers_ok s" "servers_answer nt s" "servers_bind nt g s" "chunk_free g s" "g \<notin> L"
    and "NUM_CB = length (cb_list s)"
  shows "\<exists>asked r s'. IS_single_chunk_map le nt m NUM_CB (int g) s = Some (Inr (r, s')) \<and> map_inv_upto L s' \<and>
     peers_ok s' \<and> keeps_rest g s s' \<and>
     length asked = min (avail_cb NUM_CB (cb_state_list s)) m \<and> distinct asked \<and>
     (\<forall>c \<in> set asked. c < NUM_CB \<and> cb_state_list s ! c < CB_EVICTING) \<and>
     (r = -1 \<and> sess_view s' = sess_view s \<and> (\<forall>c \<in> set asked. told nt s c = 0) \<or>
      r = int g \<and> rdma_on s' = DEV_RDMA_ON \<and>
        (\<exists>c i. chosen_server nt asked s c \<and> sess_view s' = insert (c, i, g) (sess_view s)))"
proof -
  obtain asked r s' where full: "IS_single_chunk_map le nt m NUM_CB (int g) s = Some (Inr (r, s'))" "map_inv_upto L s'" "peers_ok s'"
    "keeps_rest g s s'" "length asked = min (avail_cb NUM_CB (cb_state_list s)) m" "distinct asked"
    "\<forall>c \<in> set asked. c < NUM_CB \<and> cb_state_list s ! c < CB_EVICTING"
    and res: "r = -1 \<and> sess_view s' = sess_view s \<and> (\<forall>c \<in> set asked. told nt s c = 0) \<or>
      r = int g \<and> rdma_on s' = DEV_RDMA_ON \<and> (\<exists>c i q m. chosen_server nt asked s c \<and>
         sess_view s' = insert (c, i, g) (sess_view s) \<and> binds_with nt g c i q m \<and> took_offer le m c i s')"
    using IS_single_chunk_map_full [OF assms, of le m] by (elim exE conjE) (rule that)
  from res have "r = -1 \<and> sess_view s' = sess_view s \<and> (\<forall>c \<in> set asked. told nt s c = 0) \<or>
      r = int g \<and> rdma_on s' = DEV_RDMA_ON \<and> (\<exists>c i. chosen_server nt asked s c \<and> sess_view s' = insert (c, i, g) (sess_view s))"
    by blast
  with full show ?thesis by (intro exI [of _ asked] exI [of _ r] exI [of _ s'] conjI)
qed

text \<open>
  C6: \<open>IS_single_chunk_map\<close>, with servers that answer and an unmapped chunk \<open>g\<close>, always returns, touches no
  memory it should not, keeps the invariant of the placement tables, and does one of two things. It
  returns \<open>-1\<close> and no placement changes: then no server is available, or none of those asked has
  free memory. Or it returns \<open>g\<close>, with the remote memory switched on and exactly one new placement:
  \<open>g\<close> is now on an available server whose reported free memory is the largest among those asked.
\<close>

theorem IS_single_chunk_map_spec:
  assumes "map_inv s" "peers_ok s" "servers_answer nt s" "servers_bind nt g s" "chunk_free g s"
    and "NUM_CB = length (cb_list s)"
  shows "\<exists>asked r s'. IS_single_chunk_map le nt m NUM_CB (int g) s = Some (Inr (r, s')) \<and> map_inv s' \<and>
     length asked = min (avail_cb NUM_CB (cb_state_list s)) m \<and> distinct asked \<and>
     (\<forall>c \<in> set asked. c < NUM_CB \<and> cb_state_list s ! c < CB_EVICTING) \<and>
     (if \<exists>c \<in> set asked. 0 < told nt s c
      then r = int g \<and> rdma_on s' = DEV_RDMA_ON \<and>
           (\<exists>c \<in> set asked. \<exists>i. sess_view s' = insert (c, i, g) (sess_view s) \<and>
              (\<forall>d \<in> set asked. told nt s d \<le> told nt s c))
      else r = -1 \<and> sess_view s' = sess_view s)"
proof -
  have none: "g \<notin> {}" by simp
  obtain asked r s' where r: "IS_single_chunk_map le nt m NUM_CB (int g) s = Some (Inr (r, s'))" "map_inv s'"
    "length asked = min (avail_cb NUM_CB (cb_state_list s)) m" "distinct asked"
    "\<forall>c \<in> set asked. c < NUM_CB \<and> cb_state_list s ! c < CB_EVICTING"
    and res: "r = -1 \<and> sess_view s' = sess_view s \<and> (\<forall>c \<in> set asked. told nt s c = 0) \<or>
      r = int g \<and> rdma_on s' = DEV_RDMA_ON \<and>
        (\<exists>c i. chosen_server nt asked s c \<and> sess_view s' = insert (c, i, g) (sess_view s))"
    using IS_single_chunk_map_ok [OF assms(1-5) none assms(6), of le m] by (elim exE conjE) (rule that)
  from res have "if \<exists>c \<in> set asked. 0 < told nt s c
      then r = int g \<and> rdma_on s' = DEV_RDMA_ON \<and>
           (\<exists>c \<in> set asked. \<exists>i. sess_view s' = insert (c, i, g) (sess_view s) \<and>
              (\<forall>d \<in> set asked. told nt s d \<le> told nt s c))
      else r = -1 \<and> sess_view s' = sess_view s"
    by (auto simp: chosen_server_def)
  with r show ?thesis by blast
qed

text \<open>Three servers, not connected yet, with 0, 1 and 2 GB of free memory.\<close>

definition demo_free :: "nat \<Rightarrow> IS_rdma_info" where
  "demo_free c = (zero_msg FREE_SIZE)\<lparr>size_gb := int c\<rparr>"

definition demo_net :: net where
  "demo_net = \<lparr>verbs_of = \<lambda>_. verbs_good, id_ok = \<lambda>_. True, repost_ret = \<lambda>_. 0,
     hello = \<lambda>c. Some (demo_free c),
     reply = \<lambda>c q. Some (if mtype q = BIND_SINGLE then demo_offer\<lparr>size_gb := size_gb q\<rparr> else demo_free c),
     random = \<lambda>_. 0, rdma_buf_ok = \<lambda>_ _. True\<rparr>"

lemma demo_session_idle: "cb_state_list (demo_session n) = replicate n CB_IDLE"
  "cb_index_map (demo_session n) = replicate STACKBD_SIZE_G (-1)"
  by (simp_all add: demo_session_def IS_session_create_def Let_def NO_CB_MAPPED_def)

lemma demo_session_peers: "peers_ok (demo_session n)"
  by (simp add: peers_ok_def demo_session_cb demo_session_idle zero_cb_def zero_hw_def hw_released_def
      zero_rc_def no_mapping_def)

lemma demo_net_answers: "servers_answer demo_net s"
  by (auto simp: servers_answer_def server_answers_def demo_net_def free_size_msg_def demo_free_def msg_wf_def zero_msg_def)

lemma demo_net_told: "c < n \<Longrightarrow> told demo_net (demo_session n) c = int c"
  by (simp add: told_def demo_session_idle demo_net_def demo_free_def)

lemma offered_slot_size [simp]: "offered_slot (m\<lparr>size_gb := z\<rparr>) = offered_slot m"
  by (simp add: offered_slot_def)

lemma demo_net_binds: "servers_bind demo_net g (demo_session n)"
proof -
  have "mtype demo_offer = INFO_SINGLE" "msg_wf demo_offer" "3 < MAX_MR_SIZE_GB"
    by (simp_all add: demo_offer_def msg_wf_def zero_msg_def MAX_MR_SIZE_GB_def)
  then show ?thesis
    by (auto simp: servers_bind_def demo_net_def demo_session_idle demo_session_cb demo_offer_slot msg_wf_def)
qed

theorem IS_single_chunk_map_spec_witness:
  "\<exists>s' i. IS_single_chunk_map True demo_net 3 3 5 (demo_session 3) = Some (Inr (5, s')) \<and> map_inv s' \<and>
     sess_view s' = {(2, i, 5)}"
proof -
  have free: "chunk_free 5 (demo_session 3)"
    by (simp add: chunk_free_def demo_session_idle STACKBD_SIZE_G_def NO_CB_MAPPED_def)
  have empty: "sess_view (demo_session 3) = {}"
    using IS_session_create_map_inv(2) [of True "\<lambda>_. True" 1 "replicate 3 9400" "demo_session 3"]
    by (simp add: demo_session_def IS_session_create_def Let_def)
  have avail: "avail_cb 3 (cb_state_list (demo_session 3)) = 3"
    unfolding demo_session_idle by code_simp
  let ?told = "told demo_net (demo_session 3)"
  have three: "3 = length (cb_list (demo_session 3))" by (simp add: demo_session_cb)
  obtain asked r s' where run: "IS_single_chunk_map True demo_net 3 3 (int 5) (demo_session 3) = Some (Inr (r, s'))"
    "map_inv s'" and asked: "length asked = min (avail_cb 3 (cb_state_list (demo_session 3))) 3" "distinct asked"
      "\<forall>c \<in> set asked. c < 3 \<and> cb_state_list (demo_session 3) ! c < CB_EVICTING"
    and res: "if \<exists>c \<in> set asked. 0 < ?told c
      then r = int 5 \<and> rdma_on s' = DEV_RDMA_ON \<and>
        (\<exists>c \<in> set asked. \<exists>i. sess_view s' = insert (c, i, 5) (sess_view (demo_session 3)) \<and>
           (\<forall>d \<in> set asked. ?told d \<le> ?told c))
      else r = -1 \<and> sess_view s' = sess_view (demo_session 3)"
    using IS_single_chunk_map_spec [OF demo_session_inv demo_session_peers demo_net_answers demo_net_binds
        free three, where le = True and m = 3]
    by (elim exE conjE) (rule that)
  have "set asked \<subseteq> {..<3}" using asked(3) by auto
  moreover have "card (set asked) = card {..<3::nat}" using asked(1,2) avail by (simp add: distinct_card)
  ultimately have "set asked = {..<3}" by (intro card_subset_eq) simp_all
  then have asked': "set asked = {0, 1, 2}" by (simp add: numeral_3_eq_3 numeral_2_eq_2 lessThan_Suc insert_commute)
  have told: "?told 0 = 0" "?told (Suc 0) = 1" "?told 2 = 2" by (simp_all add: demo_net_told)
  show ?thesis
    using run res unfolding asked' empty by (auto simp: told)
qed

end
