(* ===== verification/Evict.thy ===== *)
theory Evict
  imports Server_Select
begin

text \<open>
  Giving chunks back to a server that asks for them: the eviction thread of a control block
  (\<open>evict_handler\<close>) with the activity report it sends, the wait for transfers in flight, and the search
  for a new home of every evicted chunk. What the servers answer during each call of
  \<open>IS_single_chunk_map\<close> is given by \<open>env\<close>, which may depend on the chunk and on the session.
\<close>

section \<open>The activity report\<close>

definition IS_send_activity :: "bool \<Rightarrow> nat \<Rightarrow> IS_session \<Rightarrow> IS_session res" where
  "IS_send_activity le c s =
     (let rc = rc_at s c; sb = send_buf (cb_at s c)
      in bind_res (for_res (\<lambda>i bs.
             bind_res (arr_get (chunk_map rc) (int i)) (\<lambda>g.
               if g \<noteq> -1
               then bind_res (arr_get (last_ops s) g) (\<lambda>ops. arr_set bs (int i) (bd_htonll le (ops + 1)))
               else arr_set bs (int i) 0)) [0..<MAX_MR_SIZE_GB] (buf sb))
           (\<lambda>bs. Inr (upd_cb c (\<lambda>cb. cb\<lparr>send_buf := sb\<lparr>mtype := ACTIVITY, buf := bs\<rparr>\<rparr>) s)))"

section \<open>Waiting for transfers in flight\<close>

definition in_flight_ctx :: "rdma_ctx \<Rightarrow> bool" where
  "in_flight_ctx ctx \<longleftrightarrow> in_flight ctx = CTX_R_IN_FLIGHT \<or> in_flight ctx = CTX_W_IN_FLIGHT"

text \<open>One pass over the contexts of server \<open>c\<close>: is one in flight to a chunk that is being given up?\<close>

fun scan_ctxs :: "int list \<Rightarrow> rdma_ctx list \<Rightarrow> bool res" where
  "scan_ctxs cm [] = Inr False"
| "scan_ctxs cm (ctx # ctxs) =
     (if in_flight_ctx ctx
      then bind_res (arr_get cm (ctx_chunk_index ctx)) (\<lambda>g. if g = -1 then Inr True else scan_ctxs cm ctxs)
      else scan_ctxs cm ctxs)"

fun scan_conns :: "int list \<Rightarrow> nat \<Rightarrow> IS_connection list \<Rightarrow> bool res" where
  "scan_conns cm c [] = Inr False"
| "scan_conns cm c (conn # conns) =
     bind_res (arr_get (ctx_pools conn) (int c)) (\<lambda>p.
       if length (ctx_pool p) < IS_QUEUE_DEPTH then Inl Out_Of_Bounds
       else bind_res (scan_ctxs cm (take IS_QUEUE_DEPTH (ctx_pool p))) (\<lambda>err.
              if err then Inr True else scan_conns cm c conns))"

definition IS_chunk_wait_in_flight_requests :: "nat \<Rightarrow> IS_session \<Rightarrow> unit res" where
  "IS_chunk_wait_in_flight_requests c s =
     bind_res (scan_conns (chunk_map (rc_at s c)) c (IS_conns s)) (\<lambda>err. if err then Inl Blocked else Inr ())"

section \<open>The eviction thread\<close>

text \<open>The chunks to stop are taken out of both maps; \<open>evict_list\<close> collects their session chunks.\<close>

definition stop_chunk :: "nat \<Rightarrow> nat \<Rightarrow> IS_session \<times> int list \<Rightarrow> (IS_session \<times> int list) res" where
  "stop_chunk c i = (\<lambda>(s, evict_list).
     let rc = rc_at s c; sb = send_buf (cb_at s c) in
     bind_res (arr_get (evict_chunk_map rc) (int i)) (\<lambda>mark.
       if mark = CHR ''s''
       then bind_res (arr_get (chunk_map rc) (int i)) (\<lambda>g.
            bind_res (arr_set (cb_index_map s) g NO_CB_MAPPED) (\<lambda>cim.
            bind_res (arr_set evict_list g 1) (\<lambda>ev.
            bind_res (arr_set (chunk_map rc) (int i) (-1)) (\<lambda>cm.
            bind_res (arr_set (rkey sb) (int i) 1) (\<lambda>rk.
              Inr (upd_cb c (\<lambda>cb. cb\<lparr>remote_chunk := rc\<lparr>chunk_map := cm\<rparr>, send_buf := sb\<lparr>rkey := rk\<rparr>\<rparr>)
                     (s\<lparr>cb_index_map := cim\<rparr>), ev))))))
       else bind_res (arr_set (rkey sb) (int i) 0) (\<lambda>rk.
              Inr (upd_cb c (\<lambda>cb. cb\<lparr>send_buf := sb\<lparr>rkey := rk\<rparr>\<rparr>) s, evict_list))))"

text \<open>After the wait: the bitmaps are cleared and the chunks marked as unmapped.\<close>

definition clear_chunk :: "nat \<Rightarrow> nat \<Rightarrow> IS_session \<Rightarrow> IS_session res" where
  "clear_chunk c i s =
     (let rc = rc_at s c in
      bind_res (arr_get (evict_chunk_map rc) (int i)) (\<lambda>mark.
        if mark = CHR ''s''
        then bind_res (arr_get (chunk_list rc) (int i)) (\<lambda>ch.
             bind_res (case bitmap_g ch of None \<Rightarrow> Inl Null_Deref | Some bm \<Rightarrow> IS_bitmap_init bm) (\<lambda>bm.
             bind_res (arr_set (chunk_list rc) (int i) (ch\<lparr>bitmap_g := Some bm\<rparr>)) (\<lambda>cl.
             bind_res (arr_set (remote_mapped rc) (int i) CHUNK_UNMAPPED) (\<lambda>rm.
               Inr (upd_rc c (\<lambda>rc. rc\<lparr>chunk_list := cl, remote_mapped := rm\<rparr>) s)))))
        else Inr s))"

text \<open>One evicted session chunk: it is entered in the list of unmapped chunks and mapped anew.\<close>

definition release_chunk :: "nat \<Rightarrow> IS_session \<Rightarrow> IS_session res" where
  "release_chunk g s =
     bind_res (arr_set (chunk_map_cb_chunk s) (int g) (-1)) (\<lambda>mcc.
     bind_res (arr_set (unmapped_chunk_list s) (free_chunk_index s + 1) (int g)) (\<lambda>ucl.
       Inr (s\<lparr>chunk_map_cb_chunk := mcc, free_chunk_index := free_chunk_index s + 1,
              unmapped_chunk_list := ucl\<rparr>)))"

definition remap_chunk ::
  "bool \<Rightarrow> (nat \<Rightarrow> IS_session \<Rightarrow> net) \<Rightarrow> nat \<Rightarrow> nat \<Rightarrow> nat \<Rightarrow> IS_session \<Rightarrow> IS_session res option" where
  "remap_chunk le env m NUM_CB g s =
     bind_ro (IS_single_chunk_map le (env g s) m NUM_CB (int g) s) (\<lambda>(_, s'). Some (Inr s'))"

definition remap_evicted ::
  "bool \<Rightarrow> (nat \<Rightarrow> IS_session \<Rightarrow> net) \<Rightarrow> nat \<Rightarrow> nat \<Rightarrow> int list \<Rightarrow> nat \<Rightarrow> IS_session \<Rightarrow> IS_session res option" where
  "remap_evicted le env m NUM_CB evict_list g s =
     bind_ro (Some (arr_get evict_list (int g))) (\<lambda>e.
       if e = 1 then bind_ro (Some (release_chunk g s)) (remap_chunk le env m NUM_CB g)
       else Some (Inr s))"

text \<open>
  One round of \<open>evict_handler\<close> from the STOP message on (the round begins with \<open>IS_send_activity\<close>).
\<close>

definition set_cb_state :: "nat \<Rightarrow> cb_state \<Rightarrow> IS_session \<Rightarrow> IS_session res" where
  "set_cb_state c st s =
     bind_res (arr_set (cb_state_list s) (cb_index (cb_at s c)) st) (\<lambda>l. Inr (s\<lparr>cb_state_list := l\<rparr>))"

definition evict_stop :: "nat \<Rightarrow> IS_session \<Rightarrow> (IS_session \<times> int list) res" where
  "evict_stop c s =
     for_res (stop_chunk c) [0..<MAX_MR_SIZE_GB]
       (upd_cb c (\<lambda>cb. cb\<lparr>send_buf := (send_buf cb)\<lparr>rkey := map (\<lambda>_. 0) (rkey (send_buf cb))\<rparr>\<rparr>)
          (s\<lparr>trigger_enable := TRIGGER_OFF\<rparr>), replicate STACKBD_SIZE_G (-1))"

definition evict_release :: "nat \<Rightarrow> int \<Rightarrow> IS_session \<Rightarrow> IS_session res" where
  "evict_release c size_g s =
     bind_res (for_res (clear_chunk c) [0..<MAX_MR_SIZE_GB] s) (\<lambda>s.
     bind_res (set_cb_state c CB_EVICTING (IS_send_done c size_g
         (upd_rc c (\<lambda>rc. rc\<lparr>chunk_size_g := chunk_size_g rc - size_g, shrink_size_g := 0\<rparr>)
            (s\<lparr>mapped_cb_num := mapped_cb_num s - size_g\<rparr>)))) (\<lambda>s.
       Inr (upd_rc c (\<lambda>rc. rc\<lparr>c_state := C_READY\<rparr>) s)))"

definition evict_handler_round ::
  "bool \<Rightarrow> (nat \<Rightarrow> IS_session \<Rightarrow> net) \<Rightarrow> nat \<Rightarrow> nat \<Rightarrow> nat \<Rightarrow> IS_session \<Rightarrow> IS_session res option" where
  "evict_handler_round le env m NUM_CB c s =
     (let size_g = shrink_size_g (rc_at s c)
      in if size_g = 0 then Some (Inr (upd_rc c (\<lambda>rc. rc\<lparr>c_state := C_READY\<rparr>) s))
         else bind_ro (Some (evict_stop c s)) (\<lambda>(s1, evict_list).
              bind_ro (Some (IS_chunk_wait_in_flight_requests c s1)) (\<lambda>_.
              bind_ro (Some (evict_release c size_g s1)) (\<lambda>s2.
              bind_ro (for_ro (remap_evicted le env m NUM_CB evict_list) [0..<STACKBD_SIZE_G] s2) (\<lambda>s3.
              bind_ro (Some (set_cb_state c CB_MAPPED s3)) (\<lambda>s4.
                Some (Inr (s4\<lparr>trigger_enable := TRIGGER_ON\<rparr>))))))))"

section \<open>What the two loops compute\<close>

abbreviation marked :: "IS_session \<Rightarrow> nat \<Rightarrow> nat \<Rightarrow> bool" where
  "marked s c i \<equiv> evict_chunk_map (rc_at s c) ! i = CHR ''s''"

text \<open>The session chunks behind the first \<open>j\<close> marks.\<close>

definition evicted_upto :: "IS_session \<Rightarrow> nat \<Rightarrow> nat \<Rightarrow> nat set" where
  "evicted_upto s c j = {g. \<exists>i < j. marked s c i \<and> chunk_map (rc_at s c) ! i = int g}"

abbreviation evicted :: "IS_session \<Rightarrow> nat \<Rightarrow> nat set" where
  "evicted s c \<equiv> evicted_upto s c MAX_MR_SIZE_GB"

lemma evicted_upto_Suc:
  "evicted_upto s c (Suc j) =
     evicted_upto s c j \<union> (if marked s c j then {g. chunk_map (rc_at s c) ! j = int g} else {})"
  by (auto simp: evicted_upto_def less_Suc_eq)

text \<open>The marks a STOP message may set: only chunks that are mapped here, as many as it says.\<close>

definition marks_ok :: "IS_session \<Rightarrow> nat \<Rightarrow> bool" where
  "marks_ok s c \<longleftrightarrow>
     (\<forall>i < MAX_MR_SIZE_GB. marked s c i \<longrightarrow> chunk_map (rc_at s c) ! i \<noteq> -1) \<and>
     shrink_size_g (rc_at s c) = int (card {i. i < MAX_MR_SIZE_GB \<and> marked s c i}) \<and>
     msg_wf (send_buf (cb_at s c))"

definition stopped :: "nat \<Rightarrow> int list \<Rightarrow> u32 list \<Rightarrow> int list \<Rightarrow> IS_session \<Rightarrow> IS_session" where
  "stopped c cm rk cim s =
     upd_cb c (\<lambda>cb. cb\<lparr>remote_chunk := (remote_chunk cb)\<lparr>chunk_map := cm\<rparr>, send_buf := (send_buf cb)\<lparr>rkey := rk\<rparr>\<rparr>)
       (s\<lparr>trigger_enable := TRIGGER_OFF, cb_index_map := cim\<rparr>)"

lemma stopped_simps [simp]:
  assumes "c < length (cb_list s)"
  shows "cb_at (stopped c cm rk cim s) c =
      (cb_at s c)\<lparr>remote_chunk := (rc_at s c)\<lparr>chunk_map := cm\<rparr>, send_buf := (send_buf (cb_at s c))\<lparr>rkey := rk\<rparr>\<rparr>"
    "d \<noteq> c \<Longrightarrow> cb_at (stopped c cm rk cim s) d = cb_at s d"
    "cb_index_map (stopped c cm rk cim s) = cim"
    "length (cb_list (stopped c cm rk cim s)) = length (cb_list s)"
    "chunk_map_cb_chunk (stopped c cm rk cim s) = chunk_map_cb_chunk s"
    "unmapped_chunk_list (stopped c cm rk cim s) = unmapped_chunk_list s"
    "free_chunk_index (stopped c cm rk cim s) = free_chunk_index s"
    "cb_state_list (stopped c cm rk cim s) = cb_state_list s"
    "cb_num (stopped c cm rk cim s) = cb_num s" "IS_conns (stopped c cm rk cim s) = IS_conns s"
  using assms by (simp_all add: stopped_def)

text \<open>The state of the stopping loop before round \<open>j\<close>.\<close>

definition stop_inv :: "nat \<Rightarrow> IS_session \<Rightarrow> nat \<Rightarrow> IS_session \<times> int list \<Rightarrow> bool" where
  "stop_inv c s j = (\<lambda>(t, ev). \<exists>cm rk cim. t = stopped c cm rk cim s \<and>
     length cm = MAX_MR_SIZE_GB \<and> length rk = MAX_MR_SIZE_GB \<and> length cim = STACKBD_SIZE_G \<and>
     length ev = STACKBD_SIZE_G \<and>
     (\<forall>i < MAX_MR_SIZE_GB. cm ! i = (if i < j \<and> marked s c i then -1 else chunk_map (rc_at s c) ! i) \<and>
                           rk ! i = (if i < j \<and> marked s c i then 1 else 0)) \<and>
     (\<forall>g < STACKBD_SIZE_G. cim ! g = (if g \<in> evicted_upto s c j then -1 else cb_index_map s ! g) \<and>
                           ev ! g = (if g \<in> evicted_upto s c j then 1 else -1)))"

text \<open>The session chunk behind a mapped slot.\<close>

lemma mapped_slot:
  assumes "map_inv_upto L s" "c < length (cb_list s)" "rc_sized (rc_at s c) MAX_MR_SIZE_GB"
    "i < MAX_MR_SIZE_GB" "chunk_map (rc_at s c) ! i \<noteq> -1"
  obtains g where "chunk_map (rc_at s c) ! i = int g" "g < STACKBD_SIZE_G" "(c, i, g) \<in> sess_view s"
proof -
  have "-1 \<le> chunk_map (rc_at s c) ! i"
    using map_invD(2)[OF assms(1,2)] assms(3,4) by (simp add: rc_inv_def rc_sized_def)
  with assms(5) have "0 \<le> chunk_map (rc_at s c) ! i" by linarith
  then obtain g where g: "chunk_map (rc_at s c) ! i = int g" by (rule nonneg_int_cases)
  then have "(c, i, g) \<in> cb_view s"
    using assms(2-4) by (simp add: cb_view_def rc_sized_def)
  then have "(c, i, g) \<in> sess_view s" using map_invD(3)[OF assms(1)] by simp
  moreover from this have "g < STACKBD_SIZE_G"
    using map_invD(1)[OF assms(1)] by (simp add: sess_view_def sess_wf_def)
  ultimately show thesis using that g by blast
qed

lemma stop_chunk_step:
  assumes inv: "map_inv s" and c: "c < length (cb_list s)" "rc_sized (rc_at s c) MAX_MR_SIZE_GB"
    and marks: "marks_ok s c" and j: "j < MAX_MR_SIZE_GB" and P: "stop_inv c s j st"
  shows "\<exists>st'. stop_chunk c j st = Inr st' \<and> stop_inv c s (Suc j) st'"
proof -
  obtain t ev where st: "st = (t, ev)" by (cases st)
  with P obtain cm rk cim where t: "t = stopped c cm rk cim s"
    and len: "length cm = MAX_MR_SIZE_GB" "length rk = MAX_MR_SIZE_GB" "length cim = STACKBD_SIZE_G"
      "length ev = STACKBD_SIZE_G"
    and cm: "\<forall>i < MAX_MR_SIZE_GB. cm ! i = (if i < j \<and> marked s c i then -1 else chunk_map (rc_at s c) ! i) \<and>
                           rk ! i = (if i < j \<and> marked s c i then 1 else 0)"
    and cim: "\<forall>g < STACKBD_SIZE_G. cim ! g = (if g \<in> evicted_upto s c j then -1 else cb_index_map s ! g) \<and>
                           ev ! g = (if g \<in> evicted_upto s c j then 1 else -1)"
    by (auto simp: stop_inv_def)
  have ecm: "length (evict_chunk_map (rc_at s c)) = MAX_MR_SIZE_GB" using c(2) by (simp add: rc_sized_def)
  show ?thesis
  proof (cases "marked s c j")
    case True
    then have "chunk_map (rc_at s c) ! j \<noteq> -1" using marks j by (simp add: marks_ok_def)
    then obtain g where g: "chunk_map (rc_at s c) ! j = int g" "g < STACKBD_SIZE_G"
      using mapped_slot [OF inv c j] by blast
    let ?t = "stopped c (cm[j := -1]) (rk[j := 1]) (cim[g := -1]) s"
    have "stop_chunk c j st = Inr (?t, ev[g := 1])"
      using st t True j ecm len cm g c(1)
      by (simp add: stop_chunk_def Let_def NO_CB_MAPPED_def) (simp add: stopped_def upd_cb_def)
    moreover have "stop_inv c s (Suc j) (?t, ev[g := 1])"
      unfolding stop_inv_def prod.case
      by (rule exI [of _ "cm[j := -1]"], rule exI [of _ "rk[j := 1]"], rule exI [of _ "cim[g := -1]"])
        (use len cm cim g True j in \<open>auto simp: nth_list_update evicted_upto_Suc less_Suc_eq\<close>)
    ultimately show ?thesis by blast
  next
    case False
    let ?t = "stopped c cm (rk[j := 0]) cim s"
    have "stop_chunk c j st = Inr (?t, ev)"
      using st t False j ecm len c(1)
      by (simp add: stop_chunk_def Let_def) (simp add: stopped_def upd_cb_def)
    moreover have "stop_inv c s (Suc j) (?t, ev)"
      unfolding stop_inv_def prod.case
      by (rule exI [of _ cm], rule exI [of _ "rk[j := 0]"], rule exI [of _ cim])
        (use len cm cim False j in \<open>auto simp: nth_list_update evicted_upto_Suc less_Suc_eq\<close>)
    ultimately show ?thesis by blast
  qed
qed

lemma evict_stop_ok:
  assumes inv: "map_inv s" and c: "c < length (cb_list s)" "rc_sized (rc_at s c) MAX_MR_SIZE_GB"
    and marks: "marks_ok s c"
  shows "\<exists>st. evict_stop c s = Inr st \<and> stop_inv c s MAX_MR_SIZE_GB st"
  unfolding evict_stop_def
proof (rule for_res_inv [where P = "stop_inv c s"])
  show "stop_inv c s 0 (upd_cb c (\<lambda>cb. cb\<lparr>send_buf := (send_buf cb)\<lparr>rkey := map (\<lambda>_. 0) (rkey (send_buf cb))\<rparr>\<rparr>)
          (s\<lparr>trigger_enable := TRIGGER_OFF\<rparr>), replicate STACKBD_SIZE_G (-1))"
    unfolding stop_inv_def prod.case
    by (rule exI [of _ "chunk_map (rc_at s c)"], rule exI [of _ "map (\<lambda>_. 0) (rkey (send_buf (cb_at s c)))"],
        rule exI [of _ "cb_index_map s"])
      (use c marks map_invD(1)[OF inv] in
        \<open>simp add: stopped_def upd_cb_def rc_sized_def sess_wf_def marks_ok_def msg_wf_def evicted_upto_def\<close>)
next
  fix j st
  assume "j < MAX_MR_SIZE_GB" "stop_inv c s j st"
  then show "\<exists>st'. stop_chunk c j st = Inr st' \<and> stop_inv c s (Suc j) st'"
    using stop_chunk_step [OF assms] by blast
qed

text \<open>The clearing loop.\<close>

definition clear_inv :: "nat \<Rightarrow> IS_session \<Rightarrow> nat \<Rightarrow> IS_session \<Rightarrow> bool" where
  "clear_inv c s j t \<longleftrightarrow> (\<exists>cl rm. t = upd_rc c (\<lambda>rc. rc\<lparr>chunk_list := cl, remote_mapped := rm\<rparr>) s \<and>
     length cl = MAX_MR_SIZE_GB \<and> length rm = MAX_MR_SIZE_GB \<and>
     (\<forall>i < MAX_MR_SIZE_GB.
        cl ! i = (if i < j \<and> marked s c i
                  then (chunk_list (rc_at s c) ! i)\<lparr>bitmap_g := Some (replicate BITMAP_INT_SIZE 0)\<rparr>
                  else chunk_list (rc_at s c) ! i) \<and>
        rm ! i = (if i < j \<and> marked s c i then CHUNK_UNMAPPED else remote_mapped (rc_at s c) ! i)))"

lemma upd_rc_twice: "upd_rc c f (upd_rc c g s) = upd_rc c (\<lambda>rc. f (g rc)) s"
  by (cases "c < length (cb_list s)") (simp_all add: upd_rc_def upd_cb_def list_update_beyond)

lemma clear_chunks_ok:
  assumes c: "c < length (cb_list s)" "rc_sized (rc_at s c) MAX_MR_SIZE_GB"
    and bm: "\<forall>i < MAX_MR_SIZE_GB. marked s c i \<longrightarrow> has_bitmap (chunk_list (rc_at s c) ! i)"
  shows "\<exists>t. for_res (clear_chunk c) [0..<MAX_MR_SIZE_GB] s = Inr t \<and> clear_inv c s MAX_MR_SIZE_GB t"
proof (rule for_res_inv [where P = "clear_inv c s"])
  have "upd_rc c (\<lambda>rc. rc\<lparr>chunk_list := chunk_list (rc_at s c), remote_mapped := remote_mapped (rc_at s c)\<rparr>) s = s"
    by (simp add: upd_rc_def upd_cb_def)
  then show "clear_inv c s 0 s"
    using c unfolding clear_inv_def
    by (intro exI [of _ "chunk_list (rc_at s c)"] exI [of _ "remote_mapped (rc_at s c)"]) (simp add: rc_sized_def)
next
  fix j t
  assume j: "j < MAX_MR_SIZE_GB" and "clear_inv c s j t"
  then obtain cl rm where t: "t = upd_rc c (\<lambda>rc. rc\<lparr>chunk_list := cl, remote_mapped := rm\<rparr>) s"
    and len: "length cl = MAX_MR_SIZE_GB" "length rm = MAX_MR_SIZE_GB"
    and val: "\<forall>i < MAX_MR_SIZE_GB.
        cl ! i = (if i < j \<and> marked s c i
                  then (chunk_list (rc_at s c) ! i)\<lparr>bitmap_g := Some (replicate BITMAP_INT_SIZE 0)\<rparr>
                  else chunk_list (rc_at s c) ! i) \<and>
        rm ! i = (if i < j \<and> marked s c i then CHUNK_UNMAPPED else remote_mapped (rc_at s c) ! i)"
    by (auto simp: clear_inv_def)
  have ecm: "length (evict_chunk_map (rc_at s c)) = MAX_MR_SIZE_GB" using c(2) by (simp add: rc_sized_def)
  let ?ch = "(chunk_list (rc_at s c) ! j)\<lparr>bitmap_g := Some (replicate BITMAP_INT_SIZE 0)\<rparr>"
  let ?cl = "if marked s c j then cl[j := ?ch] else cl"
  let ?rm = "if marked s c j then rm[j := CHUNK_UNMAPPED] else rm"
  have "clear_chunk c j t = Inr (upd_rc c (\<lambda>rc. rc\<lparr>chunk_list := ?cl, remote_mapped := ?rm\<rparr>) s)"
  proof (cases "marked s c j")
    case True
    then obtain bm where "bitmap_g (chunk_list (rc_at s c) ! j) = Some bm" "bitmap_wf bm"
      using bm j by (auto simp: has_bitmap_def split: option.splits)
    with True t c(1) j ecm len val show ?thesis
      by (simp add: clear_chunk_def Let_def upd_rc_twice IS_bitmap_init_eq)
  next
    case False
    with t c(1) j ecm show ?thesis by (simp add: clear_chunk_def Let_def)
  qed
  moreover have "clear_inv c s (Suc j) (upd_rc c (\<lambda>rc. rc\<lparr>chunk_list := ?cl, remote_mapped := ?rm\<rparr>) s)"
    unfolding clear_inv_def by (intro exI [of _ ?cl] exI [of _ ?rm])
      (use len val j in \<open>auto simp: nth_list_update less_Suc_eq\<close>)
  ultimately show "\<exists>t'. clear_chunk c j t = Inr t' \<and> clear_inv c s (Suc j) t'" by blast
qed

section \<open>The session with chunks in limbo\<close>

text \<open>Server \<open>c\<close> has lost its marked chunks and is now in state \<open>st\<close>; nothing else has changed.\<close>

definition gave_up :: "cb_state \<Rightarrow> nat \<Rightarrow> IS_session \<Rightarrow> IS_session \<Rightarrow> bool" where
  "gave_up st c s t \<longleftrightarrow>
     length (cb_list t) = length (cb_list s) \<and> (\<forall>d. d \<noteq> c \<longrightarrow> cb_at t d = cb_at s d) \<and>
     cb_index (cb_at t c) = cb_index (cb_at s c) \<and> state (cb_at t c) = state (cb_at s c) \<and>
     rc_sized (rc_at t c) MAX_MR_SIZE_GB \<and>
     (\<forall>i < MAX_MR_SIZE_GB.
        chunk_map (rc_at t c) ! i = (if marked s c i then -1 else chunk_map (rc_at s c) ! i) \<and>
        remote_mapped (rc_at t c) ! i = (if marked s c i then CHUNK_UNMAPPED else remote_mapped (rc_at s c) ! i) \<and>
        chunk_list (rc_at t c) ! i =
          (if marked s c i then (chunk_list (rc_at s c) ! i)\<lparr>bitmap_g := Some (replicate BITMAP_INT_SIZE 0)\<rparr>
           else chunk_list (rc_at s c) ! i)) \<and>
     chunk_size_g (rc_at t c) = chunk_size_g (rc_at s c) - shrink_size_g (rc_at s c) \<and>
     length (cb_index_map t) = STACKBD_SIZE_G \<and>
     (\<forall>g < STACKBD_SIZE_G. cb_index_map t ! g = (if g \<in> evicted s c then -1 else cb_index_map s ! g)) \<and>
     chunk_map_cb_chunk t = chunk_map_cb_chunk s \<and> unmapped_chunk_list t = unmapped_chunk_list s \<and>
     free_chunk_index t = free_chunk_index s \<and> cb_num t = cb_num s \<and>
     cb_state_list t = (cb_state_list s)[c := st]"

lemma gave_upD:
  assumes "gave_up st c s t"
  shows "length (cb_list t) = length (cb_list s)" "d \<noteq> c \<Longrightarrow> cb_at t d = cb_at s d"
    "rc_sized (rc_at t c) MAX_MR_SIZE_GB"
    "i < MAX_MR_SIZE_GB \<Longrightarrow> chunk_map (rc_at t c) ! i = (if marked s c i then -1 else chunk_map (rc_at s c) ! i)"
    "length (cb_index_map t) = STACKBD_SIZE_G"
    "g < STACKBD_SIZE_G \<Longrightarrow> cb_index_map t ! g = (if g \<in> evicted s c then -1 else cb_index_map s ! g)"
    "chunk_map_cb_chunk t = chunk_map_cb_chunk s"
  using assms by (simp_all add: gave_up_def)

lemma count_if_card: "count_if P xs = int (card {i. i < length xs \<and> P (xs ! i)})"
  by (simp add: count_if_def length_filter_conv_card)

text \<open>The placements of the marked chunks are gone from both views, the others are kept.\<close>

lemma sess_view_unique: "(c, k, g) \<in> sess_view s \<Longrightarrow> (d, l, g) \<in> sess_view s \<Longrightarrow> d = c \<and> l = k"
  by (simp add: sess_view_def)

lemma evicted_iff:
  assumes "map_inv s" "c < length (cb_list s)" "rc_sized (rc_at s c) MAX_MR_SIZE_GB" "(d, k, g) \<in> sess_view s"
  shows "g \<in> evicted s c \<longleftrightarrow> d = c \<and> marked s c k"
proof
  assume "g \<in> evicted s c"
  then obtain i where i: "i < MAX_MR_SIZE_GB" "marked s c i" "chunk_map (rc_at s c) ! i = int g"
    by (auto simp: evicted_upto_def)
  then have "(c, i, g) \<in> cb_view s" using assms(2,3) by (simp add: cb_view_def rc_sized_def)
  with map_invD(3)[OF assms(1)] assms(4) i(2) show "d = c \<and> marked s c k" using sess_view_unique by blast
next
  assume d: "d = c \<and> marked s c k"
  have "(d, k, g) \<in> cb_view s" using assms(4) map_invD(3)[OF assms(1)] by simp
  then have "k < MAX_MR_SIZE_GB" "chunk_map (rc_at s c) ! k = int g"
    using d assms(3) by (simp_all add: cb_view_def rc_sized_def)
  with d show "g \<in> evicted s c" by (auto simp: evicted_upto_def)
qed

definition kept_view :: "nat \<Rightarrow> IS_session \<Rightarrow> (nat \<times> nat \<times> nat) set" where
  "kept_view c s = {(d, k, g). (d, k, g) \<in> sess_view s \<and> \<not> (d = c \<and> marked s c k)}"

lemma views_gave_up:
  assumes inv: "map_inv s" and c: "c < length (cb_list s)" "rc_sized (rc_at s c) MAX_MR_SIZE_GB"
    and t: "gave_up st c s t"
  shows "sess_view t = kept_view c s" and "cb_view t = kept_view c s"
proof -
  have len: "length (cb_index_map s) = STACKBD_SIZE_G" using map_invD(1)[OF inv] by (simp add: sess_wf_def)
  have "(d, k, g) \<in> sess_view t \<longleftrightarrow> (d, k, g) \<in> sess_view s \<and> g \<notin> evicted s c" for d k g
    using gave_upD(5)[OF t] gave_upD(6)[OF t, of g] gave_upD(7)[OF t] len by (auto simp: sess_view_def split: if_splits)
  moreover have "(d, k, g) \<in> sess_view s \<and> g \<notin> evicted s c \<longleftrightarrow> (d, k, g) \<in> kept_view c s" for d k g
    using evicted_iff [OF inv c] by (auto simp: kept_view_def)
  ultimately show "sess_view t = kept_view c s" by (auto simp: set_eq_iff)
  have "(d, k, g) \<in> cb_view t \<longleftrightarrow> (d, k, g) \<in> cb_view s \<and> \<not> (d = c \<and> marked s c k)" for d k g
  proof (cases "d = c")
    case True
    have "length (chunk_map (rc_at t c)) = MAX_MR_SIZE_GB" "length (chunk_map (rc_at s c)) = MAX_MR_SIZE_GB"
      using gave_upD(3)[OF t] c(2) by (simp_all add: rc_sized_def)
    with True c(1) show ?thesis
      using gave_upD(1)[OF t] gave_upD(4)[OF t, of k] by (auto simp: cb_view_def)
  next
    case False
    then show ?thesis using gave_upD(1,2)[OF t] by (simp add: cb_view_def)
  qed
  then show "cb_view t = kept_view c s"
    using map_invD(3)[OF inv] by (auto simp: set_eq_iff kept_view_def)
qed

lemma rc_inv_gave_up:
  assumes inv: "map_inv s" and c: "c < length (cb_list s)" "rc_sized (rc_at s c) MAX_MR_SIZE_GB"
    and marks: "marks_ok s c" and t: "gave_up st c s t"
  shows "rc_inv (rc_at t c)"
proof -
  let ?A = "{i. i < MAX_MR_SIZE_GB \<and> chunk_map (rc_at s c) ! i \<noteq> -1}"
  let ?M = "{i. i < MAX_MR_SIZE_GB \<and> marked s c i}"
  have len: "length (chunk_map (rc_at t c)) = MAX_MR_SIZE_GB" "length (chunk_map (rc_at s c)) = MAX_MR_SIZE_GB"
    using t c by (simp_all add: gave_up_def rc_sized_def)
  have rs: "rc_inv (rc_at s c)" using map_invD(2)[OF inv c(1)] .
  have "{i. i < MAX_MR_SIZE_GB \<and> chunk_map (rc_at t c) ! i \<noteq> -1} = ?A - ?M"
    using gave_upD(4)[OF t] by (auto split: if_splits)
  moreover have "?M \<subseteq> ?A" using marks by (auto simp: marks_ok_def)
  then have "card (?A - ?M) = card ?A - card ?M" "card ?M \<le> card ?A"
    by (simp_all add: card_Diff_subset card_mono)
  ultimately have "count_if (\<lambda>g. g \<noteq> -1) (chunk_map (rc_at t c)) = chunk_size_g (rc_at s c) - shrink_size_g (rc_at s c)"
    using rs marks by (simp add: count_if_card len rc_inv_def marks_ok_def of_nat_diff)
  moreover have "-1 \<le> chunk_map (rc_at t c) ! k \<and>
      remote_mapped (rc_at t c) ! k = (if chunk_map (rc_at t c) ! k = -1 then CHUNK_UNMAPPED else CHUNK_MAPPED) \<and>
      (chunk_map (rc_at t c) ! k \<noteq> -1 \<longrightarrow> has_bitmap (chunk_list (rc_at t c) ! k))" if "k < MAX_MR_SIZE_GB" for k
  proof -
    have "chunk_map (rc_at t c) ! k = (if marked s c k then -1 else chunk_map (rc_at s c) ! k)"
      "remote_mapped (rc_at t c) ! k = (if marked s c k then CHUNK_UNMAPPED else remote_mapped (rc_at s c) ! k)"
      "\<not> marked s c k \<longrightarrow> chunk_list (rc_at t c) ! k = chunk_list (rc_at s c) ! k"
      using t that by (simp_all add: gave_up_def)
    with rs that len(2) show ?thesis by (simp add: rc_inv_def)
  qed
  ultimately show ?thesis using t len(1) by (simp add: rc_inv_def gave_up_def)
qed

lemma card_evicted:
  assumes "map_inv s" "c < length (cb_list s)" "rc_sized (rc_at s c) MAX_MR_SIZE_GB" "gave_up st c s t"
  shows "count_if (\<lambda>i. i = -1) (cb_index_map t) = count_if (\<lambda>i. i = -1) (cb_index_map s) + int (card (evicted s c))"
    and "evicted s c \<subseteq> {..<STACKBD_SIZE_G}"
proof -
  have len: "length (cb_index_map s) = STACKBD_SIZE_G" using map_invD(1)[OF assms(1)] by (simp add: sess_wf_def)
  have mem: "g < STACKBD_SIZE_G \<and> cb_index_map s ! g \<noteq> -1" if "g \<in> evicted s c" for g
  proof -
    obtain i where "i < MAX_MR_SIZE_GB" "chunk_map (rc_at s c) ! i = int g"
      using \<open>g \<in> evicted s c\<close> by (auto simp: evicted_upto_def)
    then have "(c, i, g) \<in> cb_view s" using assms(2,3) by (simp add: cb_view_def rc_sized_def)
    then have "(c, i, g) \<in> sess_view s" using map_invD(3)[OF assms(1)] by simp
    then show ?thesis using len by (simp add: sess_view_def)
  qed
  then show sub: "evicted s c \<subseteq> {..<STACKBD_SIZE_G}" by auto
  let ?U = "\<lambda>s. {g. g < STACKBD_SIZE_G \<and> cb_index_map s ! g = -1}"
  have "?U t = ?U s \<union> evicted s c" "?U s \<inter> evicted s c = {}"
    using mem assms(4) by (auto simp: gave_up_def)
  moreover have "finite (evicted s c)" using sub finite_subset by blast
  ultimately have "card (?U t) = card (?U s) + card (evicted s c)" by (simp add: card_Un_disjoint)
  then show "count_if (\<lambda>i. i = -1) (cb_index_map t) = count_if (\<lambda>i. i = -1) (cb_index_map s) + int (card (evicted s c))"
    using assms(4) len by (simp add: count_if_card gave_up_def)
qed

lemma map_inv_gave_up:
  assumes inv: "map_inv s" and c: "c < length (cb_list s)" "rc_sized (rc_at s c) MAX_MR_SIZE_GB"
    and marks: "marks_ok s c" and t: "gave_up st c s t"
  shows "map_inv_upto (evicted s c) t"
proof -
  have wf: "sess_wf s" using map_invD(1)[OF inv] .
  have idx: "cb_index (cb_at t d) = int d" "rc_inv (rc_at t d)" if "d < length (cb_list s)" for d
    using wf t c that rc_inv_gave_up [OF assms] map_invD(2)[OF inv that]
    by (cases "d = c"; simp add: sess_wf_def gave_up_def)+
  then have "sess_wf t" using wf t by (simp add: sess_wf_def gave_up_def)
  moreover have "cb_view t = sess_view t" using views_gave_up [OF inv c t] by simp
  moreover have "-1 \<le> cb_index_map t ! g" "-1 \<le> chunk_map_cb_chunk t ! g"
    "if g \<in> evicted s c then cb_index_map t ! g = -1
     else cb_index_map t ! g = -1 \<longleftrightarrow> chunk_map_cb_chunk t ! g = -1" if "g < STACKBD_SIZE_G" for g
    using inv t that by (simp_all add: map_inv_upto_def gave_up_def)
  moreover have "free_chunk_index t + 1 + int (card (evicted s c)) = count_if (\<lambda>i. i = -1) (cb_index_map t)"
    using card_evicted(1)[OF inv c t] map_invD(4)[OF inv] t by (simp add: gave_up_def)
  moreover have "length (cb_list t) = length (cb_list s)" using t by (simp add: gave_up_def)
  ultimately show ?thesis
    using idx card_evicted(2)[OF inv c t] unfolding map_inv_upto_def by auto
qed

section \<open>The round up to the search for new homes\<close>

text \<open>No transfer is in flight to a chunk that is to be given up.\<close>

definition quiet :: "nat \<Rightarrow> IS_session \<Rightarrow> bool" where
  "quiet c s \<longleftrightarrow> (\<forall>conn \<in> set (IS_conns s). c < length (ctx_pools conn) \<and>
     IS_QUEUE_DEPTH \<le> length (ctx_pool (ctx_pools conn ! c)) \<and>
     (\<forall>ctx \<in> set (ctx_pool (ctx_pools conn ! c)). in_flight_ctx ctx \<longrightarrow>
        (\<exists>k < MAX_MR_SIZE_GB. ctx_chunk_index ctx = int k \<and> chunk_map (rc_at s c) ! k \<noteq> -1 \<and> \<not> marked s c k)))"

lemma scan_ctxs_ok:
  "\<forall>ctx \<in> set ctxs. in_flight_ctx ctx \<longrightarrow> (\<exists>k < length cm. ctx_chunk_index ctx = int k \<and> cm ! k \<noteq> -1) \<Longrightarrow>
     scan_ctxs cm ctxs = Inr False"
  by (induction ctxs) auto

lemma scan_conns_ok:
  "\<forall>conn \<in> set conns. c < length (ctx_pools conn) \<and> IS_QUEUE_DEPTH \<le> length (ctx_pool (ctx_pools conn ! c)) \<and>
     (\<forall>ctx \<in> set (ctx_pool (ctx_pools conn ! c)). in_flight_ctx ctx \<longrightarrow>
        (\<exists>k < length cm. ctx_chunk_index ctx = int k \<and> cm ! k \<noteq> -1)) \<Longrightarrow>
     scan_conns cm c conns = Inr False"
proof (induction conns)
  case (Cons conn conns)
  then have "scan_ctxs cm (take IS_QUEUE_DEPTH (ctx_pool (ctx_pools conn ! c))) = Inr False"
    by (intro scan_ctxs_ok) (auto dest: in_set_takeD)
  with Cons show ?case by simp
qed simp

lemma wait_ok:
  assumes "quiet c s" "c < length (cb_list s)" "stop_inv c s MAX_MR_SIZE_GB (t, ev)"
  shows "IS_chunk_wait_in_flight_requests c t = Inr ()"
proof -
  obtain cm rk cim where t: "t = stopped c cm rk cim s" and len: "length cm = MAX_MR_SIZE_GB"
    and cm: "\<forall>i < MAX_MR_SIZE_GB. cm ! i = (if marked s c i then -1 else chunk_map (rc_at s c) ! i)"
    using assms(3) by (auto simp: stop_inv_def)
  have "scan_conns cm c (IS_conns s) = Inr False"
    using assms(1) len cm by (intro scan_conns_ok) (fastforce simp: quiet_def)
  then show ?thesis
    using t assms(2) by (simp add: IS_chunk_wait_in_flight_requests_def)
qed

lemma evict_release_ok:
  assumes inv: "map_inv s" and c: "c < length (cb_list s)" "rc_sized (rc_at s c) MAX_MR_SIZE_GB"
    and marks: "marks_ok s c" and stop: "stop_inv c s MAX_MR_SIZE_GB (t, ev)"
  shows "\<exists>s2. evict_release c (shrink_size_g (rc_at s c)) t = Inr s2 \<and> gave_up CB_EVICTING c s s2 \<and>
     mtype (send_buf (cb_at s2 c)) = DONE \<and> size_gb (send_buf (cb_at s2 c)) = shrink_size_g (rc_at s c) \<and>
     msg_wf (send_buf (cb_at s2 c)) \<and>
     (\<forall>i < MAX_MR_SIZE_GB. rkey (send_buf (cb_at s2 c)) ! i = (if marked s c i then 1 else 0))"
proof -
  obtain cm rk cim where t: "t = stopped c cm rk cim s"
    and len: "length cm = MAX_MR_SIZE_GB" "length rk = MAX_MR_SIZE_GB" "length cim = STACKBD_SIZE_G"
    and cm: "\<forall>i < MAX_MR_SIZE_GB. cm ! i = (if marked s c i then -1 else chunk_map (rc_at s c) ! i) \<and>
                           rk ! i = (if marked s c i then 1 else 0)"
    and cim: "\<forall>g < STACKBD_SIZE_G. cim ! g = (if g \<in> evicted s c then -1 else cb_index_map s ! g)"
    using stop by (auto simp: stop_inv_def)
  have rc: "rc_at t c = (rc_at s c)\<lparr>chunk_map := cm\<rparr>" and ct: "c < length (cb_list t)" using t c(1) by simp_all
  have sized: "rc_sized (rc_at t c) MAX_MR_SIZE_GB" using rc c(2) len(1) by (simp add: rc_sized_def)
  have "\<forall>i < MAX_MR_SIZE_GB. marked t c i \<longrightarrow> has_bitmap (chunk_list (rc_at t c) ! i)"
    using map_invD(2)[OF inv c(1)] marks c(2) by (simp add: rc rc_inv_def marks_ok_def rc_sized_def)
  then obtain u where u: "for_res (clear_chunk c) [0..<MAX_MR_SIZE_GB] t = Inr u" "clear_inv c t MAX_MR_SIZE_GB u"
    using clear_chunks_ok [OF ct sized] by blast
  then obtain cl rm where cl: "u = upd_rc c (\<lambda>rc. rc\<lparr>chunk_list := cl, remote_mapped := rm\<rparr>) t"
    "length cl = MAX_MR_SIZE_GB" "length rm = MAX_MR_SIZE_GB"
    and val: "\<forall>i < MAX_MR_SIZE_GB.
        cl ! i = (if marked s c i then (chunk_list (rc_at s c) ! i)\<lparr>bitmap_g := Some (replicate BITMAP_INT_SIZE 0)\<rparr>
                  else chunk_list (rc_at s c) ! i) \<and>
        rm ! i = (if marked s c i then CHUNK_UNMAPPED else remote_mapped (rc_at s c) ! i)"
    by (auto simp: clear_inv_def rc)
  have wf: "cb_index (cb_at s c) = int c" "c < length (cb_state_list s)"
    using map_invD(1)[OF inv] c(1) by (simp_all add: sess_wf_def)
  have "c < length (cb_list u)" using cl(1) ct by simp
  then show ?thesis
    using u(1) wf c len cm cim val cl t marks
    by (simp add: evict_release_def marks_ok_def msg_wf_def set_cb_state_def IS_send_done_def gave_up_def rc_sized_def)
qed

section \<open>New homes\<close>

lemma release_chunk_ok:
  assumes inv: "map_inv_upto (insert g L) s" and g: "g \<notin> L"
  shows "\<exists>ucl. release_chunk g s = Inr (s\<lparr>chunk_map_cb_chunk := (chunk_map_cb_chunk s)[g := -1],
           free_chunk_index := free_chunk_index s + 1, unmapped_chunk_list := ucl\<rparr>) \<and>
         map_inv_upto L (s\<lparr>chunk_map_cb_chunk := (chunk_map_cb_chunk s)[g := -1],
           free_chunk_index := free_chunk_index s + 1, unmapped_chunk_list := ucl\<rparr>)"
proof -
  have wf: "sess_wf s" using map_invD(1)[OF inv] .
  have sub: "insert g L \<subseteq> {..<STACKBD_SIZE_G}" using inv by (simp add: map_inv_upto_def)
  then have fin: "finite L" "g < STACKBD_SIZE_G" using finite_subset by auto
  have un: "cb_index_map s ! h = -1" if "h \<in> insert g L" for h
    using inv that sub by (auto simp: map_inv_upto_def split: if_splits)
  have cnt: "free_chunk_index s + 1 + int (card L + 1) = count_if (\<lambda>i. i = -1) (cb_index_map s)"
    using map_invD(4)[OF inv] g fin by simp
  moreover have "count_if (\<lambda>i. i = -1) (cb_index_map s) \<le> int STACKBD_SIZE_G"
    using count_if_le_length [of _ "cb_index_map s"] wf by (simp add: sess_wf_def)
  ultimately have top: "free_chunk_index s + 1 < int STACKBD_SIZE_G" by linarith
  have "int (card (insert g L)) \<le> count_if (\<lambda>i. i = -1) (cb_index_map s)"
    unfolding count_if_card using un sub wf by (intro of_nat_mono card_mono) (auto simp: sess_wf_def)
  then have low: "0 \<le> free_chunk_index s + 1" using map_invD(4)[OF inv] by linarith
  let ?u = "(unmapped_chunk_list s)[nat (free_chunk_index s + 1) := int g]"
  let ?t = "s\<lparr>chunk_map_cb_chunk := (chunk_map_cb_chunk s)[g := -1],
           free_chunk_index := free_chunk_index s + 1, unmapped_chunk_list := ?u\<rparr>"
  have "release_chunk g s = Inr ?t"
    using wf fin(2) top low by (simp add: release_chunk_def sess_wf_def)
  moreover have "sess_view ?t = sess_view s"
    using un [of g] wf fin(2) by (auto simp: sess_view_def sess_wf_def nth_list_update)
  moreover have "if h \<in> L then cb_index_map s ! h = -1
      else cb_index_map s ! h = -1 \<longleftrightarrow> chunk_map_cb_chunk ?t ! h = -1" "-1 \<le> chunk_map_cb_chunk ?t ! h"
    if "h < STACKBD_SIZE_G" for h
    using inv un [of g] wf that g by (cases "h = g"; simp add: map_inv_upto_def sess_wf_def)+
  ultimately show ?thesis
    using inv wf cnt sub
    by (intro exI [of _ ?u]) (simp add: map_inv_upto_def sess_wf_def cb_view_def)
qed

text \<open>
  The contract of the servers towards the client's search: in every session in good order they answer,
  and what they offer is not in use yet.
\<close>

locale server_env =
  fixes env :: "nat \<Rightarrow> IS_session \<Rightarrow> net"
  assumes answers: "map_inv_upto L s \<Longrightarrow> peers_ok s \<Longrightarrow> chunk_free g s \<Longrightarrow> servers_answer (env g s) s"
    and binds: "map_inv_upto L s \<Longrightarrow> peers_ok s \<Longrightarrow> chunk_free g s \<Longrightarrow> servers_bind (env g s) g s"
begin

lemma remap_chunk_ok:
  assumes "map_inv_upto L s" "peers_ok s" "chunk_free g s" "g \<notin> L" "n = length (cb_list s)"
  shows "\<exists>s'. remap_chunk le env m n g s = Some (Inr s') \<and> map_inv_upto L s' \<and> peers_ok s' \<and> keeps_rest g s s' \<and>
     sess_view s \<subseteq> sess_view s' \<and>
     (\<forall>d k h. (d, k, h) \<in> sess_view s' \<longrightarrow> (d, k, h) \<notin> sess_view s \<longrightarrow> d < n \<and> cb_state_list s ! d < CB_EVICTING)"
proof -
  obtain asked r s' where r: "IS_single_chunk_map le (env g s) m n (int g) s = Some (Inr (r, s'))"
    "map_inv_upto L s'" "peers_ok s'" "keeps_rest g s s'"
    "\<forall>c \<in> set asked. c < n \<and> cb_state_list s ! c < CB_EVICTING"
    and res: "r = -1 \<and> sess_view s' = sess_view s \<and> (\<forall>c \<in> set asked. told (env g s) s c = 0) \<or>
      r = int g \<and> rdma_on s' = DEV_RDMA_ON \<and>
        (\<exists>c i. chosen_server (env g s) asked s c \<and> sess_view s' = insert (c, i, g) (sess_view s))"
    using IS_single_chunk_map_ok [OF assms(1,2) answers [OF assms(1-3)] binds [OF assms(1-3)] assms(3-5), of le m]
    by (elim exE conjE) (rule that)
  from res have "sess_view s \<subseteq> sess_view s' \<and>
     (\<forall>d k h. (d, k, h) \<in> sess_view s' \<longrightarrow> (d, k, h) \<notin> sess_view s \<longrightarrow> d < n \<and> cb_state_list s ! d < CB_EVICTING)"
    using r(5) by (auto simp: chosen_server_def)
  with r show ?thesis by (simp add: remap_chunk_def)
qed

end

text \<open>The loop over the evicted chunks, with server \<open>c\<close> out of reach.\<close>

definition remap_inv :: "nat \<Rightarrow> nat set \<Rightarrow> IS_session \<Rightarrow> nat \<Rightarrow> IS_session \<Rightarrow> bool" where
  "remap_inv c E s j t \<longleftrightarrow>
     map_inv_upto {h \<in> E. j \<le> h} t \<and> peers_ok t \<and> length (cb_list t) = length (cb_list s) \<and>
     untouched s t c \<and> sess_view s \<subseteq> sess_view t \<and>
     (\<forall>k h. (c, k, h) \<in> sess_view t \<longrightarrow> (c, k, h) \<in> sess_view s)"

context server_env
begin

lemma remap_evicted_step:
  assumes P: "remap_inv c E s j t" and j: "j < STACKBD_SIZE_G"
    and c: "c < length (cb_list s)" "\<not> cb_state_list s ! c < CB_EVICTING" and n: "n = length (cb_list s)"
    and ev: "length ev = STACKBD_SIZE_G" "ev ! j = (if j \<in> E then 1 else -1)"
  shows "\<exists>t'. remap_evicted le env m n ev j t = Some (Inr t') \<and> remap_inv c E s (Suc j) t'"
proof (cases "j \<in> E")
  case False
  then have "{h \<in> E. Suc j \<le> h} = {h \<in> E. j \<le> h}" by (auto simp: Suc_le_eq le_less)
  with False P ev j show ?thesis by (simp add: remap_evicted_def remap_inv_def)
next
  case True
  let ?L = "{h \<in> E. Suc j \<le> h}"
  have "{h \<in> E. j \<le> h} = insert j ?L" using True by (auto simp: Suc_le_eq le_less)
  then have inv: "map_inv_upto (insert j ?L) t" using P by (simp add: remap_inv_def)
  let ?rel = "\<lambda>ucl. t\<lparr>chunk_map_cb_chunk := (chunk_map_cb_chunk t)[j := -1],
           free_chunk_index := free_chunk_index t + 1, unmapped_chunk_list := ucl\<rparr>"
  obtain ucl where rel: "release_chunk j t = Inr (?rel ucl)" "map_inv_upto ?L (?rel ucl)"
    using release_chunk_ok [OF inv] by auto
  let ?t1 = "?rel ucl"
  have un: "cb_index_map t ! j = -1" using inv j by (simp add: map_inv_upto_def)
  have wf: "sess_wf t" using map_invD(1)[OF inv] .
  have view: "sess_view ?t1 = sess_view t"
    using un wf j by (auto simp: sess_view_def sess_wf_def nth_list_update)
  have "peers_ok ?t1" using P by (simp add: remap_inv_def peers_ok_def)
  moreover have "chunk_free j ?t1" using un j by (simp add: chunk_free_def NO_CB_MAPPED_def)
  ultimately obtain t' where t': "remap_chunk le env m n j ?t1 = Some (Inr t')" "map_inv_upto ?L t'" "peers_ok t'"
    "keeps_rest j ?t1 t'" "sess_view ?t1 \<subseteq> sess_view t'"
    and new: "\<forall>d k h. (d, k, h) \<in> sess_view t' \<longrightarrow> (d, k, h) \<notin> sess_view ?t1 \<longrightarrow>
       d < n \<and> cb_state_list ?t1 ! d < CB_EVICTING"
    using remap_chunk_ok [OF rel(2), of j n le m] P n by (auto simp: remap_inv_def)
  have cst: "\<not> cb_state_list t ! c < CB_EVICTING" using P c(2) by (simp add: remap_inv_def untouched_def)
  have "remap_evicted le env m n ev j t = Some (Inr t')"
    using True ev j rel(1) t'(1) by (simp add: remap_evicted_def)
  moreover have "untouched s t' c"
    using t'(4) P c(1) cst by (auto simp: keeps_rest_def remap_inv_def untouched_def)
  moreover have "(c, k, h) \<in> sess_view s" if "(c, k, h) \<in> sess_view t'" for k h
  proof -
    have "(c, k, h) \<in> sess_view ?t1" using new [rule_format, of c k h] that cst by auto
    then show ?thesis using P view by (simp add: remap_inv_def)
  qed
  ultimately show ?thesis
    using t' P view by (auto simp: remap_inv_def keeps_rest_def)
qed

lemma remap_all_ok:
  assumes "map_inv_upto E s" "peers_ok s" "c < length (cb_list s)" "\<not> cb_state_list s ! c < CB_EVICTING"
    "n = length (cb_list s)" "length ev = STACKBD_SIZE_G"
    "\<And>g. g < STACKBD_SIZE_G \<Longrightarrow> ev ! g = (if g \<in> E then 1 else -1)"
  shows "\<exists>t. for_ro (remap_evicted le env m n ev) [0..<STACKBD_SIZE_G] s = Some (Inr t) \<and>
           remap_inv c E s STACKBD_SIZE_G t \<and> map_inv t"
proof -
  have "\<exists>t. for_ro (remap_evicted le env m n ev) [0..<STACKBD_SIZE_G] s = Some (Inr t) \<and> remap_inv c E s STACKBD_SIZE_G t"
    by (rule for_ro_inv [where P = "remap_inv c E s"])
      (use assms remap_evicted_step in \<open>auto simp: remap_inv_def untouched_def\<close>)
  then obtain t where t: "for_ro (remap_evicted le env m n ev) [0..<STACKBD_SIZE_G] s = Some (Inr t)"
    "remap_inv c E s STACKBD_SIZE_G t" by blast
  have "{h \<in> E. STACKBD_SIZE_G \<le> h} = {}" using assms(1) by (auto simp: map_inv_upto_def)
  with t(2) have "map_inv t" by (simp add: remap_inv_def)
  with t show ?thesis by blast
qed

end

text \<open>What \<open>peers_ok\<close> says of one server, and its change at one server.\<close>

definition peer_ok :: "cb_state \<Rightarrow> kernel_cb \<Rightarrow> bool" where
  "peer_ok st cb \<longleftrightarrow>
     (st = CB_IDLE \<longrightarrow> hw_released (hw cb) \<and> dma_maps (hw cb) = 0 \<and> no_mapping (remote_chunk cb)) \<and>
     (CB_IDLE < st \<and> st < CB_EVICTING \<longrightarrow>
        rc_sized (remote_chunk cb) MAX_MR_SIZE_GB \<and> CONNECTED \<le> state cb \<and> state cb \<notin> {ERROR, FREE_MEM_RECV})"

lemma peers_ok_iff: "peers_ok s \<longleftrightarrow> (\<forall>c < length (cb_list s). peer_ok (cb_state_list s ! c) (cb_at s c))"
  by (simp add: peers_ok_def peer_ok_def)

lemma peers_ok_one:
  assumes "peers_ok s" "length (cb_list t) = length (cb_list s)" "\<And>d. d \<noteq> c \<Longrightarrow> cb_at t d = cb_at s d"
    "cb_state_list t = (cb_state_list s)[c := st]" "length (cb_state_list s) = length (cb_list s)"
    "peer_ok st (cb_at t c)"
  shows "peers_ok t"
  unfolding peers_ok_iff
proof (intro allI impI)
  fix d
  assume "d < length (cb_list t)"
  then show "peer_ok (cb_state_list t ! d) (cb_at t d)"
    using assms by (cases "d = c") (simp_all add: peers_ok_iff)
qed

lemma peer_ok_gone [simp]: "peer_ok CB_EVICTING cb" "peer_ok CB_FAIL cb"
  by (simp_all add: peer_ok_def cb_state_order)

text \<open>One round, with servers that keep the contract.\<close>

context server_env
begin

lemma evict_handler_round_ok:
  assumes "map_inv s" "peers_ok s" "c < length (cb_list s)" "cb_state_list s ! c = CB_MAPPED"
    and "marks_ok s c" "quiet c s" "shrink_size_g (remote_chunk (cb_list s ! c)) \<noteq> 0"
    and "NUM_CB = length (cb_list s)"
  shows "\<exists>s'. evict_handler_round le env m NUM_CB c s = Some (Inr s') \<and> map_inv s' \<and> peers_ok s' \<and>
     kept_view c s \<subseteq> sess_view s' \<and> (\<forall>k g. (c, k, g) \<in> sess_view s' \<longleftrightarrow> (c, k, g) \<in> kept_view c s) \<and>
     cb_state_list s' ! c = CB_MAPPED \<and> trigger_enable s' = TRIGGER_ON \<and>
     mtype (send_buf (cb_list s' ! c)) = DONE \<and> size_gb (send_buf (cb_list s' ! c)) = shrink_size_g (remote_chunk (cb_list s ! c)) \<and>
     msg_wf (send_buf (cb_list s' ! c)) \<and>
     (\<forall>i < MAX_MR_SIZE_GB.
        rkey (send_buf (cb_list s' ! c)) ! i = (if marked s c i then 1 else 0) \<and>
        (marked s c i \<longrightarrow> bitmap_g (chunk_list (remote_chunk (cb_list s' ! c)) ! i) = Some (replicate BITMAP_INT_SIZE 0) \<and>
                         remote_mapped (remote_chunk (cb_list s' ! c)) ! i = CHUNK_UNMAPPED))"
proof -
  have peer: "rc_sized (rc_at s c) MAX_MR_SIZE_GB" "CONNECTED \<le> state (cb_at s c)"
    "state (cb_at s c) \<notin> {ERROR, FREE_MEM_RECV}"
    using assms(2-4) by (simp_all add: peers_ok_def cb_state_order)
  note cc = assms(3) peer(1)
  obtain t ev where stop: "evict_stop c s = Inr (t, ev)" "stop_inv c s MAX_MR_SIZE_GB (t, ev)"
    using evict_stop_ok [OF assms(1) cc assms(5)] by auto
  obtain s2 where rel: "evict_release c (shrink_size_g (rc_at s c)) t = Inr s2" "gave_up CB_EVICTING c s s2"
    "mtype (send_buf (cb_at s2 c)) = DONE" "size_gb (send_buf (cb_at s2 c)) = shrink_size_g (rc_at s c)" "msg_wf (send_buf (cb_at s2 c))"
    "\<forall>i < MAX_MR_SIZE_GB. rkey (send_buf (cb_at s2 c)) ! i = (if marked s c i then 1 else 0)"
    using evict_release_ok [OF assms(1) cc assms(5) stop(2)] by blast
  have ev: "length ev = STACKBD_SIZE_G" "\<And>g. g < STACKBD_SIZE_G \<Longrightarrow> ev ! g = (if g \<in> evicted s c then 1 else -1)"
    using stop(2) by (auto simp: stop_inv_def)
  have s2: "length (cb_list s2) = length (cb_list s)" "cb_state_list s2 = (cb_state_list s)[c := CB_EVICTING]"
    "length (cb_state_list s) = length (cb_list s)" "cb_index (cb_at s2 c) = int c"
    "state (cb_at s2 c) = state (cb_at s c)" "rc_sized (rc_at s2 c) MAX_MR_SIZE_GB"
    using rel(2) assms(1,3) by (simp_all add: gave_up_def map_inv_upto_def sess_wf_def)
  have "peers_ok s2"
    using gave_upD(2)[OF rel(2)] by (intro peers_ok_one [OF assms(2) s2(1) _ s2(2,3)]) simp_all
  moreover have "c < length (cb_list s2)" "\<not> cb_state_list s2 ! c < CB_EVICTING" "NUM_CB = length (cb_list s2)"
    using assms(3,8) s2 by simp_all
  ultimately obtain u where u: "for_ro (remap_evicted le env m NUM_CB ev) [0..<STACKBD_SIZE_G] s2 = Some (Inr u)"
    "remap_inv c (evicted s c) s2 STACKBD_SIZE_G u" "map_inv u"
    using remap_all_ok [OF map_inv_gave_up [OF assms(1) cc assms(5) rel(2)] _ _ _ _ ev] by blast
  have same: "cb_at u c = cb_at s2 c" "length (cb_list u) = length (cb_list s)" "peers_ok u"
    "length (cb_state_list u) = length (cb_list u)"
    using u s2(1) by (simp_all add: remap_inv_def untouched_def map_inv_upto_def sess_wf_def)
  let ?s' = "u\<lparr>cb_state_list := (cb_state_list u)[c := CB_MAPPED], trigger_enable := TRIGGER_ON\<rparr>"
  have "evict_handler_round le env m NUM_CB c s = Some (Inr ?s')"
    using assms(3,7) stop(1) wait_ok [OF assms(6,3) stop(2)] rel(1) u(1) same s2(4)
    by (simp add: evict_handler_round_def Let_def set_cb_state_def)
  moreover have "map_inv ?s'" using u(3) by (subst map_inv_cong [of _ u]) simp_all
  moreover have "peers_ok ?s'"
    using same(1,2,4) s2(5,6) peer(2,3)
    by (intro peers_ok_one [OF same(3), where c = c and st = CB_MAPPED]) (simp_all add: peer_ok_def cb_state_order)
  moreover have "sess_view ?s' = sess_view u" by (simp add: sess_view_def)
  moreover have "sess_view s2 = kept_view c s" using views_gave_up(1)[OF assms(1) cc rel(2)] .
  ultimately show ?thesis
    using u(2) rel(2-6) same assms(3) by (auto simp: remap_inv_def gave_up_def)
qed

end

section \<open>Properties\<close>

text \<open>
  C5: one round of the eviction thread, for a STOP message that marks chunks the server really holds for
  us, with no transfer in flight to them and servers that keep their contract. The round returns
  without an invalid access and keeps the invariant of the placement tables. The marked chunks, and
  only they, are taken from the server, which is not offered any chunk in return; all other
  placements are kept. The bitmaps of the marked chunks are empty, so that no page is read from them
  again, and the DONE message names exactly the marked chunks.
\<close>

theorem evict_handler_round_spec:
  assumes "map_inv s" "peers_ok s" "c < length (cb_list s)" "cb_state_list s ! c = CB_MAPPED"
    and "marks_ok s c" "quiet c s" "shrink_size_g (remote_chunk (cb_list s ! c)) \<noteq> 0"
    and "server_env env" "NUM_CB = length (cb_list s)"
  shows "\<exists>s'. evict_handler_round le env m NUM_CB c s = Some (Inr s') \<and> map_inv s' \<and> peers_ok s' \<and>
     kept_view c s \<subseteq> sess_view s' \<and> (\<forall>k g. (c, k, g) \<in> sess_view s' \<longleftrightarrow> (c, k, g) \<in> kept_view c s) \<and>
     cb_state_list s' ! c = CB_MAPPED \<and> trigger_enable s' = TRIGGER_ON \<and>
     mtype (send_buf (cb_list s' ! c)) = DONE \<and>
     (\<forall>i < MAX_MR_SIZE_GB.
        rkey (send_buf (cb_list s' ! c)) ! i = (if marked s c i then 1 else 0) \<and>
        (marked s c i \<longrightarrow> bitmap_g (chunk_list (remote_chunk (cb_list s' ! c)) ! i) = Some (replicate BITMAP_INT_SIZE 0) \<and>
                         remote_mapped (remote_chunk (cb_list s' ! c)) ! i = CHUNK_UNMAPPED))"
proof -
  obtain s' where ok: "evict_handler_round le env m NUM_CB c s = Some (Inr s')" "map_inv s'" "peers_ok s'" "kept_view c s \<subseteq> sess_view s'"
    "\<forall>k g. (c, k, g) \<in> sess_view s' \<longleftrightarrow> (c, k, g) \<in> kept_view c s" "cb_state_list s' ! c = CB_MAPPED" "trigger_enable s' = TRIGGER_ON"
    "mtype (send_buf (cb_list s' ! c)) = DONE"
    "\<forall>i < MAX_MR_SIZE_GB. rkey (send_buf (cb_list s' ! c)) ! i = (if marked s c i then 1 else 0) \<and>
        (marked s c i \<longrightarrow> bitmap_g (chunk_list (remote_chunk (cb_list s' ! c)) ! i) = Some (replicate BITMAP_INT_SIZE 0) \<and>
                         remote_mapped (remote_chunk (cb_list s' ! c)) ! i = CHUNK_UNMAPPED)"
    using server_env.evict_handler_round_ok [OF assms(8,1-7,9), of le m] by (elim exE conjE) (rule that)
  then show ?thesis by (intro exI [of _ s'] conjI)
qed

text \<open>Servers without free memory meet the contract; the session of one server that stops its chunk 3.\<close>

definition no_room :: "nat \<Rightarrow> IS_session \<Rightarrow> net" where
  "no_room g s = demo_net\<lparr>hello := \<lambda>_. Some (demo_free 0), reply := \<lambda>_ _. Some (demo_free 0)\<rparr>"

lemma no_room_env: "server_env no_room"
  by unfold_locales
    (auto simp: no_room_def servers_answer_def server_answers_def servers_bind_def told_def demo_net_def free_size_msg_def
      demo_free_def msg_wf_def zero_msg_def)

definition demo_stop :: IS_session where
  "demo_stop =
     IS_ctx_dma_setup demo_net 0
       (upd_rc 0 (\<lambda>rc. rc\<lparr>evict_chunk_map := (replicate MAX_MR_SIZE_GB (CHR ''a''))[3 := CHR ''s''], shrink_size_g := 1\<rparr>)
         ((counted 0 1 (placed 0 3 5 (chunk_of_msg True demo_offer 3 zero_chunk) (demo_connected demo_offer)))
            \<lparr>cb_state_list := [CB_MAPPED]\<rparr>))"

lemma demo_stop_inv: "map_inv demo_stop"
proof -
  have "slot_free 0 3 (demo_connected demo_offer)" "chunk_free 5 (demo_connected demo_offer)"
    by (simp_all add: slot_free_def chunk_free_def demo_connected_cb is_consts)
      (simp add: demo_connected_cb flip: is_consts)
  then have "map_inv (counted 0 1 (placed 0 3 5 (chunk_of_msg True demo_offer 3 zero_chunk) (demo_connected demo_offer)))"
    by (intro map_inv_placed demo_connected_inv) simp_all
  moreover have "length (cb_state_list (demo_connected demo_offer)) = 1"
    by (simp add: demo_connected_def demo_session_idle)
  moreover have "length (evict_chunk_map (rc_at (demo_connected demo_offer) 0)) = MAX_MR_SIZE_GB"
    using demo_connected_cb(3) by (simp add: rc_sized_def)
  ultimately show ?thesis
    by (subst map_inv_cong [of _ "counted 0 1 (placed 0 3 5 (chunk_of_msg True demo_offer 3 zero_chunk)
          (demo_connected demo_offer))"])
      (simp_all add: demo_stop_def IS_ctx_dma_setup_def rc_tables_def demo_connected_cb counted_def placed_def)
qed

lemma demo_stop_rc:
  "length (cb_list demo_stop) = 1" "cb_state_list demo_stop = [CB_MAPPED]"
  "rc_sized (rc_at demo_stop 0) MAX_MR_SIZE_GB" "state (cb_at demo_stop 0) = AFTER_FREE_MEM"
  "evict_chunk_map (rc_at demo_stop 0) = (replicate MAX_MR_SIZE_GB (CHR ''a''))[3 := CHR ''s'']"
  "chunk_map (rc_at demo_stop 0) ! 3 = 5" "shrink_size_g (rc_at demo_stop 0) = 1"
  "send_buf (cb_at demo_stop 0) = zero_msg DONE" "(0, 3, 5) \<in> sess_view demo_stop"
  using demo_connected_cb(3) [of demo_offer]
  by (simp_all add: demo_stop_def IS_ctx_dma_setup_def counted_def placed_def demo_connected_cb rc_sized_def
      sess_view_def STACKBD_SIZE_G_def MAX_MR_SIZE_GB_def)
    (simp_all add: demo_connected_def demo_session_cb demo_session_def kernel_cb_init_def zero_cb_def Let_def
      IS_session_create_def STACKBD_SIZE_G_def)

lemma demo_stop_quiet: "quiet 0 demo_stop"
proof -
  obtain p where "snd (IS_ctx_init (rdma_buf_ok demo_net 0)) = p" "pool_wf p" "\<forall>ctx \<in> set (ctx_pool p). in_flight ctx = CTX_IDLE"
    using IS_ctx_init_ok [of "rdma_buf_ok demo_net 0"] by (auto simp: demo_net_def)
  then show ?thesis
    by (auto simp: quiet_def demo_stop_def IS_ctx_dma_setup_def counted_def placed_def demo_connected_def
        demo_session_def IS_session_create_def IS_create_conn_def Let_def in_flight_ctx_def is_consts
        elim!: pool_wfE)
qed

lemma demo_stop_marks: "marks_ok demo_stop 0"
proof -
  have "marked demo_stop 0 i \<longleftrightarrow> i = 3" if "i < MAX_MR_SIZE_GB" for i
    using that by (simp add: demo_stop_rc nth_list_update MAX_MR_SIZE_GB_def)
  then have "{i. i < MAX_MR_SIZE_GB \<and> marked demo_stop 0 i} = {3}"
    and "\<forall>i < MAX_MR_SIZE_GB. marked demo_stop 0 i \<longrightarrow> chunk_map (rc_at demo_stop 0) ! i \<noteq> -1"
    by (auto simp: demo_stop_rc MAX_MR_SIZE_GB_def)
  then show ?thesis by (simp add: marks_ok_def demo_stop_rc msg_wf_zero)
qed

theorem evict_handler_round_spec_witness:
  "(0, 3, 5) \<in> sess_view demo_stop \<and>
   (\<exists>s'. evict_handler_round True no_room 1 1 0 demo_stop = Some (Inr s') \<and> map_inv s' \<and>
      (0, 3, 5) \<notin> sess_view s' \<and> rkey (send_buf (cb_list s' ! 0)) ! 3 = 1)"
proof -
  have pre: "peers_ok demo_stop" "0 < length (cb_list demo_stop)" "cb_state_list demo_stop ! 0 = CB_MAPPED"
    "shrink_size_g (rc_at demo_stop 0) \<noteq> 0" "1 = length (cb_list demo_stop)"
    by (simp_all add: peers_ok_iff peer_ok_def demo_stop_rc test_state_order)
  obtain s' where s': "evict_handler_round True no_room 1 1 0 demo_stop = Some (Inr s')" "map_inv s'"
    and view: "\<forall>k g. (0, k, g) \<in> sess_view s' \<longleftrightarrow> (0, k, g) \<in> kept_view 0 demo_stop"
    and msg: "\<forall>i < MAX_MR_SIZE_GB. rkey (send_buf (cb_list s' ! 0)) ! i = (if marked demo_stop 0 i then 1 else 0) \<and>
        (marked demo_stop 0 i \<longrightarrow> bitmap_g (chunk_list (remote_chunk (cb_list s' ! 0)) ! i) = Some (replicate BITMAP_INT_SIZE 0) \<and>
                         remote_mapped (remote_chunk (cb_list s' ! 0)) ! i = CHUNK_UNMAPPED)"
    using evict_handler_round_spec [OF demo_stop_inv pre(1-3) demo_stop_marks demo_stop_quiet pre(4) no_room_env pre(5),
        where le = True and m = 1]
    by (elim exE conjE) (rule that)
  have mark: "marked demo_stop 0 3" "3 < MAX_MR_SIZE_GB" by (simp_all add: demo_stop_rc MAX_MR_SIZE_GB_def)
  then have "(0, 3, 5) \<notin> sess_view s'" using view by (simp add: kept_view_def)
  moreover have "rkey (send_buf (cb_list s' ! 0)) ! 3 = 1" using msg mark by simp
  ultimately show ?thesis using s' demo_stop_rc(9) by blast
qed

text \<open>
  The activity report. For a session in good order \<open>IS_send_activity\<close> stays inside its arrays and
  fills the ACTIVITY message so that the daemon's decoding reads, for every chunk of the server that
  is mapped, the activity of its session chunk plus one, and zero for every other chunk; a mapped
  chunk is reported as unmapped only if its counter is the largest 64-bit number.
\<close>

theorem IS_send_activity_spec:
  assumes "map_inv s" "c < length (cb_list s)" "rc_sized (remote_chunk (cb_list s ! c)) MAX_MR_SIZE_GB"
    and "msg_wf (send_buf (cb_list s ! c))" "length (last_ops s) = STACKBD_SIZE_G"
  shows "\<exists>bs. IS_send_activity le c s =
       Inr (upd_cb c (\<lambda>cb. cb\<lparr>send_buf := (send_buf cb)\<lparr>mtype := ACTIVITY, buf := bs\<rparr>\<rparr>) s) \<and>
     length bs = MAX_MR_SIZE_GB \<and>
     (\<forall>i < MAX_MR_SIZE_GB. case chunk_map (remote_chunk (cb_list s ! c)) ! i of g \<Rightarrow>
        ntohll le (bs ! i) = (if g = -1 then 0 else last_ops s ! nat g + 1) \<and>
        (bs ! i = 0 \<longleftrightarrow> g = -1 \<or> last_ops s ! nat g = -1))"
proof -
  let ?cm = "chunk_map (rc_at s c)"
  let ?v = "\<lambda>i. if ?cm ! i = -1 then 0 else bd_htonll le (last_ops s ! nat (?cm ! i) + 1)"
  let ?P = "\<lambda>j bs. length bs = MAX_MR_SIZE_GB \<and> (\<forall>i < j. bs ! i = ?v i)"
  have len: "length ?cm = MAX_MR_SIZE_GB" using assms(3) by (simp add: rc_sized_def)
  have "\<exists>bs. for_res (\<lambda>i bs. bind_res (arr_get ?cm (int i)) (\<lambda>g.
               if g \<noteq> -1
               then bind_res (arr_get (last_ops s) g) (\<lambda>ops. arr_set bs (int i) (bd_htonll le (ops + 1)))
               else arr_set bs (int i) 0)) [0..<MAX_MR_SIZE_GB] (buf (send_buf (cb_at s c))) = Inr bs \<and>
        ?P MAX_MR_SIZE_GB bs"
  proof (rule for_res_inv [where P = ?P])
    show "?P 0 (buf (send_buf (cb_at s c)))" using assms(4) by (simp add: msg_wf_def)
  next
    fix j bs
    assume j: "j < MAX_MR_SIZE_GB" and P: "?P j bs"
    have "?cm ! j = -1 \<or> (\<exists>g. ?cm ! j = int g \<and> g < length (last_ops s))"
      using mapped_slot [OF assms(1-3) j] assms(5) by metis
    then show "\<exists>bs'. bind_res (arr_get ?cm (int j)) (\<lambda>g.
               if g \<noteq> -1
               then bind_res (arr_get (last_ops s) g) (\<lambda>ops. arr_set bs (int j) (bd_htonll le (ops + 1)))
               else arr_set bs (int j) 0) = Inr bs' \<and> ?P (Suc j) bs'"
      using j P len by (auto simp: nth_list_update less_Suc_eq)
  qed
  then obtain bs where bs: "IS_send_activity le c s =
      Inr (upd_cb c (\<lambda>cb. cb\<lparr>send_buf := (send_buf (cb_at s c))\<lparr>mtype := ACTIVITY, buf := bs\<rparr>\<rparr>) s)" "?P MAX_MR_SIZE_GB bs"
    by (auto simp: IS_send_activity_def Let_def)
  moreover have "upd_cb c (\<lambda>cb. cb\<lparr>send_buf := (send_buf (cb_at s c))\<lparr>mtype := ACTIVITY, buf := bs\<rparr>\<rparr>) s =
      upd_cb c (\<lambda>cb. cb\<lparr>send_buf := (send_buf cb)\<lparr>mtype := ACTIVITY, buf := bs\<rparr>\<rparr>) s"
    by (simp add: upd_cb_def)
  moreover have "ops + 1 = 0 \<longleftrightarrow> ops = -1" for ops :: u64 by (metis add.right_inverse add_right_cancel eq_neg_iff_add_eq_0)
  ultimately show ?thesis
    by (intro exI [of _ bs]) (auto simp: activity.dec_enc activity.dec_zero activity.enc_eq_zero_iff)
qed

theorem IS_send_activity_spec_witness:
  "\<exists>bs. IS_send_activity True 0 demo_stop =
       Inr (upd_cb 0 (\<lambda>cb. cb\<lparr>send_buf := (send_buf cb)\<lparr>mtype := ACTIVITY, buf := bs\<rparr>\<rparr>) demo_stop) \<and>
     ntohll True (bs ! 3) = 1"
proof -
  have pre: "0 < length (cb_list demo_stop)" "msg_wf (send_buf (cb_at demo_stop 0))"
    by (simp_all add: demo_stop_rc)
  have ops: "last_ops demo_stop = replicate STACKBD_SIZE_G 0"
    by (simp add: demo_stop_def IS_ctx_dma_setup_def counted_def placed_def demo_connected_def
        demo_session_def IS_session_create_def Let_def)
  have "3 < MAX_MR_SIZE_GB" "length (last_ops demo_stop) = STACKBD_SIZE_G" "last_ops demo_stop ! 5 = 0"
    unfolding ops by (simp_all add: MAX_MR_SIZE_GB_def STACKBD_SIZE_G_def)
  then show ?thesis
    using IS_send_activity_spec [OF demo_stop_inv pre(1) demo_stop_rc(3) pre(2), of True]
    by (auto simp: demo_stop_rc(6))
qed

end
