(* ===== verification/Trigger.thy ===== *)
theory Trigger
  imports Evict
begin

text \<open>
  The thread that decides which chunks deserve remote memory (\<open>rdma_trigger\<close>): once per period it folds
  the reads and writes of every chunk into a filtered activity and maps the active chunks that have no
  home. All arithmetic is that of \<open>unsigned long\<close>, modulo \<open>2 ^ 64\<close>.
\<close>

section \<open>One chunk\<close>

definition filter_ops :: "int \<Rightarrow> int \<Rightarrow> u64 \<Rightarrow> u64 \<Rightarrow> u64 \<Rightarrow> u64" where
  "filter_ops w_wt cur_wt cur_write_ops cur_read_ops lst =
     (let r_wt = 100 - w_wt; last_wt = 100 - cur_wt;
          cur_ops = of_int w_wt * cur_write_ops + of_int r_wt * cur_read_ops
      in of_int cur_wt * cur_ops + of_int last_wt * lst)"

text \<open>The loop \<open>do map while (map_res == -1 && map_count < 1)\<close>.\<close>

partial_function (option) map_retry ::
  "bool \<Rightarrow> (nat \<Rightarrow> IS_session \<Rightarrow> net) \<Rightarrow> nat \<Rightarrow> nat \<Rightarrow> nat \<Rightarrow> nat \<Rightarrow> IS_session \<Rightarrow> IS_session res option" where
  "map_retry le env m NUM_CB i map_count s =
     (case IS_single_chunk_map le (env i s) m NUM_CB (int i) s of
        None \<Rightarrow> None
      | Some (Inl e) \<Rightarrow> Some (Inl e)
      | Some (Inr (map_res, s')) \<Rightarrow>
          if map_res = -1 \<and> map_count + 1 < 1 then map_retry le env m NUM_CB i (map_count + 1) s'
          else Some (Inr s'))"

text \<open>The counters are read and reset, the activity is stored, and the chunk is mapped if need be.\<close>

definition account_ops :: "int \<Rightarrow> int \<Rightarrow> nat \<Rightarrow> IS_session \<Rightarrow> (u64 \<times> IS_session) res" where
  "account_ops w_wt cur_wt i s =
     bind_res (arr_get (write_ops s) (int i)) (\<lambda>cur_write_ops.
     bind_res (arr_set (write_ops s) (int i) 0) (\<lambda>wops.
     bind_res (arr_get (read_ops s) (int i)) (\<lambda>cur_read_ops.
     bind_res (arr_set (read_ops s) (int i) 0) (\<lambda>rops.
     bind_res (arr_get (last_ops s) (int i)) (\<lambda>lst.
       let filtered_ops = filter_ops w_wt cur_wt cur_write_ops cur_read_ops lst
       in bind_res (arr_set (last_ops s) (int i) filtered_ops) (\<lambda>lops.
            Inr (filtered_ops, s\<lparr>write_ops := wops, read_ops := rops, last_ops := lops\<rparr>)))))))"

definition trigger_chunk ::
  "bool \<Rightarrow> (nat \<Rightarrow> IS_session \<Rightarrow> net) \<Rightarrow> nat \<Rightarrow> nat \<Rightarrow> u64 \<Rightarrow> int \<Rightarrow> int \<Rightarrow> nat \<Rightarrow> IS_session \<Rightarrow> IS_session res option" where
  "trigger_chunk le env m NUM_CB threshold w_wt cur_wt i s =
     bind_ro (Some (account_ops w_wt cur_wt i s)) (\<lambda>(filtered_ops, s1).
       if threshold < filtered_ops \<and> trigger_enable s1 = TRIGGER_ON
       then bind_ro (Some (arr_get (cb_index_map s1) (int i))) (\<lambda>cb.
              if cb = NO_CB_MAPPED then map_retry le env m NUM_CB i 0 s1 else Some (Inr s1))
       else Some (Inr s1))"

section \<open>The thread\<close>

text \<open>
  The thread copies the threshold and the weights when it starts and clears the counters of the
  transfers; then it runs one round per period. Between two rounds the rest of the driver changes the
  session: \<open>others k\<close> before round \<open>k\<close>. The thread never ends; \<open>rdma_trigger\<close> is its first \<open>n\<close> rounds.
\<close>

definition trigger_start :: "IS_session \<Rightarrow> IS_session res" where
  "trigger_start s =
     for_res (\<lambda>i s. bind_res (arr_set (write_ops s) (int i) 0) (\<lambda>w.
                    bind_res (arr_set (read_ops s) (int i) 0) (\<lambda>r. Inr (s\<lparr>write_ops := w, read_ops := r\<rparr>))))
       [0..<STACKBD_SIZE_G] s"

definition trigger_round ::
  "bool \<Rightarrow> (nat \<Rightarrow> IS_session \<Rightarrow> net) \<Rightarrow> nat \<Rightarrow> nat \<Rightarrow> u64 \<Rightarrow> int \<Rightarrow> int \<Rightarrow> IS_session \<Rightarrow> IS_session res option" where
  "trigger_round le env m NUM_CB threshold w_wt cur_wt s =
     for_ro (trigger_chunk le env m NUM_CB threshold w_wt cur_wt) [0..<STACKBD_SIZE_G] s"

definition rdma_trigger ::
  "bool \<Rightarrow> (nat \<Rightarrow> nat \<Rightarrow> IS_session \<Rightarrow> net) \<Rightarrow> nat \<Rightarrow> nat \<Rightarrow> (nat \<Rightarrow> IS_session \<Rightarrow> IS_session) \<Rightarrow> nat \<Rightarrow> IS_session \<Rightarrow>
     IS_session res option" where
  "rdma_trigger le env m NUM_CB others n s =
     bind_ro (Some (trigger_start s))
       (for_ro (\<lambda>k s'. trigger_round le (env k) m NUM_CB (trigger_threshold s) (w_weight s) (cur_weight s) (others k s'))
          [0..<n])"

section \<open>The mapping leaves the counters alone\<close>

definition ops_of :: "IS_session \<Rightarrow> u64 list \<times> u64 list \<times> u64 list \<times> int" where
  "ops_of s = (write_ops s, read_ops s, last_ops s, trigger_enable s)"

lemma ops_of_upd [simp]: "ops_of (upd_cb c f s) = ops_of s" "ops_of (upd_rc c g s) = ops_of s"
  by (simp_all add: ops_of_def upd_cb_def upd_rc_def)

lemma ops_of_fields [simp]:
  "ops_of (s\<lparr>cb_state_list := a\<rparr>) = ops_of s" "ops_of (s\<lparr>IS_conns := b\<rparr>) = ops_of s"
  "ops_of (s\<lparr>mapped_cb_num := e\<rparr>) = ops_of s" "ops_of (s\<lparr>rdma_on := d\<rparr>) = ops_of s"
  "ops_of (s\<lparr>free_chunk_index := h, chunk_map_cb_chunk := k, cb_index_map := l\<rparr>) = ops_of s"
  by (simp_all add: ops_of_def)








section \<open>One round\<close>











section \<open>Properties\<close>




text \<open>
  The weights are percentages, but the sums are never divided by 100. With the default weights the
  activity of a chunk that is no longer used is multiplied by 20 in every period, modulo \<open>2 ^ 64\<close>,
  and is zero exactly from the period on in which it has lost its last bit: whatever it was, after 32
  idle periods it is zero.
\<close>

theorem idle_activity:
  "(filter_ops RDMA_W_WEIGHT RDMA_CUR_WEIGHT 0 0 ^^ n) x = 20 ^ n * x \<and>
   (filter_ops RDMA_W_WEIGHT RDMA_CUR_WEIGHT 0 0 ^^ (32 + n)) x = 0 \<and>
   (filter_ops RDMA_W_WEIGHT RDMA_CUR_WEIGHT 0 0 ^^ 31) 1 \<noteq> 0"
proof -
  have pow: "(filter_ops RDMA_W_WEIGHT RDMA_CUR_WEIGHT 0 0 ^^ k) y = 20 ^ k * y" for k y
    by (induction k) (simp_all add: filter_ops_def RDMA_W_WEIGHT_def RDMA_CUR_WEIGHT_def)
  have zero: "(20 :: u64) ^ 32 = 0" by simp
  have "(20 :: u64) ^ (32 + n) * x = 0" unfolding power_add zero by simp
  moreover have "(20 :: u64) ^ 31 * 1 \<noteq> 0" by simp
  ultimately show ?thesis unfolding pow by blast
qed

end
