(* ===== verification/Daemon.thy ===== *)
theory Daemon
  imports Byte_Order IS_Types
begin

text \<open>
  The memory daemon (\<open>rdma-common.c\<close>, \<open>infiniswap-daemon.c\<close>): its session with up to 32 clients, the
  table of the 1 GB chunks it lends, and the handlers of connection events and messages. A connection
  lives on a heap indexed by the number of its \<open>rdma_cm_id\<close>; a handler returns the messages it sends,
  in order, and the new state. What the verbs library answers is the record \<open>ibv\<close>.
\<close>

section \<open>Data\<close>

definition MAX_CLIENT :: nat where "MAX_CLIENT = 32"
definition MAX_FREE_MEM_GB :: nat where "MAX_FREE_MEM_GB = 32"
definition CHUNK_MALLOCED :: int where "CHUNK_MALLOCED = 1"
definition CHUNK_EMPTY :: int where "CHUNK_EMPTY = 0"
definition CQ_QP_BUSY :: int where "CQ_QP_BUSY = 1"
definition CQ_QP_IDLE :: int where "CQ_QP_IDLE = 0"

lemmas daemon_consts = MAX_CLIENT_def MAX_FREE_MEM_GB_def CHUNK_MALLOCED_def CHUNK_EMPTY_def
  CQ_QP_BUSY_def CQ_QP_IDLE_def

datatype server_state = S_WAIT | S_BIND | S_DONE
datatype send_state = SS_INIT | SS_MR_SENT | SS_STOP_SENT | SS_DONE_SENT
datatype recv_state = RS_INIT | RS_STOPPED_RECV | RS_DONE_RECV
datatype conn_state = CONN_IDLE | CONN_CONNECTED | CONN_MAPPED | CONN_FAILED

text \<open>
  \<open>struct connection\<close>. The index is None as long as it is not initialised; the semaphores are their
  counters; \<open>posted\<close> is the number of receive requests waiting in the queue pair.
\<close>

record connection =
  conn_index :: "int option"
  sess_chunk_map :: "int list"
  mapped_chunk_size :: int
  evict_sem :: nat
  stop_sem :: nat
  connected :: bool
  recv_msg :: IS_rdma_info
  send_msg :: IS_rdma_info
  cq_qp_state :: int
  free_mem_gb :: int
  server_st :: server_state
  send_st :: send_state
  recv_st :: recv_state
  posted :: nat

text \<open>\<open>struct rdma_remote_mem\<close>; of a region and of its registration only the status is kept.\<close>

record rdma_remote_mem =
  region_list :: "ptr_state list"
  mr_list :: "ptr_state list"
  mem_size_gb :: int
  mapped_size :: int
  conn_map :: "int list"
  malloc_map :: "int list"
  conn_chunk_map :: "int list"

text \<open>\<open>struct rdma_session\<close> with the other globals: the verbs context and \<open>running\<close>.\<close>

record daemon =
  conns :: "nat option list"
  conns_state :: "conn_state list"
  conn_num :: int
  rdma_remote :: rdma_remote_mem
  heap :: "nat \<Rightarrow> connection option"
  s_ctx :: "nat option"
  running :: bool

text \<open>The verbs library: which calls succeed, and the address and key of a registered region.\<close>

record ibv =
  ctx_ok :: bool
  create_qp_ok :: bool
  reg_msg_ok :: bool
  post_recv_ok :: bool
  post_send_ok :: bool
  reg_mr :: "nat \<Rightarrow> (u64 \<times> u32) option"

type_synonym sent = "(nat \<times> IS_rdma_info) list"

section \<open>Access to a connection\<close>

definition get_conn :: "nat \<Rightarrow> daemon \<Rightarrow> connection res" where
  "get_conn cid d = (case heap d cid of None \<Rightarrow> Inl Use_After_Free | Some conn \<Rightarrow> Inr conn)"

definition put_conn :: "nat \<Rightarrow> connection \<Rightarrow> daemon \<Rightarrow> daemon" where
  "put_conn cid conn d = d\<lparr>heap := (heap d)(cid := Some conn)\<rparr>"

definition upd_remote :: "(rdma_remote_mem \<Rightarrow> rdma_remote_mem) \<Rightarrow> daemon \<Rightarrow> daemon" where
  "upd_remote f d = d\<lparr>rdma_remote := f (rdma_remote d)\<rparr>"

definition the_index :: "connection \<Rightarrow> int res" where
  "the_index conn = (case conn_index conn of None \<Rightarrow> Inl Uninit_Read | Some i \<Rightarrow> Inr i)"

definition set_conns_state :: "connection \<Rightarrow> conn_state \<Rightarrow> daemon \<Rightarrow> daemon res" where
  "set_conns_state conn st d =
     bind_res (the_index conn) (\<lambda>i.
     bind_res (arr_set (conns_state d) i st) (\<lambda>l. Inr (d\<lparr>conns_state := l\<rparr>)))"

section \<open>Receives and sends\<close>

definition post_receives :: "ibv \<Rightarrow> nat \<Rightarrow> daemon \<Rightarrow> daemon res" where
  "post_receives v cid d =
     bind_res (get_conn cid d) (\<lambda>conn.
       if post_recv_ok v then Inr (put_conn cid (conn\<lparr>posted := posted conn + 1\<rparr>) d) else Inl Died)"

text \<open>\<open>while (!conn->connected);\<close> spins until the connection is established.\<close>

definition send_message :: "ibv \<Rightarrow> nat \<Rightarrow> daemon \<Rightarrow> (sent \<times> daemon) res" where
  "send_message v cid d =
     bind_res (get_conn cid d) (\<lambda>conn.
       if \<not> connected conn then Inl Blocked
       else if post_send_ok v then Inr ([(cid, send_msg conn)], d) else Inl Died)"

section \<open>Connections\<close>

definition build_context :: "ibv \<Rightarrow> nat \<Rightarrow> daemon \<Rightarrow> daemon res" where
  "build_context v verbs d =
     (case s_ctx d of
        Some ctx \<Rightarrow> if ctx \<noteq> verbs then Inl Died else Inr d
      | None \<Rightarrow> if ctx_ok v then Inr (d\<lparr>s_ctx := Some verbs\<rparr>) else Inl Died)"

definition register_memory :: "ibv \<Rightarrow> nat \<Rightarrow> IS_rdma_info \<Rightarrow> daemon \<Rightarrow> daemon res" where
  "register_memory v cid fresh d =
     bind_res (get_conn cid d) (\<lambda>conn.
       if reg_msg_ok v then Inr (put_conn cid (conn\<lparr>send_msg := fresh, recv_msg := fresh\<rparr>) d) else Inl Died)"

text \<open>The first idle slot of the session, if any, is given to the connection.\<close>

fun add_to_session :: "nat \<Rightarrow> nat list \<Rightarrow> daemon \<Rightarrow> daemon res" where
  "add_to_session cid [] d = Inr d"
| "add_to_session cid (i # is) d =
     bind_res (arr_get (conns_state d) (int i)) (\<lambda>st.
       if st = CONN_IDLE
       then bind_res (get_conn cid d) (\<lambda>conn.
            bind_res (arr_set (conns d) (int i) (Some cid)) (\<lambda>cs.
            bind_res (arr_set (conns_state d) (int i) CONN_CONNECTED) (\<lambda>sts.
              Inr (put_conn cid (conn\<lparr>conn_index := Some (int i)\<rparr>) (d\<lparr>conns := cs, conns_state := sts\<rparr>)))))
       else add_to_session cid is d)"

text \<open>\<open>fresh\<close> is the content of the message buffers as \<open>malloc\<close> leaves it.\<close>

definition new_conn :: "IS_rdma_info \<Rightarrow> connection" where
  "new_conn fresh =
     \<lparr>conn_index = None, sess_chunk_map = replicate MAX_FREE_MEM_GB (-1), mapped_chunk_size = 0,
      evict_sem = 0, stop_sem = 0, connected = False, recv_msg = fresh, send_msg = fresh,
      cq_qp_state = CQ_QP_BUSY, free_mem_gb = 0, server_st = S_WAIT, send_st = SS_INIT, recv_st = RS_INIT,
      posted = 0\<rparr>"

definition build_connection :: "ibv \<Rightarrow> IS_rdma_info \<Rightarrow> nat \<Rightarrow> nat \<Rightarrow> daemon \<Rightarrow> daemon res" where
  "build_connection v fresh verbs cid d =
     bind_res (build_context v verbs d) (\<lambda>d.
       if \<not> create_qp_ok v then Inl Died
       else bind_res (add_to_session cid [0..<MAX_CLIENT] (put_conn cid (new_conn fresh) d)) (\<lambda>d.
            bind_res (register_memory v cid fresh (d\<lparr>conn_num := conn_num d + 1\<rparr>)) (post_receives v cid)))"

definition on_connect_request :: "ibv \<Rightarrow> IS_rdma_info \<Rightarrow> nat \<Rightarrow> nat \<Rightarrow> bool \<Rightarrow> daemon \<Rightarrow> daemon res" where
  "on_connect_request v fresh verbs cid accept_ok d =
     bind_res (build_connection v fresh verbs cid d) (\<lambda>d. if accept_ok then Inr d else Inl Died)"

definition on_connect :: "nat \<Rightarrow> daemon \<Rightarrow> daemon res" where
  "on_connect cid d = bind_res (get_conn cid d) (\<lambda>conn. Inr (put_conn cid (conn\<lparr>connected := True\<rparr>) d))"

definition send_free_mem_size :: "ibv \<Rightarrow> nat \<Rightarrow> daemon \<Rightarrow> (sent \<times> daemon) res" where
  "send_free_mem_size v cid d =
     bind_res (get_conn cid d) (\<lambda>conn.
       send_message v cid (put_conn cid (conn\<lparr>send_msg := (send_msg conn)
         \<lparr>mtype := FREE_SIZE, size_gb := mem_size_gb (rdma_remote d) - mapped_size (rdma_remote d)\<rparr>\<rparr>) d))"

definition on_connection :: "ibv \<Rightarrow> nat \<Rightarrow> daemon \<Rightarrow> (sent \<times> daemon) res" where
  "on_connection v cid d = bind_res (on_connect cid d) (send_free_mem_size v cid)"

text \<open>
  The chunks of a connection become free again when it is destroyed; their memory regions stay
  registered. The daemon stops with its last client.
\<close>

definition unlend :: "connection \<Rightarrow> nat \<Rightarrow> rdma_remote_mem \<Rightarrow> rdma_remote_mem res" where
  "unlend conn i r =
     bind_res (arr_get (sess_chunk_map conn) (int i)) (\<lambda>index.
       if index = -1 then Inr r
       else bind_res (arr_set (conn_map r) index (-1)) (\<lambda>cm.
            bind_res (arr_set (conn_chunk_map r) index (-1)) (\<lambda>ccm.
              Inr (r\<lparr>conn_map := cm, conn_chunk_map := ccm\<rparr>))))"

definition destroy_connection :: "nat \<Rightarrow> daemon \<Rightarrow> daemon res" where
  "destroy_connection cid d =
     bind_res (get_conn cid d) (\<lambda>conn.
     bind_res (if 0 < mapped_chunk_size conn
               then bind_res (for_res (unlend conn) [0..<MAX_MR_SIZE_GB] (rdma_remote d)) (\<lambda>r.
                      Inr (r\<lparr>mapped_size := mapped_size r - mapped_chunk_size conn\<rparr>))
               else Inr (rdma_remote d)) (\<lambda>r.
     bind_res (the_index conn) (\<lambda>i.
     bind_res (arr_set (conns d) i None) (\<lambda>cs.
     bind_res (arr_set (conns_state d) i CONN_IDLE) (\<lambda>sts.
       Inr (d\<lparr>rdma_remote := r, conns := cs, conns_state := sts, conn_num := conn_num d - 1,
              running := (if conn_num d - 1 = 0 then False else running d),
              heap := (heap d)(cid := None)\<rparr>))))))"

definition on_disconnect :: "nat \<Rightarrow> daemon \<Rightarrow> daemon res" where
  "on_disconnect cid d = destroy_connection cid d"

section \<open>Lending chunks\<close>

text \<open>The chunk \<open>i\<close> is allocated and not lent.\<close>

definition lendable :: "rdma_remote_mem \<Rightarrow> nat \<Rightarrow> bool res" where
  "lendable r i =
     bind_res (arr_get (malloc_map r) (int i)) (\<lambda>m.
       if m = CHUNK_MALLOCED then bind_res (arr_get (conn_map r) (int i)) (\<lambda>c. Inr (c = -1)) else Inr False)"

text \<open>The chunk is entered in the tables of the session and the connection, its region is registered
  and its address and key are written into the message.\<close>

definition lend_chunk ::
  "bool \<Rightarrow> ibv \<Rightarrow> nat \<Rightarrow> connection \<times> rdma_remote_mem \<Rightarrow> (connection \<times> rdma_remote_mem) res" where
  "lend_chunk le v i = (\<lambda>(conn, r).
     bind_res (arr_set (sess_chunk_map conn) (int i) (int i)) (\<lambda>scm.
     bind_res (the_index conn) (\<lambda>idx.
     bind_res (arr_set (conn_map r) (int i) idx) (\<lambda>cm.
       case reg_mr v i of None \<Rightarrow> Inl Died
       | Some (addr, key) \<Rightarrow>
           bind_res (arr_set (mr_list r) (int i) Live) (\<lambda>mrs.
           bind_res (arr_set (buf (send_msg conn)) (int i) (daemon_htonll le addr)) (\<lambda>bs.
           bind_res (arr_set (rkey (send_msg conn)) (int i) (htonl le key)) (\<lambda>ks.
             Inr (conn\<lparr>sess_chunk_map := scm, send_msg := (send_msg conn)\<lparr>buf := bs, rkey := ks\<rparr>\<rparr>,
                  r\<lparr>conn_map := cm, mr_list := mrs\<rparr>))))))))"

text \<open>The loop of \<open>send_single_mr\<close>: the first lendable chunk, if any.\<close>

fun lend_first ::
  "bool \<Rightarrow> ibv \<Rightarrow> nat list \<Rightarrow> connection \<times> rdma_remote_mem \<Rightarrow> (connection \<times> rdma_remote_mem) res" where
  "lend_first le v [] x = Inr x"
| "lend_first le v (i # is) x =
     bind_res (lendable (snd x) i) (\<lambda>ok. if ok then lend_chunk le v i x else lend_first le v is x)"

text \<open>The loop of \<open>send_mr\<close>: lendable chunks until \<open>j == size\<close>.\<close>

fun lend_many ::
  "bool \<Rightarrow> ibv \<Rightarrow> int \<Rightarrow> int \<Rightarrow> nat list \<Rightarrow> connection \<times> rdma_remote_mem \<Rightarrow> (connection \<times> rdma_remote_mem) res" where
  "lend_many le v size_n j [] x = Inr x"
| "lend_many le v size_n j (i # is) x =
     bind_res (lendable (snd x) i) (\<lambda>ok.
       if ok
       then bind_res (lend_chunk le v i x) (\<lambda>x'.
              if j + 1 = size_n then Inr x' else lend_many le v size_n (j + 1) is x')
       else lend_many le v size_n j is x)"

definition clear_keys :: "connection \<Rightarrow> connection res" where
  "clear_keys conn =
     bind_res (for_res (\<lambda>i ks. arr_set ks (int i) 0) [0..<MAX_FREE_MEM_GB] (rkey (send_msg conn))) (\<lambda>ks.
       Inr (conn\<lparr>send_msg := (send_msg conn)\<lparr>rkey := ks\<rparr>\<rparr>))"

definition send_single_mr :: "bool \<Rightarrow> ibv \<Rightarrow> nat \<Rightarrow> int \<Rightarrow> daemon \<Rightarrow> (sent \<times> daemon) res" where
  "send_single_mr le v cid client_chunk_index d =
     bind_res (get_conn cid d) (\<lambda>conn.
     bind_res (clear_keys (conn\<lparr>send_msg := (send_msg conn)\<lparr>size_gb := client_chunk_index\<rparr>\<rparr>)) (\<lambda>conn.
     bind_res (lend_first le v [0..<MAX_FREE_MEM_GB] (conn, rdma_remote d)) (\<lambda>(conn, r).
       send_message v cid
         (put_conn cid (conn\<lparr>mapped_chunk_size := mapped_chunk_size conn + 1,
                             send_msg := (send_msg conn)\<lparr>mtype := INFO_SINGLE\<rparr>\<rparr>)
           (d\<lparr>rdma_remote := r\<lparr>mapped_size := mapped_size r + 1\<rparr>\<rparr>)))))"

definition send_mr :: "bool \<Rightarrow> ibv \<Rightarrow> nat \<Rightarrow> int \<Rightarrow> daemon \<Rightarrow> (sent \<times> daemon) res" where
  "send_mr le v cid size_n d =
     bind_res (get_conn cid d) (\<lambda>conn.
     bind_res (clear_keys (conn\<lparr>send_msg := (send_msg conn)\<lparr>size_gb := size_n\<rparr>\<rparr>)) (\<lambda>conn.
     bind_res (lend_many le v size_n 0 [0..<MAX_FREE_MEM_GB] (conn, rdma_remote d)) (\<lambda>(conn, r).
       send_message v cid
         (put_conn cid (conn\<lparr>mapped_chunk_size := mapped_chunk_size conn + size_n,
                             send_msg := (send_msg conn)\<lparr>mtype := INFO\<rparr>\<rparr>)
           (d\<lparr>rdma_remote := r\<lparr>mapped_size := mapped_size r + size_n\<rparr>\<rparr>)))))"

section \<open>Chunks given back\<close>

text \<open>\<open>free\<close> of a region.\<close>

definition free_region :: "ptr_state list \<Rightarrow> int \<Rightarrow> ptr_state list res" where
  "free_region regions i =
     bind_res (arr_get regions i) (\<lambda>p. if p = Live then arr_set regions i Freed else Inl Bad_Free)"

text \<open>Chunk \<open>i\<close> of the message that ends an eviction.\<close>

definition take_back :: "IS_rdma_info \<Rightarrow> nat \<Rightarrow> connection \<times> rdma_remote_mem \<Rightarrow> (connection \<times> rdma_remote_mem) res" where
  "take_back m i = (\<lambda>(conn, r).
     bind_res (arr_get (rkey m) (int i)) (\<lambda>rk.
       if rk \<noteq> 0
       then bind_res (arr_get (sess_chunk_map conn) (int i)) (\<lambda>index.
            bind_res (arr_set (sess_chunk_map conn) (int i) (-1)) (\<lambda>scm.
            bind_res (arr_get (mr_list r) index) (\<lambda>mr.
              if mr \<noteq> Live then Inl Use_After_Free
              else bind_res (arr_set (mr_list r) index Freed) (\<lambda>mrs.
                   bind_res (free_region (region_list r) index) (\<lambda>regs.
                   bind_res (arr_set (conn_map r) index (-1)) (\<lambda>cm.
                   bind_res (arr_set (malloc_map r) index CHUNK_EMPTY) (\<lambda>mm.
                   bind_res (arr_set (conn_chunk_map r) index (-1)) (\<lambda>ccm.
                     Inr (conn\<lparr>sess_chunk_map := scm\<rparr>,
                          r\<lparr>mr_list := mrs, region_list := regs, conn_map := cm, malloc_map := mm,
                            conn_chunk_map := ccm\<rparr>)))))))))
       else Inr (conn, r)))"

definition recv_done :: "ibv \<Rightarrow> nat \<Rightarrow> daemon \<Rightarrow> daemon res" where
  "recv_done v cid d =
     bind_res (get_conn cid d) (\<lambda>conn.
       let m = recv_msg conn; evict_g = size_gb m
       in bind_res (for_res (take_back m) [0..<MAX_MR_SIZE_GB] (conn, rdma_remote d)) (\<lambda>(conn, r).
            let conn = conn\<lparr>mapped_chunk_size := mapped_chunk_size conn - evict_g, stop_sem := stop_sem conn + 1\<rparr>;
                d = put_conn cid conn (d\<lparr>rdma_remote :=
                      r\<lparr>mem_size_gb := mem_size_gb r - evict_g, mapped_size := mapped_size r - evict_g\<rparr>\<rparr>)
            in bind_res (if mapped_chunk_size conn = 0 then set_conns_state conn CONN_CONNECTED d else Inr d)
                 (post_receives v cid)))"

section \<open>Messages and events\<close>

text \<open>A completion: a message was received into \<open>recv_msg\<close>, or a send is finished.\<close>

datatype wc = Wc_Recv IS_rdma_info | Wc_Send

definition set_cq_busy :: "nat \<Rightarrow> int \<Rightarrow> daemon \<Rightarrow> daemon res" where
  "set_cq_busy cid st d = bind_res (get_conn cid d) (\<lambda>conn. Inr (put_conn cid (conn\<lparr>cq_qp_state := st\<rparr>) d))"

definition then_post :: "ibv \<Rightarrow> nat \<Rightarrow> (sent \<times> daemon) res \<Rightarrow> (sent \<times> daemon) res" where
  "then_post v cid r = bind_res r (\<lambda>(out, d). bind_res (post_receives v cid d) (\<lambda>d. Inr (out, d)))"

definition bind_reply :: "nat \<Rightarrow> (sent \<times> daemon) res \<Rightarrow> (sent \<times> daemon) res" where
  "bind_reply cid r =
     bind_res r (\<lambda>(out, d).
     bind_res (get_conn cid d) (\<lambda>conn.
     bind_res (set_conns_state conn CONN_MAPPED d) (\<lambda>d. Inr (out, d))))"

definition on_completion :: "bool \<Rightarrow> ibv \<Rightarrow> nat \<Rightarrow> bool \<Rightarrow> wc \<Rightarrow> daemon \<Rightarrow> (sent \<times> daemon) res" where
  "on_completion le v cid status_ok w d =
     (if \<not> status_ok then Inl Died
      else (case w of
          Wc_Send \<Rightarrow> bind_res (set_cq_busy cid CQ_QP_IDLE d) (\<lambda>d. Inr ([], d))
        | Wc_Recv m \<Rightarrow>
            bind_res (get_conn cid d) (\<lambda>conn.
              if posted conn = 0 then Inl Blocked
              else
                let d = put_conn cid (conn\<lparr>recv_msg := m, posted := posted conn - 1\<rparr>) d;
                    busy = (\<lambda>k. bind_res (set_cq_busy cid CQ_QP_BUSY d) k);
                    bind = (\<lambda>k. busy (\<lambda>d. bind_res (get_conn cid d) (\<lambda>conn.
                              k (put_conn cid (conn\<lparr>server_st := S_BIND\<rparr>) d))))
                in (case mtype m of
                      QUERY \<Rightarrow> then_post v cid (busy (send_free_mem_size v cid))
                    | BIND \<Rightarrow> then_post v cid (bind_reply cid (bind (send_mr le v cid (size_gb m))))
                    | BIND_SINGLE \<Rightarrow> then_post v cid (bind_reply cid (bind (send_single_mr le v cid (size_gb m))))
                    | ACTIVITY \<Rightarrow> bind_res (get_conn cid d) (\<lambda>conn.
                        Inr ([], put_conn cid (conn\<lparr>evict_sem := evict_sem conn + 1\<rparr>) d))
                    | DONE \<Rightarrow> busy (\<lambda>d. bind_res (recv_done v cid d) (\<lambda>d. Inr ([], d)))
                    | _ \<Rightarrow> Inl Died))))"

text \<open>The other messages of the daemon; \<open>send_terminate\<close> is never called.\<close>

definition send_evict :: "ibv \<Rightarrow> nat \<Rightarrow> int \<Rightarrow> daemon \<Rightarrow> (sent \<times> daemon) res" where
  "send_evict v cid n d =
     bind_res (get_conn cid d) (\<lambda>conn.
     bind_res (clear_keys (conn\<lparr>send_msg := (send_msg conn)\<lparr>mtype := EVICT, size_gb := n\<rparr>\<rparr>)) (\<lambda>conn.
       send_message v cid (put_conn cid conn d)))"

definition send_terminate :: "ibv \<Rightarrow> nat \<Rightarrow> daemon \<Rightarrow> (sent \<times> daemon) res" where
  "send_terminate v cid d =
     bind_res (get_conn cid d) (\<lambda>conn.
       send_message v cid (put_conn cid (conn\<lparr>send_msg := (send_msg conn)\<lparr>mtype := DONE\<rparr>\<rparr>) d))"

text \<open>The event loop of the main program.\<close>

datatype cm_input = Connect_Request nat bool IS_rdma_info | Established | Disconnected | Other_Event

definition on_event :: "ibv \<Rightarrow> nat \<Rightarrow> cm_input \<Rightarrow> daemon \<Rightarrow> (sent \<times> daemon) res" where
  "on_event v cid ev d =
     (case ev of
        Connect_Request verbs accept_ok fresh \<Rightarrow>
          bind_res (on_connect_request v fresh verbs cid accept_ok d) (\<lambda>d. Inr ([], d))
      | Established \<Rightarrow> on_connection v cid d
      | Disconnected \<Rightarrow> bind_res (on_disconnect cid d) (\<lambda>d. Inr ([], d))
      | Other_Event \<Rightarrow> Inl Died)"

end
