(* ===== verification/Daemon_Inv.thy ===== *)
theory Daemon_Inv
  imports Daemon "HOL-Library.Multiset"
begin

text \<open>
  The invariant of the memory daemon and what its handlers do: the tables of the session, of the
  connections and the counters agree, every handler of a well-behaved client keeps them so, and the
  daemon refines an abstract lender of chunks.
\<close>

section \<open>The invariant\<close>

abbreviation lent_at :: "rdma_remote_mem \<Rightarrow> nat \<Rightarrow> int" where
  "lent_at r i \<equiv> conn_map r ! i"

text \<open>The chunk table: a lent chunk is allocated and registered, the counters count.\<close>

definition mem_inv :: "rdma_remote_mem \<Rightarrow> bool" where
  "mem_inv r \<longleftrightarrow>
     length (region_list r) = MAX_FREE_MEM_GB \<and> length (mr_list r) = MAX_FREE_MEM_GB \<and>
     length (conn_map r) = MAX_FREE_MEM_GB \<and> length (malloc_map r) = MAX_FREE_MEM_GB \<and>
     length (conn_chunk_map r) = MAX_FREE_MEM_GB \<and>
     (\<forall>i < MAX_FREE_MEM_GB. malloc_map r ! i \<in> {CHUNK_EMPTY, CHUNK_MALLOCED} \<and>
        (region_list r ! i = Live \<longleftrightarrow> malloc_map r ! i = CHUNK_MALLOCED) \<and>
        (lent_at r i \<noteq> -1 \<longrightarrow> 0 \<le> lent_at r i \<and> lent_at r i < int MAX_CLIENT \<and>
           malloc_map r ! i = CHUNK_MALLOCED \<and> mr_list r ! i = Live)) \<and>
     mem_size_gb r = count_if (\<lambda>m. m = CHUNK_MALLOCED) (malloc_map r) \<and>
     mapped_size r = count_if (\<lambda>c. c \<noteq> -1) (conn_map r)"

text \<open>A connection in slot \<open>c\<close> knows its chunks.\<close>

definition conn_inv :: "rdma_remote_mem \<Rightarrow> nat \<Rightarrow> connection \<Rightarrow> bool" where
  "conn_inv r c conn \<longleftrightarrow>
     conn_index conn = Some (int c) \<and> length (sess_chunk_map conn) = MAX_MR_SIZE_GB \<and>
     (\<forall>i < MAX_MR_SIZE_GB. sess_chunk_map conn ! i = (if lent_at r i = int c then int i else -1)) \<and>
     mapped_chunk_size conn = count_if (\<lambda>e. e = int c) (conn_map r) \<and> msg_wf (send_msg conn)"

definition slot_inv :: "daemon \<Rightarrow> nat \<Rightarrow> bool" where
  "slot_inv d c \<longleftrightarrow>
     (case conns d ! c of
        None \<Rightarrow> conns_state d ! c = CONN_IDLE \<and> (\<forall>i < MAX_FREE_MEM_GB. lent_at (rdma_remote d) i \<noteq> int c)
      | Some cid \<Rightarrow> (\<exists>conn. heap d cid = Some conn \<and> conn_inv (rdma_remote d) c conn \<and>
          conns_state d ! c = (if mapped_chunk_size conn = 0 then CONN_CONNECTED else CONN_MAPPED)))"

definition daemon_inv :: "daemon \<Rightarrow> bool" where
  "daemon_inv d \<longleftrightarrow>
     mem_inv (rdma_remote d) \<and> length (conns d) = MAX_CLIENT \<and> length (conns_state d) = MAX_CLIENT \<and>
     (\<forall>c < MAX_CLIENT. slot_inv d c) \<and> conn_num d = count_if (\<lambda>x. x \<noteq> None) (conns d) \<and>
     (\<forall>cid conn. heap d cid = Some conn \<longrightarrow>
        (\<exists>c < MAX_CLIENT. conn_index conn = Some (int c) \<and> conns d ! c = Some cid))"

lemma MAX_sizes: "MAX_MR_SIZE_GB = MAX_FREE_MEM_GB"
  by (simp add: MAX_MR_SIZE_GB_def MAX_FREE_MEM_GB_def)

lemma mem_invD:
  assumes "mem_inv r"
  shows "length (region_list r) = MAX_FREE_MEM_GB" "length (mr_list r) = MAX_FREE_MEM_GB"
    "length (conn_map r) = MAX_FREE_MEM_GB" "length (malloc_map r) = MAX_FREE_MEM_GB"
    "length (conn_chunk_map r) = MAX_FREE_MEM_GB"
    "mem_size_gb r = count_if (\<lambda>m. m = CHUNK_MALLOCED) (malloc_map r)"
    "mapped_size r = count_if (\<lambda>c. c \<noteq> -1) (conn_map r)"
    "i < MAX_FREE_MEM_GB \<Longrightarrow> malloc_map r ! i = CHUNK_EMPTY \<or> malloc_map r ! i = CHUNK_MALLOCED"
    "i < MAX_FREE_MEM_GB \<Longrightarrow> region_list r ! i = Live \<longleftrightarrow> malloc_map r ! i = CHUNK_MALLOCED"
    "i < MAX_FREE_MEM_GB \<Longrightarrow> lent_at r i \<noteq> -1 \<Longrightarrow>
       0 \<le> lent_at r i \<and> lent_at r i < int MAX_CLIENT \<and> malloc_map r ! i = CHUNK_MALLOCED \<and> mr_list r ! i = Live"
  using assms by (auto simp: mem_inv_def)

lemma daemon_inv_slot: "daemon_inv d \<Longrightarrow> c < MAX_CLIENT \<Longrightarrow> slot_inv d c"
  by (simp add: daemon_inv_def)

text \<open>The live connections: the slot of a connection and its state.\<close>

lemma daemon_invE:
  assumes "daemon_inv d" "heap d cid = Some conn"
  obtains c where "c < MAX_CLIENT" "conns d ! c = Some cid" "conn_inv (rdma_remote d) c conn"
    "conns_state d ! c = (if mapped_chunk_size conn = 0 then CONN_CONNECTED else CONN_MAPPED)"
proof -
  obtain c where c: "c < MAX_CLIENT" "conns d ! c = Some cid" using assms unfolding daemon_inv_def by blast
  then have "slot_inv d c" using assms by (simp add: daemon_inv_def)
  with c assms(2) that show thesis by (auto simp: slot_inv_def)
qed

text \<open>A change at one slot: the records, states and chunks of the other slots stay.\<close>

lemma slot_inv_frame:
  assumes s: "slot_inv d e"
    and same: "conns d' ! e = conns d ! e" "conns_state d' ! e = conns_state d ! e"
      "\<And>k. conns d ! e = Some k \<Longrightarrow> heap d' k = heap d k"
    and len: "length (conn_map (rdma_remote d)) = MAX_FREE_MEM_GB" "length (conn_map (rdma_remote d')) = MAX_FREE_MEM_GB"
    and own: "\<And>i. i < MAX_FREE_MEM_GB \<Longrightarrow> lent_at (rdma_remote d') i = int e \<longleftrightarrow> lent_at (rdma_remote d) i = int e"
  shows "slot_inv d' e"
proof (cases "conns d ! e")
  case None
  then show ?thesis using s same own by (simp add: slot_inv_def)
next
  case (Some k)
  then obtain conn where k: "heap d k = Some conn" "conn_inv (rdma_remote d) e conn"
    "conns_state d ! e = (if mapped_chunk_size conn = 0 then CONN_CONNECTED else CONN_MAPPED)"
    using s by (auto simp: slot_inv_def)
  have "count_if (\<lambda>x. x = int e) (conn_map (rdma_remote d')) = count_if (\<lambda>x. x = int e) (conn_map (rdma_remote d))"
    using own by (intro count_if_cong) (simp_all add: len)
  then have "conn_inv (rdma_remote d') e conn" using k(2) own by (simp add: conn_inv_def MAX_sizes)
  then show ?thesis using Some k same by (simp add: slot_inv_def)
qed

lemma slots_distinct:
  assumes inv: "daemon_inv d" and c: "c < MAX_CLIENT" "e < MAX_CLIENT" "conns d ! c = Some k" "conns d ! e = Some k"
  shows "e = c"
proof -
  obtain cn cn' where "heap d k = Some cn" "conn_inv (rdma_remote d) c cn" "heap d k = Some cn'" "conn_inv (rdma_remote d) e cn'"
    using daemon_inv_slot [OF inv c(1)] daemon_inv_slot [OF inv c(2)] c by (auto simp: slot_inv_def)
  then show ?thesis by (simp add: conn_inv_def)
qed

text \<open>A change by one connection: its record, its slot's state and its chunks.\<close>

lemma daemon_inv_change:
  assumes inv: "daemon_inv d" and c: "c < MAX_CLIENT" "conns d ! c = Some cid"
    and d': "d' = d\<lparr>heap := (heap d)(cid := Some conn'), rdma_remote := r', conns_state := (conns_state d)[c := st]\<rparr>"
    and r': "mem_inv r'" "conn_inv r' c conn'"
    and st: "st = (if mapped_chunk_size conn' = 0 then CONN_CONNECTED else CONN_MAPPED)"
    and others: "\<And>i e. i < MAX_FREE_MEM_GB \<Longrightarrow> e \<noteq> c \<Longrightarrow> lent_at r' i = int e \<longleftrightarrow> lent_at (rdma_remote d) i = int e"
  shows "daemon_inv d'"
proof -
  have len: "length (conns d) = MAX_CLIENT" "length (conns_state d) = MAX_CLIENT"
    "length (conn_map (rdma_remote d)) = MAX_FREE_MEM_GB" "length (conn_map r') = MAX_FREE_MEM_GB"
    using inv r'(1) by (simp_all add: daemon_inv_def mem_inv_def)
  have slot: "slot_inv d' e" if e: "e < MAX_CLIENT" for e
  proof (cases "e = c")
    case True
    then show ?thesis using c len r'(2) st by (simp add: slot_inv_def d')
  next
    case False
    show ?thesis
    proof (rule slot_inv_frame [OF daemon_inv_slot [OF inv e]])
      fix k
      assume "conns d ! e = Some k"
      then have "k \<noteq> cid" using slots_distinct [OF inv c(1) e c(2)] False by auto
      then show "heap d' k = heap d k" by (simp add: d')
    qed (use False others len in \<open>simp_all add: d'\<close>)
  qed
  have "\<exists>e < MAX_CLIENT. conn_index cn = Some (int e) \<and> conns d ! e = Some k" if "heap d' k = Some cn" for k cn
    using that inv c r'(2) by (cases "k = cid") (auto simp: d' daemon_inv_def conn_inv_def)
  then show ?thesis using inv r'(1) slot len by (simp add: daemon_inv_def d')
qed

section \<open>The abstract lender\<close>

text \<open>What the daemon promises: a set of chunks, some of them lent to a slot.\<close>

record lender =
  owned :: "nat set"
  lent :: "nat \<Rightarrow> nat option"

definition spare :: "lender \<Rightarrow> nat set" where
  "spare l = {i \<in> owned l. lent l i = None}"

definition lend_one :: "nat \<Rightarrow> lender \<Rightarrow> lender" where
  "lend_one c l = l\<lparr>lent := (lent l)(Min (spare l) := Some c)\<rparr>"

definition give_back :: "nat set \<Rightarrow> lender \<Rightarrow> lender" where
  "give_back M l = l\<lparr>owned := owned l - M, lent := (\<lambda>i. if i \<in> M then None else lent l i)\<rparr>"

definition leave :: "nat \<Rightarrow> lender \<Rightarrow> lender" where
  "leave c l = l\<lparr>lent := (\<lambda>i. if lent l i = Some c then None else lent l i)\<rparr>"

definition abs_mem :: "rdma_remote_mem \<Rightarrow> lender" where
  "abs_mem r = \<lparr>owned = {i. i < MAX_FREE_MEM_GB \<and> malloc_map r ! i = CHUNK_MALLOCED},
     lent = (\<lambda>i. if i < MAX_FREE_MEM_GB \<and> lent_at r i \<noteq> -1 then Some (nat (lent_at r i)) else None)\<rparr>"

definition free_chunk :: "rdma_remote_mem \<Rightarrow> nat \<Rightarrow> bool" where
  "free_chunk r i \<longleftrightarrow> malloc_map r ! i = CHUNK_MALLOCED \<and> lent_at r i = -1"

lemma spare_abs: "spare (abs_mem r) = {i. i < MAX_FREE_MEM_GB \<and> free_chunk r i}"
  by (auto simp: spare_def abs_mem_def free_chunk_def)

lemma finite_spare [simp]: "finite (spare (abs_mem r))"
  by (simp add: spare_abs)

lemma lent_abs:
  assumes "mem_inv r" "i < MAX_FREE_MEM_GB"
  shows "lent (abs_mem r) i = Some c \<longleftrightarrow> lent_at r i = int c"
  using mem_invD(10)[OF assms] assms(2) by (auto simp: abs_mem_def)

text \<open>The difference of the two counters is the number of spare chunks.\<close>

lemma spare_count:
  assumes "mem_inv r"
  shows "int (card (spare (abs_mem r))) = mem_size_gb r - mapped_size r"
proof -
  let ?A = "{i. i < MAX_FREE_MEM_GB \<and> malloc_map r ! i = CHUNK_MALLOCED}"
    and ?L = "{i. i < MAX_FREE_MEM_GB \<and> lent_at r i \<noteq> -1}"
  have "spare (abs_mem r) = ?A - ?L" by (auto simp: spare_abs free_chunk_def)
  moreover have "?L \<subseteq> ?A" using mem_invD(10)[OF assms] by auto
  ultimately have "card (spare (abs_mem r)) = card ?A - card ?L" "card ?L \<le> card ?A"
    by (simp_all add: card_Diff_subset card_mono)
  then show ?thesis
    using mem_invD(3,4,6,7)[OF assms] by (simp add: count_if_def length_filter_conv_card of_nat_diff)
qed

section \<open>Lending\<close>

lemma clear_keys_ok:
  assumes "msg_wf (send_msg conn)"
  shows "clear_keys conn = Inr (conn\<lparr>send_msg := (send_msg conn)\<lparr>rkey := replicate MAX_MR_SIZE_GB 0\<rparr>\<rparr>)"
proof -
  have "\<exists>ks. for_res (\<lambda>i ks. arr_set ks (int i) 0) [0..<MAX_FREE_MEM_GB] (rkey (send_msg conn)) = Inr ks \<and>
      length ks = MAX_MR_SIZE_GB \<and> (\<forall>i < MAX_FREE_MEM_GB. ks ! i = (0 :: u32))"
    by (rule for_res_inv [where P = "\<lambda>j ks. length ks = MAX_MR_SIZE_GB \<and> (\<forall>i < j. ks ! i = 0)"])
      (use assms in \<open>auto simp: msg_wf_def MAX_sizes nth_list_update less_Suc_eq\<close>)
  then obtain ks :: "u32 list" where ks: "for_res (\<lambda>i ks. arr_set ks (int i) 0) [0..<MAX_FREE_MEM_GB] (rkey (send_msg conn)) = Inr ks"
    "length ks = MAX_MR_SIZE_GB" "\<forall>i < MAX_FREE_MEM_GB. ks ! i = 0" by blast
  then have "ks = replicate MAX_MR_SIZE_GB 0" by (intro nth_equalityI) (simp_all add: MAX_sizes)
  with ks(1) show ?thesis by (simp add: clear_keys_def)
qed

text \<open>The counters of the loop run behind: \<open>n\<close> chunks are lent but not counted yet.\<close>

definition pend :: "int \<Rightarrow> rdma_remote_mem \<Rightarrow> rdma_remote_mem" where
  "pend n r = r\<lparr>mapped_size := mapped_size r + n\<rparr>"

definition pend_conn :: "int \<Rightarrow> connection \<Rightarrow> connection" where
  "pend_conn n conn = conn\<lparr>mapped_chunk_size := mapped_chunk_size conn + n\<rparr>"

lemma pend_simps [simp]:
  "conn_map (pend n r) = conn_map r" "malloc_map (pend n r) = malloc_map r" "abs_mem (pend n r) = abs_mem r"
  "sess_chunk_map (pend_conn n conn) = sess_chunk_map conn" "send_msg (pend_conn n conn) = send_msg conn"
  "conn_index (pend_conn n conn) = conn_index conn" "pend 0 r = r" "pend_conn 0 conn = conn"
  "region_list (pend n r) = region_list r" "mr_list (pend n r) = mr_list r" "conn_chunk_map (pend n r) = conn_chunk_map r"
  "mem_size_gb (pend n r) = mem_size_gb r"
  by (simp_all add: pend_def pend_conn_def abs_mem_def cong: if_cong)

definition lent_conn :: "bool \<Rightarrow> nat \<Rightarrow> u64 \<Rightarrow> u32 \<Rightarrow> connection \<Rightarrow> connection" where
  "lent_conn le i addr key conn = conn\<lparr>sess_chunk_map := (sess_chunk_map conn)[i := int i],
     send_msg := (send_msg conn)\<lparr>buf := (buf (send_msg conn))[i := daemon_htonll le addr],
                                  rkey := (rkey (send_msg conn))[i := htonl le key]\<rparr>\<rparr>"

definition lent_mem :: "nat \<Rightarrow> nat \<Rightarrow> rdma_remote_mem \<Rightarrow> rdma_remote_mem" where
  "lent_mem c i r = r\<lparr>conn_map := (conn_map r)[i := int c], mr_list := (mr_list r)[i := Live]\<rparr>"

lemma lend_chunk_ok:
  assumes r: "mem_inv (pend n r)" and conn: "conn_inv (pend n r) c (pend_conn n conn)" and c: "c < MAX_CLIENT"
    and i: "i < MAX_FREE_MEM_GB" "free_chunk r i" and mr: "reg_mr v i = Some (addr, key)"
  shows "lend_chunk le v i (conn, r) = Inr (lent_conn le i addr key conn, lent_mem c i r)"
    "mem_inv (pend (n + 1) (lent_mem c i r))"
    "conn_inv (pend (n + 1) (lent_mem c i r)) c (pend_conn (n + 1) (lent_conn le i addr key conn))"
    "abs_mem (lent_mem c i r) = (abs_mem r)\<lparr>lent := (lent (abs_mem r))(i := Some c)\<rparr>"
proof -
  have len: "length (conn_map r) = MAX_FREE_MEM_GB" "length (mr_list r) = MAX_FREE_MEM_GB"
    "length (sess_chunk_map conn) = MAX_FREE_MEM_GB" "msg_wf (send_msg conn)" "conn_index conn = Some (int c)"
    using r conn by (simp_all add: mem_inv_def conn_inv_def MAX_sizes)
  then show "lend_chunk le v i (conn, r) = Inr (lent_conn le i addr key conn, lent_mem c i r)"
    using i(1) mr by (simp add: lend_chunk_def the_index_def msg_wf_def MAX_sizes lent_conn_def lent_mem_def)
  have un: "lent_at r i = -1" "malloc_map r ! i = CHUNK_MALLOCED" using i(2) by (simp_all add: free_chunk_def)
  show "mem_inv (pend (n + 1) (lent_mem c i r))"
    using r i(1) un len c
    by (auto simp: mem_inv_def lent_mem_def pend_def nth_list_update count_if_update CHUNK_MALLOCED_def CHUNK_EMPTY_def)
  show "conn_inv (pend (n + 1) (lent_mem c i r)) c (pend_conn (n + 1) (lent_conn le i addr key conn))"
    using conn i(1) un len
    by (auto simp: conn_inv_def lent_mem_def lent_conn_def pend_def pend_conn_def nth_list_update count_if_update msg_wf_def
        MAX_sizes)
  show "abs_mem (lent_mem c i r) = (abs_mem r)\<lparr>lent := (lent (abs_mem r))(i := Some c)\<rparr>"
    using i(1) len(1) by (auto simp: abs_mem_def lent_mem_def nth_list_update fun_eq_iff)
qed

lemma lendable_ok: "mem_inv (pend n r) \<Longrightarrow> i < MAX_FREE_MEM_GB \<Longrightarrow> lendable r i = Inr (free_chunk r i)"
  by (simp add: lendable_def mem_inv_def free_chunk_def)

text \<open>The first spare chunk is lent.\<close>

lemma lend_first_ok:
  assumes "mem_inv r" "j \<le> MAX_FREE_MEM_GB" "\<forall>i < j. \<not> free_chunk r i" "spare (abs_mem r) \<noteq> {}"
  shows "lend_first le v [j..<MAX_FREE_MEM_GB] (conn, r) = lend_chunk le v (Min (spare (abs_mem r))) (conn, r)"
  using assms
proof (induction "MAX_FREE_MEM_GB - j" arbitrary: j)
  case 0
  then have "spare (abs_mem r) = {}" by (auto simp: spare_abs)
  then show ?case using 0 by simp
next
  case (Suc n)
  then have j: "j < MAX_FREE_MEM_GB" by simp
  have lj: "lendable r j = Inr (free_chunk r j)" using lendable_ok [of 0 r j] Suc.prems(1) j by simp
  show ?case
  proof (cases "free_chunk r j")
    case True
    then have "Min (spare (abs_mem r)) = j"
      using j Suc.prems(3) by (intro Min_eqI) (auto simp: spare_abs not_less [symmetric])
    then show ?thesis using True lj j by (simp add: upt_conv_Cons)
  next
    case False
    then have "lend_first le v [Suc j..<MAX_FREE_MEM_GB] (conn, r) = lend_chunk le v (Min (spare (abs_mem r))) (conn, r)"
      using Suc.hyps(1)[of "Suc j"] Suc.hyps(2) Suc.prems j by (auto simp: less_Suc_eq)
    then show ?thesis using False lj j by (simp add: upt_conv_Cons)
  qed
qed

lemma spare_lent_mem: "length (conn_map r) = MAX_FREE_MEM_GB \<Longrightarrow> i < MAX_FREE_MEM_GB \<Longrightarrow> spare (abs_mem (lent_mem c i r)) = spare (abs_mem r) - {i}"
  by (auto simp: spare_abs free_chunk_def lent_mem_def nth_list_update split: if_splits)

lemma Min_spare_eq:
  "j < MAX_FREE_MEM_GB \<Longrightarrow> free_chunk r j \<Longrightarrow> \<forall>i < j. \<not> free_chunk r i \<Longrightarrow> Min (spare (abs_mem r)) = j"
  by (intro Min_eqI) (auto simp: spare_abs not_less [symmetric])

text \<open>What a message offers: the address and key of every chunk lent in between.\<close>

definition offers :: "bool \<Rightarrow> ibv \<Rightarrow> lender \<Rightarrow> lender \<Rightarrow> IS_rdma_info \<Rightarrow> IS_rdma_info \<Rightarrow> bool" where
  "offers le v l l' m m' \<longleftrightarrow> msg_wf m' \<and> (\<forall>i < MAX_MR_SIZE_GB.
     if lent l' i \<noteq> lent l i
     then (\<exists>addr key. reg_mr v i = Some (addr, key) \<and> buf m' ! i = daemon_htonll le addr \<and> rkey m' ! i = htonl le key)
     else rkey m' ! i = rkey m ! i)"

lemma offers_trans:
  assumes "offers le v l l1 m m1" "offers le v l1 l2 m1 m2" "\<forall>i. lent l1 i \<noteq> lent l i \<longrightarrow> lent l2 i = lent l1 i \<and> buf m2 ! i = buf m1 ! i"
  shows "offers le v l l2 m m2"
  using assms unfolding offers_def by (auto split: if_splits) metis+

definition same_else :: "connection \<Rightarrow> connection \<Rightarrow> bool" where
  "same_else conn conn' \<longleftrightarrow> (\<exists>scm bs ks. conn' = conn\<lparr>sess_chunk_map := scm, send_msg := (send_msg conn)\<lparr>buf := bs, rkey := ks\<rparr>\<rparr>)"

lemma same_else_trans: "same_else a b \<Longrightarrow> same_else b c \<Longrightarrow> same_else a c"
  unfolding same_else_def by clarsimp blast

lemma lend_many_ok:
  assumes "mem_inv (pend j r)" "conn_inv (pend j r) c (pend_conn j conn)" "c < MAX_CLIENT"
    "m \<le> MAX_FREE_MEM_GB" "\<forall>i < m. \<not> free_chunk r i" "j < n" "n - j \<le> int (card (spare (abs_mem r)))"
    "\<forall>i. reg_mr v i \<noteq> None"
  shows "\<exists>conn' r'. lend_many le v n j [m..<MAX_FREE_MEM_GB] (conn, r) = Inr (conn', r') \<and>
     mem_inv (pend n r') \<and> conn_inv (pend n r') c (pend_conn n conn') \<and>
     abs_mem r' = (lend_one c ^^ nat (n - j)) (abs_mem r) \<and>
     offers le v (abs_mem r) (abs_mem r') (send_msg conn) (send_msg conn') \<and> same_else conn conn' \<and>
     (\<forall>i. lent (abs_mem r) i \<noteq> None \<longrightarrow> lent (abs_mem r') i = lent (abs_mem r) i \<and> buf (send_msg conn') ! i = buf (send_msg conn) ! i)"
  using assms
proof (induction "MAX_FREE_MEM_GB - m" arbitrary: m j conn r)
  case 0
  then have "spare (abs_mem r) = {}" by (auto simp: spare_abs)
  then show ?case using 0 by simp
next
  case (Suc k)
  then have m: "m < MAX_FREE_MEM_GB" by simp
  have lm: "lendable r m = Inr (free_chunk r m)" using lendable_ok [OF Suc.prems(1) m] .
  show ?case
  proof (cases "free_chunk r m")
    case False
    have "\<exists>conn' r'. lend_many le v n j [Suc m..<MAX_FREE_MEM_GB] (conn, r) = Inr (conn', r') \<and>
       mem_inv (pend n r') \<and> conn_inv (pend n r') c (pend_conn n conn') \<and>
       abs_mem r' = (lend_one c ^^ nat (n - j)) (abs_mem r) \<and>
       offers le v (abs_mem r) (abs_mem r') (send_msg conn) (send_msg conn') \<and> same_else conn conn' \<and>
       (\<forall>i. lent (abs_mem r) i \<noteq> None \<longrightarrow> lent (abs_mem r') i = lent (abs_mem r) i \<and> buf (send_msg conn') ! i = buf (send_msg conn) ! i)"
      using Suc.hyps(2) Suc.prems m False by (intro Suc.hyps(1)) (auto simp: less_Suc_eq)
    then show ?thesis using False lm m by (simp add: upt_conv_Cons)
  next
    case True
    obtain addr key where mr: "reg_mr v m = Some (addr, key)" using Suc.prems(8) by (metis not_None_eq prod.exhaust)
    let ?conn = "lent_conn le m addr key conn" and ?r = "lent_mem c m r"
    note lend_this = lend_chunk_ok [OF Suc.prems(1,2,3) m True mr]
    note one = lend_this(1)[of le] lend_this(2) lend_this(3)[of le] lend_this(4)
    have min: "Min (spare (abs_mem r)) = m" using Min_spare_eq [OF m True Suc.prems(5)] .
    have abs1: "abs_mem ?r = lend_one c (abs_mem r)" using one(4) by (simp add: lend_one_def min)
    have len: "length (conn_map r) = MAX_FREE_MEM_GB" using Suc.prems(1) by (simp add: mem_inv_def)
    have none: "lent (abs_mem r) m = None" using True by (simp add: abs_mem_def free_chunk_def)
    have wf: "msg_wf (send_msg conn)" using Suc.prems(2) by (simp add: conn_inv_def)
    have off: "offers le v (abs_mem r) (abs_mem ?r) (send_msg conn) (send_msg ?conn)" "same_else conn ?conn"
      using wf m mr none one(4)
      by (auto simp: offers_def lent_conn_def msg_wf_def nth_list_update MAX_sizes same_else_def)
    have keep: "buf (send_msg ?conn) ! i = buf (send_msg conn) ! i \<and> lent (abs_mem ?r) i = lent (abs_mem r) i"
      if "i \<noteq> m" for i
      using that one(4) by (simp add: lent_conn_def)
    have kept: "lent (abs_mem ?r) i = lent (abs_mem r) i \<and> buf (send_msg ?conn) ! i = buf (send_msg conn) ! i"
      if "lent (abs_mem r) i \<noteq> None" for i
      using keep [of i] that none by (cases "i = m") auto
    have lend: "lend_many le v n j [m..<MAX_FREE_MEM_GB] (conn, r) =
        (if j + 1 = n then Inr (?conn, ?r) else lend_many le v n (j + 1) [Suc m..<MAX_FREE_MEM_GB] (?conn, ?r))"
      using True lm m one(1) by (simp add: upt_conv_Cons)
    show ?thesis
    proof (cases "j + 1 = n")
      case True
      then show ?thesis
        using lend one(2,3) abs1 off kept by (intro exI [of _ ?conn] exI [of _ ?r]) (simp add: True [symmetric])
    next
      case False
      have "card (spare (abs_mem ?r)) = card (spare (abs_mem r)) - 1" "0 < card (spare (abs_mem r))"
        using spare_lent_mem [OF len m] m True by (auto simp: card_gt_0_iff spare_abs card_Diff_singleton)
      then have room: "n - (j + 1) \<le> int (card (spare (abs_mem ?r)))" using Suc.prems(7) by linarith
      have nofree: "\<forall>i < Suc m. \<not> free_chunk ?r i"
        using Suc.prems(5) len m by (auto simp: free_chunk_def lent_mem_def nth_list_update less_Suc_eq)
      have "k = MAX_FREE_MEM_GB - Suc m" "Suc m \<le> MAX_FREE_MEM_GB" "j + 1 < n"
        using Suc.hyps(2) Suc.prems(6) m False by simp_all
      from Suc.hyps(1)[OF this(1) one(2,3) Suc.prems(3) this(2) nofree this(3) room Suc.prems(8)]
      obtain conn' r' where rec: "lend_many le v n (j + 1) [Suc m..<MAX_FREE_MEM_GB] (?conn, ?r) = Inr (conn', r')"
        "mem_inv (pend n r')" "conn_inv (pend n r') c (pend_conn n conn')"
        "abs_mem r' = (lend_one c ^^ nat (n - (j + 1))) (abs_mem ?r)"
        "offers le v (abs_mem ?r) (abs_mem r') (send_msg ?conn) (send_msg conn')" "same_else ?conn conn'"
        "\<forall>i. lent (abs_mem ?r) i \<noteq> None \<longrightarrow> lent (abs_mem r') i = lent (abs_mem ?r) i \<and> buf (send_msg conn') ! i = buf (send_msg ?conn) ! i"
        by (elim exE conjE) (rule that)
      have "nat (n - j) = Suc (nat (n - (j + 1)))" using Suc.prems(6) by simp
      then have "abs_mem r' = (lend_one c ^^ nat (n - j)) (abs_mem r)"
        using rec(4) abs1 by (simp only: funpow_Suc_right o_apply)
      moreover have "offers le v (abs_mem r) (abs_mem r') (send_msg conn) (send_msg conn')"
      proof (rule offers_trans [OF off(1) rec(5)], intro allI impI)
        fix i
        assume "lent (abs_mem ?r) i \<noteq> lent (abs_mem r) i"
        then have "lent (abs_mem ?r) i \<noteq> None" using one(4) by (auto split: if_splits)
        with rec(7) show "lent (abs_mem r') i = lent (abs_mem ?r) i \<and> buf (send_msg conn') ! i = buf (send_msg ?conn) ! i"
          by blast
      qed
      moreover have "same_else conn conn'" using same_else_trans [OF off(2) rec(6)] .
      moreover have "lent (abs_mem r') i = lent (abs_mem r) i \<and> buf (send_msg conn') ! i = buf (send_msg conn) ! i"
        if "lent (abs_mem r) i \<noteq> None" for i
        using rec(7) kept [OF that] that by metis
      ultimately show ?thesis using lend False rec(1-3) by auto
    qed
  qed
qed

section \<open>Taking chunks back\<close>

definition settle :: "int \<Rightarrow> rdma_remote_mem \<Rightarrow> rdma_remote_mem" where
  "settle n r = r\<lparr>mem_size_gb := mem_size_gb r - n, mapped_size := mapped_size r - n\<rparr>"

lemma settle_simps [simp]:
  "conn_map (settle n r) = conn_map r" "malloc_map (settle n r) = malloc_map r" "abs_mem (settle n r) = abs_mem r"
  "settle 0 r = r"
  by (simp_all add: settle_def abs_mem_def cong: if_cong)

definition back_mem :: "nat \<Rightarrow> rdma_remote_mem \<Rightarrow> rdma_remote_mem" where
  "back_mem i r = r\<lparr>mr_list := (mr_list r)[i := Freed], region_list := (region_list r)[i := Freed],
     conn_map := (conn_map r)[i := -1], malloc_map := (malloc_map r)[i := CHUNK_EMPTY],
     conn_chunk_map := (conn_chunk_map r)[i := -1]\<rparr>"

definition back_conn :: "nat \<Rightarrow> connection \<Rightarrow> connection" where
  "back_conn i conn = conn\<lparr>sess_chunk_map := (sess_chunk_map conn)[i := -1]\<rparr>"

lemma take_back_ok:
  assumes r: "mem_inv (settle n r)" and conn: "conn_inv (settle n r) c (pend_conn (- n) conn)"
    and i: "i < MAX_FREE_MEM_GB" "lent_at r i = int c" and m: "msg_wf m" "rkey m ! i \<noteq> 0"
  shows "take_back m i (conn, r) = Inr (back_conn i conn, back_mem i r)"
    "mem_inv (settle (n + 1) (back_mem i r))"
    "conn_inv (settle (n + 1) (back_mem i r)) c (pend_conn (- (n + 1)) (back_conn i conn))"
    "abs_mem (back_mem i r) = give_back {i} (abs_mem r)"
proof -
  have len: "length (conn_map r) = MAX_FREE_MEM_GB" "length (mr_list r) = MAX_FREE_MEM_GB"
    "length (region_list r) = MAX_FREE_MEM_GB" "length (malloc_map r) = MAX_FREE_MEM_GB"
    "length (conn_chunk_map r) = MAX_FREE_MEM_GB" "length (sess_chunk_map conn) = MAX_FREE_MEM_GB"
    "sess_chunk_map conn ! i = int i"
    using r conn i by (simp_all add: mem_inv_def settle_def conn_inv_def MAX_sizes)
  have at: "malloc_map r ! i = CHUNK_MALLOCED" "mr_list r ! i = Live" "region_list r ! i = Live"
    using mem_invD(9,10)[OF r i(1)] i(2) by (simp_all add: settle_def)
  show "take_back m i (conn, r) = Inr (back_conn i conn, back_mem i r)"
    using len at i(1) m by (simp add: take_back_def free_region_def back_conn_def back_mem_def msg_wf_def MAX_sizes)
  show "mem_inv (settle (n + 1) (back_mem i r))"
    using r i len at
    by (auto simp: mem_inv_def back_mem_def settle_def nth_list_update count_if_update CHUNK_MALLOCED_def CHUNK_EMPTY_def)
  show "conn_inv (settle (n + 1) (back_mem i r)) c (pend_conn (- (n + 1)) (back_conn i conn))"
    using conn i len
    by (auto simp: conn_inv_def back_mem_def back_conn_def settle_def pend_conn_def nth_list_update count_if_update MAX_sizes)
  show "abs_mem (back_mem i r) = give_back {i} (abs_mem r)"
    using i len by (auto simp: abs_mem_def back_mem_def give_back_def nth_list_update fun_eq_iff CHUNK_MALLOCED_def CHUNK_EMPTY_def)
qed

definition marked_upto :: "IS_rdma_info \<Rightarrow> nat \<Rightarrow> nat set" where
  "marked_upto m j = {i. i < j \<and> rkey m ! i \<noteq> 0}"

lemma marked_upto_Suc: "marked_upto m (Suc j) = (if rkey m ! j \<noteq> 0 then insert j (marked_upto m j) else marked_upto m j)"
  by (auto simp: marked_upto_def less_Suc_eq)

lemma finite_marked [simp]: "finite (marked_upto m j)"
  by (simp add: marked_upto_def)

lemma give_back_insert: "give_back (insert i M) l = give_back {i} (give_back M l)"
  by (rule lender.equality) (auto simp: give_back_def fun_eq_iff)

lemma give_back_empty [simp]: "give_back {} l = l"
  by (simp add: give_back_def)

definition same_scm :: "connection \<Rightarrow> connection \<Rightarrow> bool" where
  "same_scm conn conn' \<longleftrightarrow> (\<exists>scm. conn' = conn\<lparr>sess_chunk_map := scm\<rparr>)"

definition back_inv :: "nat \<Rightarrow> IS_rdma_info \<Rightarrow> connection \<Rightarrow> rdma_remote_mem \<Rightarrow> nat \<Rightarrow> connection \<times> rdma_remote_mem \<Rightarrow> bool" where
  "back_inv c m conn r j = (\<lambda>(conn', r'). let n = int (card (marked_upto m j)) in
     mem_inv (settle n r') \<and> conn_inv (settle n r') c (pend_conn (- n) conn') \<and>
     abs_mem r' = give_back (marked_upto m j) (abs_mem r) \<and> same_scm conn conn')"

lemma take_back_all:
  assumes r: "mem_inv r" and conn: "conn_inv r c conn" and m: "msg_wf m"
    and k: "k \<le> MAX_MR_SIZE_GB" and marks: "\<forall>i < k. rkey m ! i \<noteq> 0 \<longrightarrow> lent_at r i = int c"
  shows "\<exists>x. for_res (take_back m) [0..<k] (conn, r) = Inr x \<and> back_inv c m conn r k x"
proof (rule for_res_inv [where P = "back_inv c m conn r"])
  show "back_inv c m conn r 0 (conn, r)"
    using r conn by (simp add: back_inv_def marked_upto_def same_scm_def) (metis connection.surjective connection.update_convs(2))
next
  fix j x
  assume jk: "j < k" and P: "back_inv c m conn r j x"
  from jk k have j: "j < MAX_MR_SIZE_GB" by simp
  obtain conn' r' where x: "x = (conn', r')" by fastforce
  let ?n = "int (card (marked_upto m j))"
  have P': "mem_inv (settle ?n r')" "conn_inv (settle ?n r') c (pend_conn (- ?n) conn')"
    "abs_mem r' = give_back (marked_upto m j) (abs_mem r)" "same_scm conn conn'"
    using P by (simp_all add: x back_inv_def Let_def)
  show "\<exists>x'. take_back m j x = Inr x' \<and> back_inv c m conn r (Suc j) x'"
  proof (cases "rkey m ! j = 0")
    case True
    then have "take_back m j x = Inr x" using m j by (simp add: x take_back_def msg_wf_def)
    with P True show ?thesis by (simp add: back_inv_def marked_upto_Suc)
  next
    case False
    have "lent (abs_mem r) j = Some c" using lent_abs [OF r, of j c] marks False j jk by (simp add: MAX_sizes)
    then have "lent (abs_mem r') j = Some c" unfolding P'(3) by (simp add: give_back_def marked_upto_def)
    then have own: "lent_at r' j = int c" using lent_abs [OF P'(1), of j c] j by (simp add: MAX_sizes)
    have j': "j < MAX_FREE_MEM_GB" using j by (simp add: MAX_sizes)
    note one = take_back_ok [OF P'(1,2) j' own m False]
    have "int (card (marked_upto m (Suc j))) = ?n + 1"
      using False by (simp add: marked_upto_Suc) (simp add: marked_upto_def)
    moreover have "same_scm conn (back_conn j conn')" using P'(4) by (auto simp: same_scm_def back_conn_def)
    moreover have "abs_mem (back_mem j r') = give_back (marked_upto m (Suc j)) (abs_mem r)"
      using False one(4) P'(3) give_back_insert [of j "marked_upto m j"] by (simp add: marked_upto_Suc)
    ultimately have "back_inv c m conn r (Suc j) (back_conn j conn', back_mem j r')"
      using one(2,3) by (simp add: back_inv_def Let_def)
    with one(1) show ?thesis by (auto simp: x)
  qed
qed

section \<open>The handlers\<close>

lemmas handler_defs = then_post_def bind_reply_def set_cq_busy_def get_conn_def put_conn_def
  post_receives_def send_message_def set_conns_state_def the_index_def

definition ibv_good :: "ibv \<Rightarrow> bool" where
  "ibv_good v \<longleftrightarrow> ctx_ok v \<and> create_qp_ok v \<and> reg_msg_ok v \<and> post_recv_ok v \<and> post_send_ok v \<and>
     (\<forall>i. \<exists>addr key. reg_mr v i = Some (addr, key) \<and> key \<noteq> 0)"

lemma ibv_goodD:
  assumes "ibv_good v"
  shows "ctx_ok v" "create_qp_ok v" "reg_msg_ok v" "post_recv_ok v" "post_send_ok v" "\<forall>i. reg_mr v i \<noteq> None"
  using assms by (auto simp: ibv_good_def) (metis option.distinct(1))

text \<open>A change that leaves the tables alone.\<close>

lemma daemon_inv_msg:
  assumes inv: "daemon_inv d" and conn: "heap d cid = Some conn"
    and same: "conn_index conn' = conn_index conn" "sess_chunk_map conn' = sess_chunk_map conn"
      "mapped_chunk_size conn' = mapped_chunk_size conn" "msg_wf (send_msg conn')"
  shows "daemon_inv (d\<lparr>heap := (heap d)(cid := Some conn')\<rparr>)"
proof -
  obtain c where c: "c < MAX_CLIENT" "conns d ! c = Some cid" "conn_inv (rdma_remote d) c conn"
    "conns_state d ! c = (if mapped_chunk_size conn = 0 then CONN_CONNECTED else CONN_MAPPED)"
    by (rule daemon_invE [OF inv conn])
  have mem: "mem_inv (rdma_remote d)" using inv by (simp add: daemon_inv_def)
  have eq: "d\<lparr>heap := (heap d)(cid := Some conn')\<rparr> = d\<lparr>heap := (heap d)(cid := Some conn'),
      rdma_remote := rdma_remote d, conns_state := (conns_state d)[c := conns_state d ! c]\<rparr>" by simp
  show ?thesis
    by (rule daemon_inv_change [OF inv c(1,2) eq mem]) (use c(3,4) same in \<open>simp_all add: conn_inv_def\<close>)
qed

text \<open>The state in which the message of a client is handled.\<close>

definition received :: "IS_rdma_info \<Rightarrow> connection \<Rightarrow> connection" where
  "received m conn = conn\<lparr>recv_msg := m, posted := posted conn - 1, cq_qp_state := CQ_QP_BUSY\<rparr>"

definition free_size_of :: "daemon \<Rightarrow> connection \<Rightarrow> IS_rdma_info" where
  "free_size_of d conn = (send_msg conn)\<lparr>mtype := FREE_SIZE, size_gb := mem_size_gb (rdma_remote d) - mapped_size (rdma_remote d)\<rparr>"

lemma query_ok:
  assumes inv: "daemon_inv d" and conn: "heap d cid = Some conn" "connected conn" "posted conn \<noteq> 0"
    and v: "ibv_good v" and m: "mtype m = QUERY"
  shows "\<exists>d'. on_completion le v cid True (Wc_Recv m) d = Inr ([(cid, free_size_of d conn)], d') \<and>
     daemon_inv d' \<and> rdma_remote d' = rdma_remote d"
proof -
  let ?conn = "(received m conn)\<lparr>send_msg := free_size_of d conn, posted := posted conn\<rparr>"
  obtain c where "conn_inv (rdma_remote d) c conn" by (rule daemon_invE [OF inv conn(1)])
  then have wf: "msg_wf (send_msg conn)" by (simp add: conn_inv_def)
  have "on_completion le v cid True (Wc_Recv m) d =
      Inr ([(cid, free_size_of d conn)], d\<lparr>heap := (heap d)(cid := Some ?conn)\<rparr>)"
    using conn m ibv_goodD [OF v]
    by (simp add: on_completion_def Let_def handler_defs send_free_mem_size_def received_def free_size_of_def)
  moreover have "daemon_inv (d\<lparr>heap := (heap d)(cid := Some ?conn)\<rparr>)"
    using wf by (intro daemon_inv_msg [OF inv conn(1)]) (simp_all add: received_def free_size_of_def msg_wf_def)
  ultimately show ?thesis by simp
qed

text \<open>What the two lending routines have in common.\<close>

definition lent_result ::
  "bool \<Rightarrow> ibv \<Rightarrow> nat \<Rightarrow> nat \<Rightarrow> daemon \<Rightarrow> connection \<Rightarrow> int \<Rightarrow> nat \<Rightarrow> msg_type \<Rightarrow> (sent \<times> daemon) res \<Rightarrow> bool" where
  "lent_result le v cid c d conn g n ty res \<longleftrightarrow>
     (\<exists>conn' r'. res = Inr ([(cid, send_msg conn')], d\<lparr>heap := (heap d)(cid := Some conn'), rdma_remote := r'\<rparr>) \<and>
        mem_inv r' \<and> conn_inv r' c conn' \<and> mapped_chunk_size conn' \<noteq> 0 \<and> posted conn' = posted conn \<and>
        abs_mem r' = (lend_one c ^^ n) (abs_mem (rdma_remote d)) \<and>
        mtype (send_msg conn') = ty \<and> size_gb (send_msg conn') = g \<and>
        offers le v (abs_mem (rdma_remote d)) (abs_mem r') (zero_msg ty) (send_msg conn') \<and>
        (\<forall>i. lent (abs_mem (rdma_remote d)) i \<noteq> None \<longrightarrow> lent (abs_mem r') i = lent (abs_mem (rdma_remote d)) i))"

lemma offers_zero_keys:
  assumes "offers le v l l' m m'" "rkey m = replicate MAX_MR_SIZE_GB 0" "rkey m'' = rkey m'" "buf m'' = buf m'"
  shows "offers le v l l' (zero_msg ty) m''"
  using assms by (simp add: offers_def zero_msg_def msg_wf_def)

lemma own_chunk_counted:
  assumes "conn_inv r c conn" "mem_inv r" "i < MAX_FREE_MEM_GB" "lent (abs_mem r) i = Some c"
  shows "mapped_chunk_size conn \<noteq> 0"
proof -
  have "lent_at r i = int c" using assms lent_abs by blast
  then have "0 < count_if (\<lambda>e. e = int c) (conn_map r)"
    using assms(2,3) mem_invD(3) by (auto simp: count_if_pos_iff)
  then show ?thesis using assms(1) by (simp add: conn_inv_def)
qed

lemma send_single_mr_ok:
  assumes inv: "mem_inv (rdma_remote d)" and conn: "heap d cid = Some conn" "connected conn"
    and c: "c < MAX_CLIENT" "conn_inv (rdma_remote d) c conn"
    and v: "ibv_good v" and spare: "spare (abs_mem (rdma_remote d)) \<noteq> {}"
  shows "lent_result le v cid c d conn g 1 INFO_SINGLE (send_single_mr le v cid g d)"
proof -
  let ?r = "rdma_remote d" and ?i = "Min (spare (abs_mem (rdma_remote d)))"
  have "?i \<in> spare (abs_mem ?r)" using spare by (intro Min_in) simp_all
  then have i: "?i < MAX_FREE_MEM_GB" "free_chunk ?r ?i" by (simp_all add: spare_abs)
  obtain addr key where mr: "reg_mr v ?i = Some (addr, key)" using ibv_goodD(6)[OF v] by (metis not_None_eq prod.exhaust)
  have wf: "msg_wf (send_msg conn)" using c(2) by (simp add: conn_inv_def)
  let ?conn = "conn\<lparr>send_msg := (send_msg conn)\<lparr>size_gb := g, rkey := replicate MAX_MR_SIZE_GB 0\<rparr>\<rparr>"
  have pre: "conn_inv (pend 0 ?r) c (pend_conn 0 ?conn)" "mem_inv (pend 0 ?r)"
    using c(2) inv by (simp_all add: conn_inv_def msg_wf_def)
  note lend_this = lend_chunk_ok [OF pre(2,1) c(1) i mr]
  note one = lend_this(1)[of le] lend_this(2) lend_this(3)[of le] lend_this(4)
  let ?c1 = "lent_conn le ?i addr key ?conn" and ?r1 = "lent_mem c ?i ?r"
  let ?conn' = "(pend_conn 1 ?c1)\<lparr>send_msg := (send_msg ?c1)\<lparr>mtype := INFO_SINGLE\<rparr>\<rparr>"
  have lf: "lend_first le v [0..<MAX_FREE_MEM_GB] (?conn, ?r) = Inr (?c1, ?r1)"
    using lend_first_ok [OF inv _ _ spare, of 0 le v ?conn] one(1) by simp
  have ck: "clear_keys (conn\<lparr>send_msg := (send_msg conn)\<lparr>size_gb := g\<rparr>\<rparr>) = Inr ?conn"
    using wf by (subst clear_keys_ok) (simp_all add: msg_wf_def)
  have "send_single_mr le v cid g d = Inr ([(cid, send_msg ?conn')], d\<lparr>heap := (heap d)(cid := Some ?conn'), rdma_remote := pend 1 ?r1\<rparr>)"
    using conn ck lf ibv_goodD(5)[OF v]
    by (simp add: send_single_mr_def get_conn_def put_conn_def send_message_def pend_def pend_conn_def lent_conn_def)
  moreover have "mem_inv (pend 1 ?r1)" "conn_inv (pend 1 ?r1) c ?conn'"
    using one(2,3) by (simp_all add: conn_inv_def msg_wf_def pend_conn_def)
  moreover have abs: "abs_mem (pend 1 ?r1) = lend_one c (abs_mem ?r)" using one(4) by (simp add: lend_one_def)
  moreover have "mapped_chunk_size ?conn' \<noteq> 0"
    using own_chunk_counted [of "pend 1 ?r1" c ?conn' ?i] calculation i(1) by (simp add: lend_one_def)
  moreover have none: "lent (abs_mem ?r) ?i = None" using i by (simp add: abs_mem_def free_chunk_def)
  moreover have "offers le v (abs_mem ?r) (abs_mem (pend 1 ?r1)) (zero_msg INFO_SINGLE) (send_msg ?conn')"
    unfolding abs using wf i(1) mr none
    by (auto simp: offers_def lent_conn_def msg_wf_def nth_list_update MAX_sizes zero_msg_def lend_one_def)
  ultimately show ?thesis
    unfolding lent_result_def
    by (intro exI [of _ ?conn'] exI [of _ "pend 1 ?r1"]) (auto simp: lent_conn_def pend_conn_def lend_one_def)
qed

lemma lend_one_lent: "lent (lend_one c l) (Min (spare l)) = Some c"
  by (simp add: lend_one_def)

lemma spare_lend_one: "spare (lend_one c l) = spare l - {Min (spare l)}"
  by (auto simp: spare_def lend_one_def)

lemma lent_funpow:
  assumes "lent l i = Some e" "finite (owned l)" "n \<le> card (spare l)"
  shows "lent ((lend_one c ^^ n) l) i = Some e"
  using assms
proof (induction n arbitrary: l)
  case (Suc n)
  have fin: "finite (spare l)" using Suc.prems(2) by (simp add: spare_def)
  have ne: "spare l \<noteq> {}" using Suc.prems(3) by auto
  have "Min (spare l) \<in> spare l" using ne fin by (intro Min_in)
  then have "i \<noteq> Min (spare l)" using Suc.prems(1) by (auto simp: spare_def)
  then have "lent (lend_one c l) i = Some e" using Suc.prems(1) by (simp add: lend_one_def)
  moreover have "n \<le> card (spare (lend_one c l))"
    using Suc.prems(3) \<open>Min (spare l) \<in> spare l\<close> fin by (simp add: card_Diff_singleton spare_lend_one)
  moreover have "finite (owned (lend_one c l))" using Suc.prems(2) by (simp add: lend_one_def)
  ultimately show ?case using Suc.IH [of "lend_one c l"] by (simp add: funpow_Suc_right del: funpow.simps)
qed simp

lemma lent_funpow_back: "lent ((lend_one c ^^ n) l) i = Some e \<Longrightarrow> e \<noteq> c \<Longrightarrow> lent l i = Some e"
  by (induction n) (auto simp: lend_one_def split: if_splits)

lemma send_mr_ok:
  assumes inv: "mem_inv (rdma_remote d)" and conn: "heap d cid = Some conn" "connected conn"
    and c: "c < MAX_CLIENT" "conn_inv (rdma_remote d) c conn"
    and v: "ibv_good v" and n: "0 < n" "n \<le> int (card (spare (abs_mem (rdma_remote d))))"
  shows "lent_result le v cid c d conn n (nat n) INFO (send_mr le v cid n d)"
proof -
  let ?r = "rdma_remote d"
  have wf: "msg_wf (send_msg conn)" using c(2) by (simp add: conn_inv_def)
  let ?conn = "conn\<lparr>send_msg := (send_msg conn)\<lparr>size_gb := n, rkey := replicate MAX_MR_SIZE_GB 0\<rparr>\<rparr>"
  have pre: "conn_inv (pend 0 ?r) c (pend_conn 0 ?conn)" "mem_inv (pend 0 ?r)"
    using c(2) inv by (simp_all add: conn_inv_def msg_wf_def)
  have n0: "n - 0 \<le> int (card (spare (abs_mem ?r)))" using n(2) by simp
  have z: "\<forall>i < 0. \<not> free_chunk ?r i" by simp
  from lend_many_ok [OF pre(2,1) c(1) le0 z n(1) n0 ibv_goodD(6)[OF v], of le]
  obtain c1 r1 where lm: "lend_many le v n 0 [0..<MAX_FREE_MEM_GB] (?conn, ?r) = Inr (c1, r1)"
    "mem_inv (pend n r1)" "conn_inv (pend n r1) c (pend_conn n c1)" "abs_mem r1 = (lend_one c ^^ nat n) (abs_mem ?r)"
    "offers le v (abs_mem ?r) (abs_mem r1) (send_msg ?conn) (send_msg c1)" "same_else ?conn c1"
    "\<forall>i. lent (abs_mem ?r) i \<noteq> None \<longrightarrow> lent (abs_mem r1) i = lent (abs_mem ?r) i \<and> buf (send_msg c1) ! i = buf (send_msg ?conn) ! i"
    by (elim exE conjE) (rule that; (assumption | simp))
  let ?conn' = "(pend_conn n c1)\<lparr>send_msg := (send_msg c1)\<lparr>mtype := INFO\<rparr>\<rparr>"
  have ck: "clear_keys (conn\<lparr>send_msg := (send_msg conn)\<lparr>size_gb := n\<rparr>\<rparr>) = Inr ?conn"
    using wf by (subst clear_keys_ok) (simp_all add: msg_wf_def)
  have frame: "connected c1" "posted c1 = posted conn" "size_gb (send_msg c1) = n"
    using lm(6) conn(2) by (auto simp: same_else_def)
  have "send_mr le v cid n d = Inr ([(cid, send_msg ?conn')], d\<lparr>heap := (heap d)(cid := Some ?conn'), rdma_remote := pend n r1\<rparr>)"
    using conn ck lm(1) frame ibv_goodD(5)[OF v]
    by (simp add: send_mr_def get_conn_def put_conn_def send_message_def pend_def pend_conn_def)
  moreover have inv': "mem_inv (pend n r1)" "conn_inv (pend n r1) c ?conn'"
    using lm(2,3) by (simp_all add: conn_inv_def msg_wf_def pend_conn_def)
  moreover have "mapped_chunk_size ?conn' \<noteq> 0"
  proof -
    let ?l = "lend_one c (abs_mem ?r)" and ?i = "Min (spare (abs_mem ?r))"
    have ne: "spare (abs_mem ?r) \<noteq> {}" using n by auto
    then have i: "?i \<in> spare (abs_mem ?r)" by (intro Min_in) simp_all
    have "nat n - 1 \<le> card (spare ?l)" using n i by (simp add: card_Diff_singleton nat_le_iff spare_lend_one)
    moreover have "finite (owned ?l)" by (simp add: lend_one_def abs_mem_def)
    ultimately have "lent ((lend_one c ^^ (nat n - 1)) ?l) ?i = Some c" by (intro lent_funpow lend_one_lent)
    moreover have "(lend_one c ^^ (nat n - 1)) ?l = abs_mem r1"
      using n(1) lm(4) by (cases "nat n") (simp_all add: funpow_Suc_right del: funpow.simps)
    ultimately show ?thesis
      using own_chunk_counted [OF inv'(2,1), of ?i] i by (simp add: spare_abs)
  qed
  moreover have "offers le v (abs_mem ?r) (abs_mem (pend n r1)) (zero_msg INFO) (send_msg ?conn')"
    using offers_zero_keys [OF lm(5)] by simp
  ultimately show ?thesis
    unfolding lent_result_def using lm(4,7) frame
    by (intro exI [of _ ?conn'] exI [of _ "pend n r1"]) (simp add: pend_conn_def)
qed

text \<open>Both replies end in the same way: the slot is marked as mapped and the receive is posted again.\<close>

lemma bind_finish:
  assumes inv: "daemon_inv d" and c: "c < MAX_CLIENT" "conns d ! c = Some cid"
    and res: "lent_result le v cid c d conn g n ty res" and v: "ibv_good v"
  shows "\<exists>d' m'. then_post v cid (bind_reply cid res) = Inr ([(cid, m')], d') \<and> daemon_inv d' \<and>
     abs_mem (rdma_remote d') = (lend_one c ^^ n) (abs_mem (rdma_remote d)) \<and> mtype m' = ty \<and> size_gb m' = g \<and>
     offers le v (abs_mem (rdma_remote d)) (abs_mem (rdma_remote d')) (zero_msg ty) m'"
proof -
  obtain conn' r' where r': "res = Inr ([(cid, send_msg conn')], d\<lparr>heap := (heap d)(cid := Some conn'), rdma_remote := r'\<rparr>)"
    "mem_inv r'" "conn_inv r' c conn'" "mapped_chunk_size conn' \<noteq> 0"
    "abs_mem r' = (lend_one c ^^ n) (abs_mem (rdma_remote d))" "mtype (send_msg conn') = ty" "size_gb (send_msg conn') = g"
    "offers le v (abs_mem (rdma_remote d)) (abs_mem r') (zero_msg ty) (send_msg conn')"
    and keep: "\<forall>i. lent (abs_mem (rdma_remote d)) i \<noteq> None \<longrightarrow> lent (abs_mem r') i = lent (abs_mem (rdma_remote d)) i"
    using res unfolding lent_result_def by blast
  let ?conn = "conn'\<lparr>posted := posted conn' + 1\<rparr>"
  let ?d' = "d\<lparr>heap := (heap d)(cid := Some ?conn), rdma_remote := r', conns_state := (conns_state d)[c := CONN_MAPPED]\<rparr>"
  have len: "length (conns_state d) = MAX_CLIENT" and mem: "mem_inv (rdma_remote d)" using inv by (simp_all add: daemon_inv_def)
  have idx: "conn_index conn' = Some (int c)" using r'(3) by (simp add: conn_inv_def)
  have "then_post v cid (bind_reply cid res) = Inr ([(cid, send_msg conn')], ?d')"
    using r'(1) idx len c(1) ibv_goodD(4)[OF v] by (simp add: handler_defs)
  moreover have "daemon_inv ?d'"
  proof (rule daemon_inv_change [OF inv c refl r'(2)])
    fix i e
    assume i: "i < MAX_FREE_MEM_GB" and "e \<noteq> c"
    then show "lent_at r' i = int e \<longleftrightarrow> lent_at (rdma_remote d) i = int e"
      using lent_abs [OF mem i, of e] lent_abs [OF r'(2) i, of e] lent_funpow_back [of n c "abs_mem (rdma_remote d)" i e] keep r'(5)
      by auto
  qed (use r'(3,4) in \<open>simp_all add: conn_inv_def\<close>)
  ultimately show ?thesis using r' by auto
qed

text \<open>A message that asks for chunks: the connection is marked busy and bound, then a routine lends.\<close>

lemma daemon_inv_conn_of:
  assumes "daemon_inv d" "heap d cid = Some conn" "conn_index conn = Some (int c)"
  shows "c < MAX_CLIENT" "conns d ! c = Some cid" "conn_inv (rdma_remote d) c conn"
    "conns_state d ! c = (if mapped_chunk_size conn = 0 then CONN_CONNECTED else CONN_MAPPED)"
    "mem_inv (rdma_remote d)"
proof -
  obtain e where e: "e < MAX_CLIENT" "conns d ! e = Some cid" "conn_inv (rdma_remote d) e conn"
    "conns_state d ! e = (if mapped_chunk_size conn = 0 then CONN_CONNECTED else CONN_MAPPED)"
    by (rule daemon_invE [OF assms(1,2)])
  then have "e = c" using assms(3) by (simp add: conn_inv_def)
  with e show "c < MAX_CLIENT" "conns d ! c = Some cid" "conn_inv (rdma_remote d) c conn"
    "conns_state d ! c = (if mapped_chunk_size conn = 0 then CONN_CONNECTED else CONN_MAPPED)" by simp_all
  show "mem_inv (rdma_remote d)" using assms(1) by (simp add: daemon_inv_def)
qed

definition bound :: "IS_rdma_info \<Rightarrow> connection \<Rightarrow> connection" where
  "bound m conn = (received m conn)\<lparr>server_st := S_BIND\<rparr>"

lemma bound_simps [simp]:
  "connected (bound m conn) = connected conn" "conn_inv r c (bound m conn) = conn_inv r c conn"
  "connected (received m conn) = connected conn" "conn_inv r c (received m conn) = conn_inv r c conn"
  "msg_wf (send_msg (received m conn)) = msg_wf (send_msg conn)"
  by (simp_all add: bound_def received_def conn_inv_def)

lemma bound_inv:
  assumes "daemon_inv d" "heap d cid = Some conn" "conn_index conn = Some (int c)"
  shows "daemon_inv (d\<lparr>heap := (heap d)(cid := Some (bound m conn))\<rparr>)"
    "daemon_inv (d\<lparr>heap := (heap d)(cid := Some (received m conn))\<rparr>)"
  using daemon_inv_conn_of(3)[OF assms]
  by (auto intro!: daemon_inv_msg [OF assms(1,2)] simp: bound_def received_def conn_inv_def)

lemma on_completion_bind:
  assumes "heap d cid = Some conn" "posted conn \<noteq> 0"
  shows "mtype m = BIND \<Longrightarrow> on_completion le v cid True (Wc_Recv m) d =
      then_post v cid (bind_reply cid (send_mr le v cid (size_gb m) (d\<lparr>heap := (heap d)(cid := Some (bound m conn))\<rparr>)))"
    "mtype m = BIND_SINGLE \<Longrightarrow> on_completion le v cid True (Wc_Recv m) d =
      then_post v cid (bind_reply cid (send_single_mr le v cid (size_gb m) (d\<lparr>heap := (heap d)(cid := Some (bound m conn))\<rparr>)))"
    "mtype m = DONE \<Longrightarrow> on_completion le v cid True (Wc_Recv m) d =
      bind_res (recv_done v cid (d\<lparr>heap := (heap d)(cid := Some (received m conn))\<rparr>)) (\<lambda>d. Inr ([], d))"
  using assms by (simp_all add: on_completion_def Let_def set_cq_busy_def get_conn_def put_conn_def bound_def received_def)

text \<open>The chunks that a message gives back.\<close>

definition marked :: "IS_rdma_info \<Rightarrow> nat set" where
  "marked m = {i. i < MAX_MR_SIZE_GB \<and> rkey m ! i \<noteq> 0}"

lemma recv_done_ok:
  assumes inv: "daemon_inv d" and conn: "heap d cid = Some conn" "conn_index conn = Some (int c)"
    and v: "ibv_good v" and m: "recv_msg conn = m" "msg_wf m" "size_gb m = int (card (marked m))"
      "\<forall>i \<in> marked m. lent (abs_mem (rdma_remote d)) i = Some c"
  shows "\<exists>d'. recv_done v cid d = Inr d' \<and> daemon_inv d' \<and>
     abs_mem (rdma_remote d') = give_back (marked m) (abs_mem (rdma_remote d))"
proof -
  let ?r = "rdma_remote d" and ?n = "size_gb m"
  note at = daemon_inv_conn_of [OF inv conn]
  have mk: "marked_upto m MAX_MR_SIZE_GB = marked m" by (simp add: marked_upto_def marked_def)
  have owns: "lent_at ?r i = int c" if "i \<in> marked m" for i
    using m(4) that lent_abs [OF at(5), of i c] by (simp add: marked_def MAX_sizes)
  then have "\<forall>i < MAX_MR_SIZE_GB. rkey m ! i \<noteq> 0 \<longrightarrow> lent_at ?r i = int c" by (simp add: marked_def)
  from take_back_all [OF at(5,3) m(2) order_refl this] obtain conn1 r1 where
    loop: "for_res (take_back m) [0..<MAX_MR_SIZE_GB] (conn, ?r) = Inr (conn1, r1)" "mem_inv (settle ?n r1)"
      "conn_inv (settle ?n r1) c (pend_conn (- ?n) conn1)" "abs_mem r1 = give_back (marked m) (abs_mem ?r)" "same_scm conn conn1"
    by (auto simp: back_inv_def mk m(3) Let_def)
  let ?conn = "(pend_conn (- ?n) conn1)\<lparr>stop_sem := stop_sem conn1 + 1, posted := posted conn1 + 1\<rparr>"
  let ?st = "if mapped_chunk_size ?conn = 0 then CONN_CONNECTED else CONN_MAPPED"
  let ?d' = "d\<lparr>heap := (heap d)(cid := Some ?conn), rdma_remote := settle ?n r1, conns_state := (conns_state d)[c := ?st]\<rparr>"
  have cinv: "conn_inv (settle ?n r1) c ?conn" using loop(3) by (simp add: conn_inv_def)
  have idx: "conn_index conn1 = Some (int c)" using loop(3) by (simp add: conn_inv_def)
  have len: "length (conns_state d) = MAX_CLIENT" using inv by (simp add: daemon_inv_def)
  have lent': "lent (abs_mem (settle ?n r1)) i = (if i \<in> marked m then None else lent (abs_mem ?r) i)" for i
    using loop(4) by (simp add: give_back_def)
  have "mapped_chunk_size conn \<noteq> 0" if "mapped_chunk_size ?conn \<noteq> 0"
  proof
    assume "mapped_chunk_size conn = 0"
    then have "marked m = {}"
      using own_chunk_counted [OF at(3,5)] m(4) by (auto simp: marked_def MAX_sizes)
    then have "?n = 0" using m(3) by simp
    with loop(5) that show False using \<open>mapped_chunk_size conn = 0\<close> by (auto simp: same_scm_def pend_conn_def)
  qed
  then have st: "mapped_chunk_size ?conn \<noteq> 0 \<Longrightarrow> (conns_state d)[c := ?st] = conns_state d"
    using at(4) by (simp add: list_update_same_conv len at(1))
  have "recv_done v cid d = Inr ?d'"
    using conn m(1) loop(1) ibv_goodD(4)[OF v] idx len at(1) st
    by (simp add: recv_done_def handler_defs Let_def settle_def pend_conn_def)
  moreover have "daemon_inv ?d'"
  proof (rule daemon_inv_change [OF inv at(1,2) refl loop(2) cinv refl])
    fix i e
    assume i: "i < MAX_FREE_MEM_GB" and "e \<noteq> c"
    then show "lent_at (settle ?n r1) i = int e \<longleftrightarrow> lent_at ?r i = int e"
      using lent_abs [OF at(5) i, of e] lent_abs [OF loop(2) i, of e] lent' [of i] m(4) by (auto split: if_splits)
  qed
  ultimately show ?thesis using loop(4) by auto
qed

section \<open>The daemon implements the lender\<close>

text \<open>
  What a client may send: it asks for spare chunks only, and gives back chunks that it holds, with
  their number.
\<close>

definition fits :: "nat \<Rightarrow> IS_rdma_info \<Rightarrow> lender \<Rightarrow> bool" where
  "fits c m l \<longleftrightarrow> msg_wf m \<and>
     (case mtype m of
        QUERY \<Rightarrow> True
      | ACTIVITY \<Rightarrow> True
      | BIND \<Rightarrow> 0 < size_gb m \<and> size_gb m \<le> int (card (spare l))
      | BIND_SINGLE \<Rightarrow> spare l \<noteq> {}
      | DONE \<Rightarrow> size_gb m = int (card (marked m)) \<and> (\<forall>i \<in> marked m. lent l i = Some c)
      | _ \<Rightarrow> False)"

definition lender_step :: "nat \<Rightarrow> IS_rdma_info \<Rightarrow> lender \<Rightarrow> lender" where
  "lender_step c m l =
     (case mtype m of
        BIND \<Rightarrow> (lend_one c ^^ nat (size_gb m)) l
      | BIND_SINGLE \<Rightarrow> lend_one c l
      | DONE \<Rightarrow> give_back (marked m) l
      | _ \<Rightarrow> l)"

text \<open>The answer: the number of spare chunks, or the address and key of exactly the chunks lent.\<close>

definition replies :: "bool \<Rightarrow> ibv \<Rightarrow> nat \<Rightarrow> IS_rdma_info \<Rightarrow> lender \<Rightarrow> lender \<Rightarrow> sent \<Rightarrow> bool" where
  "replies le v cid m l l' out \<longleftrightarrow>
     (case mtype m of
        QUERY \<Rightarrow> (\<exists>m'. out = [(cid, m')] \<and> mtype m' = FREE_SIZE \<and> size_gb m' = int (card (spare l)))
      | BIND \<Rightarrow> (\<exists>m'. out = [(cid, m')] \<and> mtype m' = INFO \<and> size_gb m' = size_gb m \<and> offers le v l l' (zero_msg INFO) m')
      | BIND_SINGLE \<Rightarrow> (\<exists>m'. out = [(cid, m')] \<and> mtype m' = INFO_SINGLE \<and> size_gb m' = size_gb m \<and>
          offers le v l l' (zero_msg INFO_SINGLE) m')
      | _ \<Rightarrow> out = [])"

lemma activity_ok:
  assumes inv: "daemon_inv d" and conn: "heap d cid = Some conn" "posted conn \<noteq> 0" and m: "mtype m = ACTIVITY"
  shows "\<exists>d'. on_completion le v cid True (Wc_Recv m) d = Inr ([], d') \<and> daemon_inv d' \<and> rdma_remote d' = rdma_remote d"
proof -
  let ?conn = "conn\<lparr>recv_msg := m, posted := posted conn - 1, evict_sem := evict_sem conn + 1\<rparr>"
  obtain c where "conn_inv (rdma_remote d) c conn" by (rule daemon_invE [OF inv conn(1)])
  then have "daemon_inv (d\<lparr>heap := (heap d)(cid := Some ?conn)\<rparr>)"
    by (intro daemon_inv_msg [OF inv conn(1)]) (simp_all add: conn_inv_def)
  moreover have "on_completion le v cid True (Wc_Recv m) d = Inr ([], d\<lparr>heap := (heap d)(cid := Some ?conn)\<rparr>)"
    using conn m by (simp add: on_completion_def Let_def get_conn_def put_conn_def)
  ultimately show ?thesis by simp
qed

lemma bind_single_ok:
  assumes inv: "daemon_inv d" and conn: "heap d cid = Some conn" "conn_index conn = Some (int c)"
      "connected conn" "posted conn \<noteq> 0"
    and v: "ibv_good v" and m: "mtype m = BIND_SINGLE" and spare: "spare (abs_mem (rdma_remote d)) \<noteq> {}"
  shows "\<exists>m' d'. on_completion le v cid True (Wc_Recv m) d = Inr ([(cid, m')], d') \<and> daemon_inv d' \<and>
     abs_mem (rdma_remote d') = lend_one c (abs_mem (rdma_remote d)) \<and> mtype m' = INFO_SINGLE \<and> size_gb m' = size_gb m \<and>
     offers le v (abs_mem (rdma_remote d)) (abs_mem (rdma_remote d')) (zero_msg INFO_SINGLE) m'"
proof -
  let ?db = "d\<lparr>heap := (heap d)(cid := Some (bound m conn))\<rparr>"
  note at = daemon_inv_conn_of [OF inv conn(1,2)]
  have b: "heap ?db cid = Some (bound m conn)" "connected (bound m conn)" "mem_inv (rdma_remote ?db)"
    "conn_inv (rdma_remote ?db) c (bound m conn)" "conns ?db ! c = Some cid" "spare (abs_mem (rdma_remote ?db)) \<noteq> {}"
    using at conn(3) spare by simp_all
  note bind_finish [OF bound_inv(1)[OF inv conn(1,2), of m] at(1) b(5) send_single_mr_ok [OF b(3,1,2) at(1) b(4) v b(6), of le "size_gb m"] v]
  with on_completion_bind(2)[OF conn(1,4) m, of le v] show ?thesis by auto
qed

lemma on_completion_ok:
  assumes inv: "daemon_inv d" and conn: "heap d cid = Some conn" "conn_index conn = Some (int c)"
      "connected conn" "posted conn \<noteq> 0"
    and v: "ibv_good v" and fit: "fits c m (abs_mem (rdma_remote d))"
  shows "\<exists>out d'. on_completion le v cid True (Wc_Recv m) d = Inr (out, d') \<and> daemon_inv d' \<and>
     abs_mem (rdma_remote d') = lender_step c m (abs_mem (rdma_remote d)) \<and>
     replies le v cid m (abs_mem (rdma_remote d)) (abs_mem (rdma_remote d')) out"
proof -
  let ?db = "d\<lparr>heap := (heap d)(cid := Some (bound m conn))\<rparr>"
  note at = daemon_inv_conn_of [OF inv conn(1,2)]
  note bnd = bound_inv(1)[OF inv conn(1,2), of m]
  have b: "heap ?db cid = Some (bound m conn)" "connected (bound m conn)" "mem_inv (rdma_remote ?db)"
    "conn_inv (rdma_remote ?db) c (bound m conn)" "conns ?db ! c = Some cid"
    using at conn(3) by simp_all
  consider "mtype m = QUERY" | "mtype m = ACTIVITY" | "mtype m = BIND" | "mtype m = BIND_SINGLE" | "mtype m = DONE"
    using fit by (cases "mtype m") (simp_all add: fits_def)
  then show ?thesis
  proof cases
    case 1
    have "size_gb (free_size_of d conn) = int (card (spare (abs_mem (rdma_remote d))))"
      using spare_count [OF at(5)] by (simp add: free_size_of_def)
    with query_ok [OF inv conn(1,3,4) v 1, of le] 1 show ?thesis
      by (auto simp: replies_def lender_step_def free_size_of_def)
  next
    case 2
    with activity_ok [OF inv conn(1,4) 2, of le v] show ?thesis by (auto simp: replies_def lender_step_def)
  next
    case 3
    then have "0 < size_gb m" "size_gb m \<le> int (card (spare (abs_mem (rdma_remote ?db))))" using fit by (simp_all add: fits_def)
    note bind_finish [OF bnd at(1) b(5) send_mr_ok [OF b(3,1,2) at(1) b(4) v this, of le] v]
    with 3 on_completion_bind(1)[OF conn(1,4) 3, of le v] show ?thesis by (auto simp: replies_def lender_step_def)
  next
    case 4
    then have "spare (abs_mem (rdma_remote d)) \<noteq> {}" using fit by (simp add: fits_def)
    with 4 bind_single_ok [OF inv conn v 4, of le] show ?thesis by (auto simp: replies_def lender_step_def)
  next
    case 5
    let ?dr = "d\<lparr>heap := (heap d)(cid := Some (received m conn))\<rparr>"
    have "heap ?dr cid = Some (received m conn)" "conn_index (received m conn) = Some (int c)" "recv_msg (received m conn) = m"
      using conn(2) by (simp_all add: received_def)
    moreover have "msg_wf m" "size_gb m = int (card (marked m))" "\<forall>i \<in> marked m. lent (abs_mem (rdma_remote ?dr)) i = Some c"
      using 5 fit by (simp_all add: fits_def)
    ultimately have "\<exists>d'. recv_done v cid ?dr = Inr d' \<and> daemon_inv d' \<and>
        abs_mem (rdma_remote d') = give_back (marked m) (abs_mem (rdma_remote ?dr))"
      by (intro recv_done_ok [OF bound_inv(2)[OF inv conn(1,2)] _ _ v])
    with 5 on_completion_bind(3)[OF conn(1,4) 5, of le v] show ?thesis by (auto simp: replies_def lender_step_def)
  qed
qed

text \<open>
  C7: The message handler refines the lender. A message of a connected client in slot \<open>c\<close> that keeps
  the contract is handled without an error, for every such message and state: the invariant of all
  tables holds again, the chunks are those of the abstract step (the lowest spare chunks are lent,
  exactly the marked chunks are withdrawn), and the answer carries the number of spare chunks or the
  address and key of exactly the chunks just lent, all other keys being zero.
\<close>

theorem on_completion_refines:
  assumes inv: "daemon_inv d" and conn: "heap d cid = Some conn" "conn_index conn = Some (int c)"
      "connected conn" "posted conn \<noteq> 0"
    and v: "ibv_good v" and fit: "fits c m (abs_mem (rdma_remote d))"
  shows "\<exists>out d'. on_completion le v cid True (Wc_Recv m) d = Inr (out, d') \<and> daemon_inv d' \<and>
     abs_mem (rdma_remote d') = lender_step c m (abs_mem (rdma_remote d)) \<and>
     replies le v cid m (abs_mem (rdma_remote d)) (abs_mem (rdma_remote d')) out"
  using assms by (rule on_completion_ok)

section \<open>Connections\<close>

lemma slot_idle:
  assumes "daemon_inv d" "c < MAX_CLIENT"
  shows "conns_state d ! c = CONN_IDLE \<longleftrightarrow> conns d ! c = None"
  using daemon_inv_slot [OF assms] by (cases "conns d ! c") (auto simp: slot_inv_def split: if_splits)

lemma add_to_session_first:
  assumes "length (conns d) = MAX_CLIENT" "length (conns_state d) = MAX_CLIENT" "heap d cid = Some conn"
    "\<forall>i < c. conns_state d ! i \<noteq> CONN_IDLE" "c < MAX_CLIENT" "conns_state d ! c = CONN_IDLE" "k \<le> c"
  shows "add_to_session cid [k..<MAX_CLIENT] d = Inr (d\<lparr>conns := (conns d)[c := Some cid],
     conns_state := (conns_state d)[c := CONN_CONNECTED], heap := (heap d)(cid := Some (conn\<lparr>conn_index := Some (int c)\<rparr>))\<rparr>)"
  using assms
proof (induction "c - k" arbitrary: k)
  case 0
  then show ?case by (simp add: upt_conv_Cons get_conn_def put_conn_def fun_upd_def)
next
  case (Suc n)
  then have k: "k < c" by simp
  have "add_to_session cid [k..<MAX_CLIENT] d = add_to_session cid [Suc k..<MAX_CLIENT] d"
    using k Suc.prems(2,4,5) by (simp add: upt_conv_Cons)
  also have "\<dots> = Inr (d\<lparr>conns := (conns d)[c := Some cid],
     conns_state := (conns_state d)[c := CONN_CONNECTED], heap := (heap d)(cid := Some (conn\<lparr>conn_index := Some (int c)\<rparr>))\<rparr>)"
    using Suc.hyps(2) k by (intro Suc.hyps(1) Suc.prems) simp_all
  finally show ?case .
qed

lemma add_to_session_full:
  "\<forall>i \<in> set is. i < length (conns_state d) \<and> conns_state d ! i \<noteq> CONN_IDLE \<Longrightarrow> add_to_session cid is d = Inr d"
  by (induction "is") simp_all

text \<open>The session has one verbs context for all its clients.\<close>

definition same_verbs :: "nat \<Rightarrow> daemon \<Rightarrow> bool" where
  "same_verbs verbs d \<longleftrightarrow> s_ctx d = None \<or> s_ctx d = Some verbs"

lemma build_context_ok: "ibv_good v \<Longrightarrow> same_verbs verbs d \<Longrightarrow> build_context v verbs d = Inr (d\<lparr>s_ctx := Some verbs\<rparr>)"
  by (auto simp: build_context_def same_verbs_def ibv_goodD split: option.split)

definition placed :: "IS_rdma_info \<Rightarrow> nat \<Rightarrow> connection" where
  "placed fresh c = (new_conn fresh)\<lparr>conn_index := Some (int c), posted := 1\<rparr>"

text \<open>A connection request when a slot is idle: the first idle slot is taken.\<close>

lemma connect_ok:
  assumes inv: "daemon_inv d" and new: "heap d cid = None" and v: "ibv_good v" "same_verbs verbs d" and wf: "msg_wf fresh"
    and c: "c < MAX_CLIENT" "conns d ! c = None" "\<forall>i < c. conns d ! i \<noteq> None"
  shows "\<exists>d'. on_connect_request v fresh verbs cid True d = Inr d' \<and> daemon_inv d' \<and> rdma_remote d' = rdma_remote d \<and>
     conns d' = (conns d)[c := Some cid] \<and> heap d' = (heap d)(cid := Some (placed fresh c)) \<and> s_ctx d' = Some verbs"
proof -
  let ?d' = "d\<lparr>s_ctx := Some verbs, conns := (conns d)[c := Some cid], conns_state := (conns_state d)[c := CONN_CONNECTED],
     conn_num := conn_num d + 1, heap := (heap d)(cid := Some (placed fresh c))\<rparr>"
  have len: "length (conns d) = MAX_CLIENT" "length (conns_state d) = MAX_CLIENT"
    "length (conn_map (rdma_remote d)) = MAX_FREE_MEM_GB"
    using inv by (simp_all add: daemon_inv_def mem_inv_def)
  have idle: "conns_state d ! c = CONN_IDLE" "\<forall>i < c. conns_state d ! i \<noteq> CONN_IDLE"
    using slot_idle [OF inv] c by auto
  have "on_connect_request v fresh verbs cid True d = Inr ?d'"
    using len c(1) idle ibv_goodD [OF v(1)]
    by (simp add: on_connect_request_def build_connection_def build_context_ok [OF v] put_conn_def
        add_to_session_first [where c = c and conn = "new_conn fresh"] register_memory_def post_receives_def get_conn_def
        placed_def new_conn_def)
  moreover have "daemon_inv ?d'"
  proof -
    have "\<forall>i < MAX_FREE_MEM_GB. lent_at (rdma_remote d) i \<noteq> int c"
      using daemon_inv_slot [OF inv c(1)] c(2) by (simp add: slot_inv_def)
    then have "count_if (\<lambda>e. e = int c) (conn_map (rdma_remote d)) = 0" "\<forall>i < MAX_FREE_MEM_GB. lent_at (rdma_remote d) i \<noteq> int c"
      using len(3) by (auto simp: count_if_def filter_empty_conv in_set_conv_nth)
    then have at: "slot_inv ?d' c"
      using len c(1) wf by (simp add: slot_inv_def conn_inv_def placed_def new_conn_def MAX_sizes)
    have slot: "slot_inv ?d' e" if e: "e < MAX_CLIENT" for e
    proof (cases "e = c")
      case False
      show ?thesis
      proof (rule slot_inv_frame [OF daemon_inv_slot [OF inv e]])
        fix k
        assume "conns d ! e = Some k"
        then have "k \<noteq> cid" using daemon_inv_slot [OF inv e] new by (auto simp: slot_inv_def)
        then show "heap ?d' k = heap d k" by simp
      qed (use False len in simp_all)
    qed (use at in simp)
    have "\<exists>e < MAX_CLIENT. conn_index cn = Some (int e) \<and> (conns d)[c := Some cid] ! e = Some k" if "heap ?d' k = Some cn" for k cn
    proof (cases "k = cid")
      case True
      then show ?thesis using that c len by (intro exI [of _ c]) (auto simp: placed_def)
    next
      case False
      with that have k: "heap d k = Some cn" by simp
      obtain e where "e < MAX_CLIENT" "conn_index cn = Some (int e)" "conns d ! e = Some k"
        by (rule daemon_invE [OF inv k]) (simp add: conn_inv_def)
      moreover from this c(2) have "e \<noteq> c" by auto
      ultimately show ?thesis by auto
    qed
    then show ?thesis
      using inv slot len c by (simp add: daemon_inv_def count_if_update)
  qed
  ultimately show ?thesis by auto
qed

text \<open>The chunks of a connection that is destroyed.\<close>

lemma unlend_all:
  assumes "mem_inv r" "conn_inv r c conn"
  shows "\<exists>ccm. for_res (unlend conn) [0..<MAX_MR_SIZE_GB] r =
     Inr (r\<lparr>conn_map := map (\<lambda>e. if e = int c then -1 else e) (conn_map r), conn_chunk_map := ccm\<rparr>) \<and> length ccm = MAX_FREE_MEM_GB"
proof -
  let ?P = "\<lambda>j r'. \<exists>cm ccm. r' = r\<lparr>conn_map := cm, conn_chunk_map := ccm\<rparr> \<and> length cm = MAX_FREE_MEM_GB \<and>
     length ccm = MAX_FREE_MEM_GB \<and> (\<forall>i < MAX_FREE_MEM_GB. cm ! i = (if i < j \<and> lent_at r i = int c then -1 else lent_at r i))"
  have len: "length (conn_map r) = MAX_FREE_MEM_GB" "length (conn_chunk_map r) = MAX_FREE_MEM_GB"
    using assms(1) by (simp_all add: mem_inv_def)
  have "\<exists>x. for_res (unlend conn) [0..<MAX_MR_SIZE_GB] r = Inr x \<and> ?P MAX_MR_SIZE_GB x"
  proof (rule for_res_inv [where P = ?P])
    show "?P 0 r" using len by (intro exI [of _ "conn_map r"] exI [of _ "conn_chunk_map r"]) simp
  next
    fix j r'
    assume j: "j < MAX_MR_SIZE_GB" and "?P j r'"
    then obtain cm ccm where P: "r' = r\<lparr>conn_map := cm, conn_chunk_map := ccm\<rparr>" "length cm = MAX_FREE_MEM_GB" "length ccm = MAX_FREE_MEM_GB"
      "\<forall>i < MAX_FREE_MEM_GB. cm ! i = (if i < j \<and> lent_at r i = int c then -1 else lent_at r i)" by blast
    have scm: "length (sess_chunk_map conn) = MAX_FREE_MEM_GB" "sess_chunk_map conn ! j = (if lent_at r j = int c then int j else -1)"
      using assms(2) j by (simp_all add: conn_inv_def MAX_sizes)
    show "\<exists>x. unlend conn j r' = Inr x \<and> ?P (Suc j) x"
    proof (cases "lent_at r j = int c")
      case True
      then have "unlend conn j r' = Inr (r\<lparr>conn_map := cm[j := -1], conn_chunk_map := ccm[j := -1]\<rparr>)"
        using scm P(1-3) j by (simp add: unlend_def MAX_sizes)
      moreover have "\<forall>i < MAX_FREE_MEM_GB. cm[j := -1] ! i = (if i < Suc j \<and> lent_at r i = int c then -1 else lent_at r i)"
        using P(2,4) True j by (auto simp: nth_list_update less_Suc_eq MAX_sizes)
      ultimately show ?thesis using P(2,3) by (intro exI conjI) (assumption | rule refl | simp)+
    next
      case False
      then have "unlend conn j r' = Inr r'" using scm j by (simp add: unlend_def MAX_sizes)
      moreover have "?P (Suc j) r'" using P False by (intro exI [of _ cm] exI [of _ ccm]) (auto simp: less_Suc_eq)
      ultimately show ?thesis by blast
    qed
  qed
  then obtain cm ccm where x: "for_res (unlend conn) [0..<MAX_MR_SIZE_GB] r = Inr (r\<lparr>conn_map := cm, conn_chunk_map := ccm\<rparr>)"
    "length cm = MAX_FREE_MEM_GB" "length ccm = MAX_FREE_MEM_GB"
    "\<forall>i < MAX_FREE_MEM_GB. cm ! i = (if i < MAX_MR_SIZE_GB \<and> lent_at r i = int c then -1 else lent_at r i)" by blast
  then have "cm = map (\<lambda>e. if e = int c then -1 else e) (conn_map r)"
    by (intro nth_equalityI) (simp_all add: len MAX_sizes)
  with x(1,3) show ?thesis by blast
qed

lemma count_unlent: "count_if (\<lambda>x. x \<noteq> -1) (map (\<lambda>e. if e = int c then -1 else e) xs) =
    count_if (\<lambda>x. x \<noteq> -1) xs - count_if (\<lambda>e. e = int c) xs"
  by (induction xs) (auto simp: count_if_def)

definition unlent :: "nat \<Rightarrow> rdma_remote_mem \<Rightarrow> int list \<Rightarrow> rdma_remote_mem" where
  "unlent c r ccm = r\<lparr>conn_map := map (\<lambda>e. if e = int c then -1 else e) (conn_map r), conn_chunk_map := ccm,
     mapped_size := mapped_size r - count_if (\<lambda>e. e = int c) (conn_map r)\<rparr>"

lemma unlent_ok:
  assumes "mem_inv r" "length ccm = MAX_FREE_MEM_GB"
  shows "mem_inv (unlent c r ccm)" "abs_mem (unlent c r ccm) = leave c (abs_mem r)"
    "i < MAX_FREE_MEM_GB \<Longrightarrow> lent_at (unlent c r ccm) i = (if lent_at r i = int c then -1 else lent_at r i)"
proof -
  show "mem_inv (unlent c r ccm)"
    using assms by (auto simp: mem_inv_def unlent_def count_unlent)
  show "abs_mem (unlent c r ccm) = leave c (abs_mem r)"
    using mem_invD(3)[OF assms(1)] mem_invD(10)[OF assms(1)]
    by (auto simp: abs_mem_def unlent_def leave_def fun_eq_iff)
  show "i < MAX_FREE_MEM_GB \<Longrightarrow> lent_at (unlent c r ccm) i = (if lent_at r i = int c then -1 else lent_at r i)"
    using mem_invD(3)[OF assms(1)] by (simp add: unlent_def)
qed

lemma no_chunks_leave:
  assumes "mem_inv r" "count_if (\<lambda>e. e = int c) (conn_map r) = 0"
  shows "i < MAX_FREE_MEM_GB \<Longrightarrow> lent_at r i \<noteq> int c" "leave c (abs_mem r) = abs_mem r"
proof -
  have none: "lent_at r i \<noteq> int c" if "i < MAX_FREE_MEM_GB" for i
    using assms(2) mem_invD(3)[OF assms(1)] that by (auto simp: count_if_zero_iff)
  then show "i < MAX_FREE_MEM_GB \<Longrightarrow> lent_at r i \<noteq> int c" .
  have "lent (abs_mem r) i \<noteq> Some c" for i
    using none [of i] mem_invD(10)[OF assms(1), of i] by (auto simp: abs_mem_def)
  then show "leave c (abs_mem r) = abs_mem r" by (simp add: leave_def)
qed

lemma destroy_remote:
  assumes "mem_inv r" "conn_inv r c conn"
  shows "\<exists>r'. (if 0 < mapped_chunk_size conn
               then bind_res (for_res (unlend conn) [0..<MAX_MR_SIZE_GB] r) (\<lambda>r.
                      Inr (r\<lparr>mapped_size := mapped_size r - mapped_chunk_size conn\<rparr>))
               else Inr r) = Inr r' \<and> mem_inv r' \<and> abs_mem r' = leave c (abs_mem r) \<and>
    (\<forall>i < MAX_FREE_MEM_GB. lent_at r' i = (if lent_at r i = int c then -1 else lent_at r i))"
proof (cases "0 < mapped_chunk_size conn")
  case True
  obtain ccm where "for_res (unlend conn) [0..<MAX_MR_SIZE_GB] r =
     Inr (r\<lparr>conn_map := map (\<lambda>e. if e = int c then -1 else e) (conn_map r), conn_chunk_map := ccm\<rparr>)" "length ccm = MAX_FREE_MEM_GB"
    using unlend_all [OF assms] by blast
  moreover have "mapped_chunk_size conn = count_if (\<lambda>e. e = int c) (conn_map r)" using assms(2) by (simp add: conn_inv_def)
  ultimately show ?thesis
    using True unlent_ok [OF assms(1), of ccm] by (intro exI [of _ "unlent c r ccm"]) (simp add: unlent_def)
next
  case False
  then have "count_if (\<lambda>e. e = int c) (conn_map r) = 0" using assms(2) by (simp add: conn_inv_def count_if_def)
  from no_chunks_leave [OF assms(1) this] False show ?thesis using assms(1) by simp
qed

lemma destroy_ok:
  assumes inv: "daemon_inv d" and conn: "heap d cid = Some conn" "conn_index conn = Some (int c)"
  shows "\<exists>d'. destroy_connection cid d = Inr d' \<and> daemon_inv d' \<and>
     abs_mem (rdma_remote d') = leave c (abs_mem (rdma_remote d)) \<and> conns d' = (conns d)[c := None] \<and>
     heap d' = (heap d)(cid := None) \<and> conn_num d' = conn_num d - 1 \<and>
     running d' = (conn_num d \<noteq> 1 \<and> running d) \<and> s_ctx d' = s_ctx d"
proof -
  note at = daemon_inv_conn_of [OF inv conn]
  obtain r' where r': "(if 0 < mapped_chunk_size conn
               then bind_res (for_res (unlend conn) [0..<MAX_MR_SIZE_GB] (rdma_remote d)) (\<lambda>r.
                      Inr (r\<lparr>mapped_size := mapped_size r - mapped_chunk_size conn\<rparr>))
               else Inr (rdma_remote d)) = Inr r'" "mem_inv r'" "abs_mem r' = leave c (abs_mem (rdma_remote d))"
    "\<forall>i < MAX_FREE_MEM_GB. lent_at r' i = (if lent_at (rdma_remote d) i = int c then -1 else lent_at (rdma_remote d) i)"
    using destroy_remote [OF at(5,3)] by blast
  let ?d' = "d\<lparr>rdma_remote := r', conns := (conns d)[c := None], conns_state := (conns_state d)[c := CONN_IDLE],
     conn_num := conn_num d - 1, running := (if conn_num d - 1 = 0 then False else running d), heap := (heap d)(cid := None)\<rparr>"
  have len: "length (conns d) = MAX_CLIENT" "length (conns_state d) = MAX_CLIENT"
    "length (conn_map (rdma_remote d)) = MAX_FREE_MEM_GB" "length (conn_map r') = MAX_FREE_MEM_GB"
    using inv r'(2) by (simp_all add: daemon_inv_def mem_inv_def)
  have "destroy_connection cid d = Inr ?d'"
    unfolding destroy_connection_def using conn r'(1) len at(1)
    by (simp add: get_conn_def the_index_def del: if_weak_cong)
  moreover have "daemon_inv ?d'"
  proof -
    have slot: "slot_inv ?d' e" if e: "e < MAX_CLIENT" for e
    proof (cases "e = c")
      case True
      then show ?thesis using len at(1) r'(4) by (simp add: slot_inv_def)
    next
      case False
      show ?thesis
      proof (rule slot_inv_frame [OF daemon_inv_slot [OF inv e]])
        fix k
        assume "conns d ! e = Some k"
        then have "k \<noteq> cid" using slots_distinct [OF inv at(1) e at(2)] False by auto
        then show "heap ?d' k = heap d k" by simp
      qed (use False len r'(4) in simp_all)
    qed
    have "\<exists>e < MAX_CLIENT. conn_index cn = Some (int e) \<and> (conns d)[c := None] ! e = Some k" if "heap ?d' k = Some cn" for k cn
    proof -
      from that have k: "heap d k = Some cn" "k \<noteq> cid" by (simp_all split: if_splits)
      obtain e where "e < MAX_CLIENT" "conn_index cn = Some (int e)" "conns d ! e = Some k"
        by (rule daemon_invE [OF inv k(1)]) (simp add: conn_inv_def)
      moreover from this at(2) k(2) have "e \<noteq> c" by auto
      ultimately show ?thesis by auto
    qed
    then show ?thesis using inv r'(2) slot len at(1,2) by (simp add: daemon_inv_def count_if_update)
  qed
  ultimately show ?thesis using r'(3) by (intro exI [of _ ?d']) simp
qed

text \<open>
  C13: A client that leaves gives back exactly its chunks. When a connection of slot \<open>c\<close> is closed the
  handler succeeds, the tables agree again, the chunks lent to \<open>c\<close> are spare and those of the others
  stay lent, and no memory is withdrawn; the program keeps running if and only if another client is
  connected.
\<close>

theorem on_disconnect_refines:
  assumes "daemon_inv d" "heap d cid = Some conn" "conn_index conn = Some (int c)"
  shows "\<exists>d'. on_event v cid Disconnected d = Inr ([], d') \<and> daemon_inv d' \<and>
     abs_mem (rdma_remote d') = leave c (abs_mem (rdma_remote d)) \<and> heap d' = (heap d)(cid := None) \<and>
     running d' = (conn_num d \<noteq> 1 \<and> running d)"
  using destroy_ok [OF assms] by (auto simp: on_event_def on_disconnect_def)

text \<open>A connection that is established learns the number of spare chunks.\<close>

lemma established_ok:
  assumes inv: "daemon_inv d" and conn: "heap d cid = Some conn" and v: "ibv_good v"
  shows "\<exists>d' m. on_event v cid Established d = Inr ([(cid, m)], d') \<and> daemon_inv d' \<and> rdma_remote d' = rdma_remote d \<and>
     mtype m = FREE_SIZE \<and> size_gb m = int (card (spare (abs_mem (rdma_remote d)))) \<and> s_ctx d' = s_ctx d \<and>
     heap d' = (heap d)(cid := Some (conn\<lparr>connected := True, send_msg := m\<rparr>)) \<and> conns d' = conns d"
proof -
  let ?conn = "conn\<lparr>connected := True, send_msg := free_size_of d conn\<rparr>"
  obtain c where "conn_inv (rdma_remote d) c conn" by (rule daemon_invE [OF inv conn])
  then have "daemon_inv (d\<lparr>heap := (heap d)(cid := Some ?conn)\<rparr>)"
    by (intro daemon_inv_msg [OF inv conn]) (simp_all add: conn_inv_def free_size_of_def msg_wf_def)
  moreover have "on_event v cid Established d = Inr ([(cid, free_size_of d conn)], d\<lparr>heap := (heap d)(cid := Some ?conn)\<rparr>)"
    using conn ibv_goodD(5)[OF v]
    by (simp add: on_event_def on_connection_def on_connect_def send_free_mem_size_def handler_defs free_size_of_def)
  moreover have "mem_inv (rdma_remote d)" using inv by (simp add: daemon_inv_def)
  ultimately show ?thesis using spare_count [of "rdma_remote d"] by (auto simp: free_size_of_def)
qed

text \<open>
  The session has no room check. When all 32 slots are taken a further connection request is
  accepted all the same: it gets no slot, is counted as the 33rd client, and its index stays
  uninitialised. Whatever the client does next reads that index: its request for a chunk (as long as
  there is a spare one) and the handler of its disconnection.
\<close>

theorem full_session_overflows:
  assumes inv: "daemon_inv d" and full: "conn_num d = int MAX_CLIENT" and new: "heap d cid = None"
    and v: "ibv_good v" "same_verbs verbs d" and wf: "msg_wf fresh" and m: "mtype m = BIND_SINGLE"
    and spare: "spare (abs_mem (rdma_remote d)) \<noteq> {}"
  shows "\<exists>d' d'' out. on_event v cid (Connect_Request verbs True fresh) d = Inr ([], d') \<and>
     conns d' = conns d \<and> conn_num d' = 33 \<and> map_option conn_index (heap d' cid) = Some None \<and>
     on_event v cid Established d' = Inr (out, d'') \<and>
     on_completion le v cid True (Wc_Recv m) d'' = Inl Uninit_Read \<and>
     on_event v cid Disconnected d'' = Inl Uninit_Read"
proof -
  let ?conn = "(new_conn fresh)\<lparr>posted := 1\<rparr>"
  let ?d' = "d\<lparr>s_ctx := Some verbs, conn_num := conn_num d + 1, heap := (heap d)(cid := Some ?conn)\<rparr>"
  let ?ce = "?conn\<lparr>connected := True, send_msg := free_size_of d ?conn\<rparr>"
  let ?de = "?d'\<lparr>heap := (heap ?d')(cid := Some ?ce)\<rparr>"
  have len: "length (conns d) = MAX_CLIENT" "length (conns_state d) = MAX_CLIENT" and mem: "mem_inv (rdma_remote d)"
    using inv by (simp_all add: daemon_inv_def)
  have "count_if (\<lambda>x. x \<noteq> None) (conns d) = int (length (conns d))" using inv full len by (simp add: daemon_inv_def)
  then have "\<forall>i < length (conns d). conns d ! i \<noteq> None" by (simp only: count_if_full_iff)
  then have busy: "\<forall>i < MAX_CLIENT. conns_state d ! i \<noteq> CONN_IDLE" using slot_idle [OF inv] len(1) by simp
  have "on_event v cid (Connect_Request verbs True fresh) d = Inr ([], ?d')"
    using busy len ibv_goodD [OF v(1)]
    by (simp add: on_event_def on_connect_request_def build_connection_def build_context_ok [OF v] put_conn_def
        add_to_session_full register_memory_def post_receives_def get_conn_def new_conn_def)
  moreover have "on_event v cid Established ?d' = Inr ([(cid, free_size_of d ?conn)], ?de)"
    using ibv_goodD(5)[OF v(1)]
    by (simp add: on_event_def on_connection_def on_connect_def send_free_mem_size_def handler_defs free_size_of_def)
  moreover have "on_event v cid Disconnected ?de = Inl Uninit_Read"
    by (simp add: on_event_def on_disconnect_def destroy_connection_def get_conn_def the_index_def new_conn_def)
  moreover have "on_completion le v cid True (Wc_Recv m) ?de = Inl Uninit_Read"
  proof -
    let ?dw = "?de\<lparr>heap := (heap ?de)(cid := Some (bound m ?ce))\<rparr>" and ?i = "Min (spare (abs_mem (rdma_remote d)))"
    let ?cw = "(bound m ?ce)\<lparr>send_msg := (free_size_of d ?conn)\<lparr>size_gb := size_gb m, rkey := replicate MAX_MR_SIZE_GB 0\<rparr>\<rparr>"
    have "?i \<in> spare (abs_mem (rdma_remote d))" using spare by (intro Min_in) simp_all
    then have i: "?i < MAX_FREE_MEM_GB" by (simp add: spare_abs)
    have "clear_keys ((bound m ?ce)\<lparr>send_msg := (send_msg (bound m ?ce))\<lparr>size_gb := size_gb m\<rparr>\<rparr>) = Inr ?cw"
      using wf by (subst clear_keys_ok) (simp_all add: msg_wf_def bound_def received_def free_size_of_def new_conn_def)
    moreover have "lend_first le v [0..<MAX_FREE_MEM_GB] (?cw, rdma_remote d) = Inl Uninit_Read"
      using lend_first_ok [OF mem _ _ spare, of 0 le v ?cw] i
      by (simp add: lend_chunk_def the_index_def bound_def received_def new_conn_def)
    ultimately have "send_single_mr le v cid (size_gb m) ?dw = Inl Uninit_Read"
      by (simp add: send_single_mr_def get_conn_def)
    then show ?thesis
      using on_completion_bind(2)[of ?de cid ?ce m le v] m by (simp add: then_post_def bind_reply_def)
  qed
  ultimately show ?thesis using full by (intro exI conjI) (assumption | simp add: new_conn_def MAX_CLIENT_def)+
qed

section \<open>Clients that break the contract\<close>

lemma take_back_stranger:
  assumes r: "mem_inv r" and conn: "conn_inv r c conn" and m: "msg_wf m" and i: "i \<in> marked m" "lent (abs_mem r) i \<noteq> Some c"
  shows "for_res (take_back m) [0..<MAX_MR_SIZE_GB] (conn, r) = Inl Out_Of_Bounds"
proof -
  define k where "k = (LEAST i. i \<in> marked m \<and> lent (abs_mem r) i \<noteq> Some c)"
  have k: "k \<in> marked m" "lent (abs_mem r) k \<noteq> Some c"
    using LeastI [of "\<lambda>i. i \<in> marked m \<and> lent (abs_mem r) i \<noteq> Some c", OF conjI [OF i]] by (simp_all add: k_def)
  have less: "lent (abs_mem r) i = Some c" if "i < k" "i \<in> marked m" for i
    using not_less_Least [of i "\<lambda>i. i \<in> marked m \<and> lent (abs_mem r) i \<noteq> Some c"] that by (simp add: k_def)
  have kM: "k < MAX_MR_SIZE_GB" "rkey m ! k \<noteq> 0" using k(1) by (simp_all add: marked_def)
  have "lent_at r i = int c" if "i < k" "rkey m ! i \<noteq> 0" for i
    using less [of i] that kM lent_abs [OF r, of i c] by (simp add: marked_def MAX_sizes)
  then have "\<forall>i < k. rkey m ! i \<noteq> 0 \<longrightarrow> lent_at r i = int c" by simp
  from take_back_all [OF r conn m less_imp_le [OF kM(1)] this]
  obtain conn1 r1 where loop: "for_res (take_back m) [0..<k] (conn, r) = Inr (conn1, r1)" "back_inv c m conn r k (conn1, r1)"
    by auto
  define n where "n = int (card (marked_upto m k))"
  have inv1: "mem_inv (settle n r1)" "conn_inv (settle n r1) c (pend_conn (- n) conn1)"
    "abs_mem r1 = give_back (marked_upto m k) (abs_mem r)" using loop(2) by (simp_all add: back_inv_def Let_def n_def)
  have "lent (abs_mem r1) k \<noteq> Some c" using k(2) inv1(3) by (simp add: give_back_def)
  then have "lent_at r1 k \<noteq> int c" using lent_abs [OF inv1(1), of k c] kM(1) by (simp add: MAX_sizes)
  then have "sess_chunk_map conn1 ! k = -1" "length (sess_chunk_map conn1) = MAX_MR_SIZE_GB"
    using inv1(2) kM(1) by (simp_all add: conn_inv_def)
  then have "take_back m k (conn1, r1) = Inl Out_Of_Bounds"
    using kM m by (simp add: take_back_def msg_wf_def arr_get_def)
  moreover have "[0..<MAX_MR_SIZE_GB] = [0..<k] @ k # [Suc k..<MAX_MR_SIZE_GB]"
    using kM(1) by (metis append_Cons append_Nil le0 less_imp_le upt_add_eq_append upt_conv_Cons le_add_diff_inverse)
  ultimately show ?thesis using loop(1) by (simp add: for_res_append)
qed

text \<open>
  A final eviction message is trusted. If the message of a client marks a chunk that is not lent to
  that client, whatever else it holds, the handler reads its tables at index -1.
\<close>

theorem done_trusts_client:
  assumes inv: "daemon_inv d" and conn: "heap d cid = Some conn" "conn_index conn = Some (int c)" "posted conn \<noteq> 0"
    and m: "mtype m = DONE" "msg_wf m" and i: "i \<in> marked m" "lent (abs_mem (rdma_remote d)) i \<noteq> Some c"
  shows "on_completion le v cid True (Wc_Recv m) d = Inl Out_Of_Bounds"
proof -
  note at = daemon_inv_conn_of [OF inv conn(1,2)]
  have "conn_inv (rdma_remote d) c (received m conn)" using at(3) by simp
  from take_back_stranger [OF at(5) this m(2) i]
  have "recv_done v cid (d\<lparr>heap := (heap d)(cid := Some (received m conn))\<rparr>) = Inl Out_Of_Bounds"
    by (simp add: recv_done_def get_conn_def received_def Let_def)
  then show ?thesis using on_completion_bind(3)[OF conn(1,3) m(1), of le v] by simp
qed

lemma lend_first_none:
  assumes "mem_inv r" "spare (abs_mem r) = {}" "\<forall>i \<in> set is. i < MAX_FREE_MEM_GB"
  shows "lend_first le v is (conn, r) = Inr (conn, r)"
  using assms(3)
proof (induction "is")
  case (Cons i "is")
  then have i: "i < MAX_FREE_MEM_GB" by simp
  then have "\<not> free_chunk r i" using assms(2) by (auto simp: spare_abs)
  then have "lendable r i = Inr False" using lendable_ok [of 0 r i] assms(1) i by simp
  then show ?case using Cons by simp
qed simp

text \<open>
  A chunk is counted even when none is lent. A client that asks for one chunk when the daemon has
  no spare chunk gets an answer without any key; the table of chunks stays as it is, but the client
  and the session count one chunk more, so that the number of spare chunks the daemon announces from
  then on is \<open>-1\<close> and the tables no longer agree.
\<close>

theorem bind_single_without_spare:
  assumes inv: "daemon_inv d" and conn: "heap d cid = Some conn" "conn_index conn = Some (int c)" "connected conn" "posted conn \<noteq> 0"
    and v: "ibv_good v" and m: "mtype m = BIND_SINGLE" and none: "spare (abs_mem (rdma_remote d)) = {}"
  shows "\<exists>m' d'. on_completion le v cid True (Wc_Recv m) d = Inr ([(cid, m')], d') \<and> mtype m' = INFO_SINGLE \<and>
     rkey m' = replicate MAX_MR_SIZE_GB 0 \<and> conn_map (rdma_remote d') = conn_map (rdma_remote d) \<and>
     mem_size_gb (rdma_remote d') - mapped_size (rdma_remote d') = -1 \<and> \<not> daemon_inv d'"
proof -
  note at = daemon_inv_conn_of [OF inv conn(1,2)]
  let ?db = "d\<lparr>heap := (heap d)(cid := Some (bound m conn))\<rparr>" and ?r' = "pend 1 (rdma_remote d)"
  let ?ck = "(bound m conn)\<lparr>send_msg := (send_msg conn)\<lparr>size_gb := size_gb m, rkey := replicate MAX_MR_SIZE_GB 0\<rparr>\<rparr>"
  let ?cn = "(pend_conn 1 ?ck)\<lparr>send_msg := (send_msg ?ck)\<lparr>mtype := INFO_SINGLE\<rparr>\<rparr>"
  let ?d' = "d\<lparr>heap := (heap d)(cid := Some (?cn\<lparr>posted := posted ?cn + 1\<rparr>)), rdma_remote := ?r',
     conns_state := (conns_state d)[c := CONN_MAPPED]\<rparr>"
  have len: "length (conns_state d) = MAX_CLIENT" using inv by (simp add: daemon_inv_def)
  have "clear_keys ((bound m conn)\<lparr>send_msg := (send_msg (bound m conn))\<lparr>size_gb := size_gb m\<rparr>\<rparr>) = Inr ?ck"
    using at(3) by (subst clear_keys_ok) (simp_all add: conn_inv_def msg_wf_def bound_def received_def)
  moreover have "lend_first le v [0..<MAX_FREE_MEM_GB] (?ck, rdma_remote d) = Inr (?ck, rdma_remote d)"
    using lend_first_none [OF at(5) none] by simp
  ultimately have "send_single_mr le v cid (size_gb m) ?db =
      Inr ([(cid, send_msg ?cn)], d\<lparr>heap := (heap d)(cid := Some ?cn), rdma_remote := ?r'\<rparr>)"
    using conn(3) ibv_goodD(5)[OF v]
    by (simp add: send_single_mr_def get_conn_def put_conn_def send_message_def pend_def pend_conn_def)
  then have "on_completion le v cid True (Wc_Recv m) d = Inr ([(cid, send_msg ?cn)], ?d')"
    using on_completion_bind(2)[OF conn(1,4) m, of le v] conn(2) len at(1) ibv_goodD(4)[OF v]
    by (simp add: handler_defs bound_def received_def)
  moreover have "mem_size_gb ?r' - mapped_size ?r' = -1"
    using spare_count [OF at(5)] none by (simp add: pend_def)
  moreover have "\<not> daemon_inv ?d'"
    using at(5) by (simp add: daemon_inv_def mem_inv_def pend_def)
  ultimately show ?thesis by (intro exI [of _ "send_msg ?cn"] exI [of _ ?d']) simp
qed

section \<open>A concrete session\<close>

text \<open>\<open>n\<close> connected clients, none of them with a chunk, and \<open>k\<close> allocated chunks.\<close>

definition ibv_ex :: ibv where
  "ibv_ex = \<lparr>ctx_ok = True, create_qp_ok = True, reg_msg_ok = True, post_recv_ok = True, post_send_ok = True,
     reg_mr = (\<lambda>i. Some (0x1000 + of_nat i, 5))\<rparr>"

definition crowd :: "nat \<Rightarrow> nat \<Rightarrow> daemon" where
  "crowd n k =
     \<lparr>conns = map (\<lambda>c. if c < n then Some c else None) [0..<MAX_CLIENT],
      conns_state = map (\<lambda>c. if c < n then CONN_CONNECTED else CONN_IDLE) [0..<MAX_CLIENT], conn_num = int n,
      rdma_remote = \<lparr>region_list = replicate k Live @ replicate (MAX_FREE_MEM_GB - k) Null, mr_list = replicate MAX_FREE_MEM_GB Null, mem_size_gb = int k,
        mapped_size = 0, conn_map = replicate MAX_FREE_MEM_GB (-1), malloc_map = replicate k CHUNK_MALLOCED @ replicate (MAX_FREE_MEM_GB - k) CHUNK_EMPTY,
        conn_chunk_map = replicate MAX_FREE_MEM_GB (-1)\<rparr>,
      heap = (\<lambda>c. if c < n then Some ((placed (zero_msg QUERY) c)\<lparr>connected := True\<rparr>) else None),
      s_ctx = Some 0, running = True\<rparr>"

lemma ibv_ex_good: "ibv_good ibv_ex"
  by (simp add: ibv_good_def ibv_ex_def)

lemma crowd_mem:
  assumes "k \<le> MAX_FREE_MEM_GB"
  shows "mem_inv (rdma_remote (crowd n k))" "spare (abs_mem (rdma_remote (crowd n k))) = {..<k}"
    "lent (abs_mem (rdma_remote (crowd n k))) i = None"
proof -
  have two: "(replicate k a @ replicate (MAX_FREE_MEM_GB - k) b) ! i = (if i < k then a else b)" if "i < MAX_FREE_MEM_GB" for a b i
    using that by (simp add: nth_append)
  show "mem_inv (rdma_remote (crowd n k))"
    using assms by (simp add: mem_inv_def crowd_def two) (simp add: CHUNK_MALLOCED_def CHUNK_EMPTY_def)
  have "CHUNK_EMPTY \<noteq> CHUNK_MALLOCED" by (simp add: CHUNK_MALLOCED_def CHUNK_EMPTY_def)
  then show "spare (abs_mem (rdma_remote (crowd n k))) = {..<k}"
    using assms by (auto simp: spare_abs free_chunk_def crowd_def two split: if_splits)
  show "lent (abs_mem (rdma_remote (crowd n k))) i = None" by (simp add: crowd_def abs_mem_def)
qed

lemma crowd_inv:
  assumes "n \<le> MAX_CLIENT" "k \<le> MAX_FREE_MEM_GB"
  shows "daemon_inv (crowd n k)"
proof -
  have "{i. i < length (conns (crowd n k)) \<and> conns (crowd n k) ! i \<noteq> None} = {..<n}"
    using assms by (auto simp: crowd_def split: if_splits)
  then have "count_if (\<lambda>x. x \<noteq> None) (conns (crowd n k)) = int n"
    unfolding count_if_def length_filter_conv_card by simp
  moreover have "slot_inv (crowd n k) c" if "c < MAX_CLIENT" for c
    using that by (simp add: slot_inv_def crowd_def conn_inv_def placed_def new_conn_def is_consts daemon_consts)
  moreover have "\<exists>c < MAX_CLIENT. conn_index conn = Some (int c) \<and> conns (crowd n k) ! c = Some cid"
    if "heap (crowd n k) cid = Some conn" for cid conn
    using that assms by (intro exI [of _ cid]) (auto simp: crowd_def placed_def split: if_splits)
  ultimately show ?thesis using crowd_mem(1)[OF assms(2), of n] by (simp add: daemon_inv_def) (simp add: crowd_def)
qed

lemma crowd_conn: "heap (crowd n k) c = (if c < n then Some ((placed (zero_msg QUERY) c)\<lparr>connected := True\<rparr>) else None)"
  "conn_num (crowd n k) = int n" "s_ctx (crowd n k) = Some 0"
  by (simp_all add: crowd_def)

lemma crowd_small:
  assumes "k \<le> 2"
  shows "daemon_inv (crowd 1 k)"
  using assms by (intro crowd_inv) (simp_all add: daemon_consts)

lemma crowd_two:
  "daemon_inv (crowd 32 2)" "spare (abs_mem (rdma_remote (crowd n 2))) = {0, 1}"
proof -
  show "daemon_inv (crowd 32 2)" by (rule crowd_inv) (simp_all add: daemon_consts)
  have "{..<2} = {0, 1 :: nat}" by auto
  then show "spare (abs_mem (rdma_remote (crowd n 2))) = {0, 1}" by (subst crowd_mem(2)) (simp_all add: daemon_consts)
qed

theorem on_completion_refines_witness:
  "\<exists>out d'. on_completion True ibv_ex 0 True (Wc_Recv ((zero_msg BIND)\<lparr>size_gb := 2\<rparr>)) (crowd 1 2) = Inr (out, d') \<and>
     daemon_inv d' \<and> lent (abs_mem (rdma_remote d')) 1 = Some 0 \<and>
     replies True ibv_ex 0 ((zero_msg BIND)\<lparr>size_gb := 2\<rparr>) (abs_mem (rdma_remote (crowd 1 2))) (abs_mem (rdma_remote d')) out"
proof -
  let ?m = "(zero_msg BIND)\<lparr>size_gb := 2\<rparr>" and ?l = "abs_mem (rdma_remote (crowd 1 2))"
  have "card (spare ?l) = 2" unfolding crowd_two by simp
  then have "fits 0 ?m ?l" by (simp add: fits_def) (simp add: zero_msg_def msg_wf_def)
  moreover have "Min (spare (lend_one 0 ?l)) = 1" unfolding spare_lend_one crowd_two by simp
  then have "lent (lend_one 0 (lend_one 0 ?l)) 1 = Some 0" using lend_one_lent [of 0 "lend_one 0 ?l"] by simp
  then have "lent (lender_step 0 ?m ?l) 1 = Some 0" by (simp add: lender_step_def zero_msg_def eval_nat_numeral)
  moreover have "heap (crowd 1 2) 0 = Some ((placed (zero_msg QUERY) 0)\<lparr>connected := True\<rparr>)" "daemon_inv (crowd 1 2)"
    using crowd_small [of 2] by (simp_all add: crowd_conn MAX_CLIENT_def)
  moreover have "conn_index ((placed (zero_msg QUERY) 0)\<lparr>connected := True\<rparr>) = Some (int 0)"
    "posted ((placed (zero_msg QUERY) 0)\<lparr>connected := True\<rparr>) \<noteq> 0" by (simp_all add: placed_def)
  ultimately show ?thesis
    using on_completion_refines [of "crowd 1 2" 0 "(placed (zero_msg QUERY) 0)\<lparr>connected := True\<rparr>" 0 ibv_ex ?m True]
      ibv_ex_good by auto
qed

theorem on_disconnect_refines_witness:
  "\<exists>d'. on_event ibv_ex 0 Disconnected (crowd 1 2) = Inr ([], d') \<and> daemon_inv d' \<and> heap d' 0 = None \<and> \<not> running d'"
  using on_disconnect_refines [of "crowd 1 2" 0 "(placed (zero_msg QUERY) 0)\<lparr>connected := True\<rparr>" 0 ibv_ex] crowd_small [of 2]
  by (auto simp: crowd_conn placed_def MAX_CLIENT_def)

theorem full_session_overflows_witness:
  "\<exists>d' d'' out. on_event ibv_ex 40 (Connect_Request 0 True (zero_msg QUERY)) (crowd 32 2) = Inr ([], d') \<and> conn_num d' = 33 \<and>
     on_event ibv_ex 40 Established d' = Inr (out, d'') \<and> on_event ibv_ex 40 Disconnected d'' = Inl Uninit_Read"
  using full_session_overflows [of "crowd 32 2" 40 ibv_ex 0 "zero_msg QUERY" "zero_msg BIND_SINGLE" True]
    crowd_two ibv_ex_good
  by (auto simp: crowd_conn MAX_CLIENT_def same_verbs_def zero_msg_def [of BIND_SINGLE])

theorem done_trusts_client_witness:
  "on_completion True ibv_ex 0 True (Wc_Recv ((zero_msg DONE)\<lparr>rkey := (replicate 32 0)[1 := 1]\<rparr>)) (crowd 1 2) = Inl Out_Of_Bounds"
proof -
  let ?m = "(zero_msg DONE)\<lparr>rkey := (replicate 32 0)[1 := 1]\<rparr>" and ?cn = "(placed (zero_msg QUERY) 0)\<lparr>connected := True\<rparr>"
  have "heap (crowd 1 2) 0 = Some ?cn" "daemon_inv (crowd 1 2)" "conn_index ?cn = Some (int 0)" "posted ?cn \<noteq> 0"
    using crowd_small [of 2] by (simp_all add: crowd_conn daemon_consts placed_def)
  moreover have "mtype ?m = DONE" "msg_wf ?m" "1 \<in> marked ?m" "lent (abs_mem (rdma_remote (crowd 1 2))) 1 \<noteq> Some 0"
    using crowd_mem(3)[of 2 1 1] by (simp_all add: zero_msg_def msg_wf_def marked_def is_consts daemon_consts)
  ultimately show ?thesis
    using done_trusts_client [of "crowd 1 2" 0 ?cn 0 ?m 1 True ibv_ex] by simp
qed

theorem bind_single_without_spare_witness:
  "\<exists>m' d'. on_completion True ibv_ex 0 True (Wc_Recv (zero_msg BIND_SINGLE)) (crowd 1 0) = Inr ([(0, m')], d') \<and>
     mem_size_gb (rdma_remote d') - mapped_size (rdma_remote d') = -1 \<and> \<not> daemon_inv d'"
proof -
  let ?cn = "(placed (zero_msg QUERY) 0)\<lparr>connected := True\<rparr>"
  have "heap (crowd 1 0) 0 = Some ?cn" "daemon_inv (crowd 1 0)" "conn_index ?cn = Some (int 0)" "posted ?cn \<noteq> 0"
    using crowd_small [of 0] by (simp_all add: crowd_conn daemon_consts placed_def)
  moreover have "spare (abs_mem (rdma_remote (crowd 1 0))) = {}" using crowd_mem(2)[of 0 1] by simp
  moreover have "mtype (zero_msg BIND_SINGLE) = BIND_SINGLE" by (simp add: zero_msg_def)
  ultimately show ?thesis
    using bind_single_without_spare [of "crowd 1 0" 0 ?cn 0 ibv_ex "zero_msg BIND_SINGLE" True] ibv_ex_good by auto
qed

end
