(* ===== verification/Daemon_Mem.thy ===== *)
theory Daemon_Mem
  imports Daemon_Inv
begin

text \<open>
  How much memory the daemon lends (\<open>rdma-common.c\<close>): reading the free memory from
  \<open>/proc/meminfo\<close>, the size of the session at start, the filter of the measurements, and the
  expansion of the session when memory is plentiful. Whether \<open>posix_memalign\<close> succeeds for a chunk
  is the parameter \<open>ok\<close>; the content of \<open>/proc/meminfo\<close> is a parameter, None when it cannot be opened.
\<close>

definition FREE_MEM_EVICT_THRESHOLD :: int where "FREE_MEM_EVICT_THRESHOLD = 8"
definition FREE_MEM_EXPAND_THRESHOLD :: int where "FREE_MEM_EXPAND_THRESHOLD = 16"
definition MEM_EVICT_HIT_THRESHOLD :: int where "MEM_EVICT_HIT_THRESHOLD = 1"
definition MEM_EXPAND_HIT_THRESHOLD :: int where "MEM_EXPAND_HIT_THRESHOLD = 20"
definition ONE_MB :: int where "ONE_MB = 1048576"

lemmas mem_consts = FREE_MEM_EVICT_THRESHOLD_def FREE_MEM_EXPAND_THRESHOLD_def MEM_EVICT_HIT_THRESHOLD_def
  MEM_EXPAND_HIT_THRESHOLD_def ONE_MB_def

section \<open>Free memory of the host\<close>

text \<open>\<open>fgets\<close> with room for \<open>n\<close> characters: the characters it stores and the rest of the file.\<close>

fun fgets :: "nat \<Rightarrow> string \<Rightarrow> string \<times> string" where
  "fgets n [] = ([], [])"
| "fgets 0 (ch # s) = ([], ch # s)"
| "fgets (Suc n) (ch # s) = (if ch = CHR 0x0A then ([ch], s) else let (line, rest) = fgets n s in (ch # line, rest))"

definition add_digit :: "char \<Rightarrow> int \<Rightarrow> int res" where
  "add_digit ch n =
     (let code = int (of_char ch)
      in if 48 \<le> code \<and> code \<le> 57
         then let n' = n * 10 + (code - 48) in if n' < 2 ^ 63 then Inr n' else Inl Overflow
         else Inr n)"

fun read_digits :: "string \<Rightarrow> int \<Rightarrow> int res" where
  "read_digits [] n = Inr n"
| "read_digits (ch # s) n = bind_res (add_digit ch n) (read_digits s)"

text \<open>The second line of the file, in a buffer of 60 characters that was cleared before.\<close>

definition get_free_mem :: "string option \<Rightarrow> int res" where
  "get_free_mem meminfo =
     (case meminfo of None \<Rightarrow> Inl Null_Deref
      | Some s \<Rightarrow>
          let (first_line, rest) = fgets 59 s; (line, rest) = fgets 59 rest;
              result = line @ replicate (60 - length line) (CHR 0x00)
          in read_digits result 0)"

definition free_mem_of :: "string option \<Rightarrow> int res" where
  "free_mem_of meminfo = bind_res (get_free_mem meminfo) (\<lambda>kb. Inr (sint (word_of_int (kb div ONE_MB) :: 32 word)))"

section \<open>Allocation of chunks\<close>

text \<open>
  \<open>posix_memalign\<close> leaves the pointer alone when it fails; its result is not tested and the chunk is
  cleared through the pointer.
\<close>

definition alloc_chunk :: "(nat \<Rightarrow> bool) \<Rightarrow> nat \<Rightarrow> rdma_remote_mem \<Rightarrow> rdma_remote_mem res" where
  "alloc_chunk ok i r =
     bind_res (arr_get (region_list r) (int i)) (\<lambda>p.
       case (if ok i then Live else p) of
         Null \<Rightarrow> Inl Null_Deref
       | Live \<Rightarrow> bind_res (arr_set (region_list r) (int i) Live) (\<lambda>regs.
                 bind_res (arr_set (malloc_map r) (int i) CHUNK_MALLOCED) (\<lambda>mm.
                   Inr (r\<lparr>region_list := regs, malloc_map := mm\<rparr>)))
       | _ \<Rightarrow> Inl Use_After_Free)"

text \<open>How much of the free memory the session takes at start.\<close>

definition lend_target :: "int \<Rightarrow> int" where
  "lend_target free_mem_g =
     (let n = (if FREE_MEM_EXPAND_THRESHOLD < free_mem_g
               then free_mem_g - (FREE_MEM_EVICT_THRESHOLD + FREE_MEM_EXPAND_THRESHOLD) div 2
               else if FREE_MEM_EVICT_THRESHOLD < free_mem_g then free_mem_g - FREE_MEM_EVICT_THRESHOLD
               else 0)
      in if int MAX_FREE_MEM_GB < n then int MAX_FREE_MEM_GB else n)"

definition clear_chunk_row :: "nat \<Rightarrow> rdma_remote_mem \<Rightarrow> rdma_remote_mem res" where
  "clear_chunk_row i r =
     bind_res (arr_set (conn_map r) (int i) (-1)) (\<lambda>cm.
     bind_res (arr_set (conn_chunk_map r) (int i) (-1)) (\<lambda>ccm.
     bind_res (arr_set (malloc_map r) (int i) CHUNK_EMPTY) (\<lambda>mm.
       Inr (r\<lparr>conn_map := cm, conn_chunk_map := ccm, malloc_map := mm\<rparr>))))"

definition clear_slot :: "nat \<Rightarrow> daemon \<Rightarrow> daemon res" where
  "clear_slot i d =
     bind_res (arr_set (conns d) (int i) None) (\<lambda>cs.
     bind_res (arr_set (conns_state d) (int i) CONN_IDLE) (\<lambda>sts.
       Inr (d\<lparr>conns := cs, conns_state := sts\<rparr>)))"

definition rdma_session_init :: "(nat \<Rightarrow> bool) \<Rightarrow> string option \<Rightarrow> daemon \<Rightarrow> daemon res" where
  "rdma_session_init ok meminfo d =
     bind_res (free_mem_of meminfo) (\<lambda>free_mem_g.
     bind_res (for_res clear_chunk_row [0..<MAX_FREE_MEM_GB] (rdma_remote d)) (\<lambda>r.
       let n = lend_target free_mem_g
       in bind_res (for_res (alloc_chunk ok) [0..<nat n] r) (\<lambda>r.
          bind_res (for_res clear_slot [0..<MAX_CLIENT] (d\<lparr>rdma_remote := r\<lparr>mem_size_gb := n, mapped_size := 0\<rparr>\<rparr>)) (\<lambda>d.
            Inr (d\<lparr>conn_num := 0\<rparr>)))))"

text \<open>The session before: a global variable, all zero.\<close>

definition zero_session :: daemon where
  "zero_session =
     \<lparr>conns = replicate MAX_CLIENT None, conns_state = replicate MAX_CLIENT CONN_IDLE, conn_num = 0,
      rdma_remote = \<lparr>region_list = replicate MAX_FREE_MEM_GB Null, mr_list = replicate MAX_FREE_MEM_GB Null, mem_size_gb = 0,
        mapped_size = 0, conn_map = replicate MAX_FREE_MEM_GB 0, malloc_map = replicate MAX_FREE_MEM_GB 0,
        conn_chunk_map = replicate MAX_FREE_MEM_GB 0\<rparr>,
      heap = (\<lambda>_. None), s_ctx = None, running = True\<rparr>"

section \<open>The measurement filter\<close>

text \<open>
  IEEE arithmetic on integers scaled by \<open>2 ^ 53\<close>: \<open>fl p\<close> rounds to \<open>p\<close> significant bits, to nearest,
  ties to even. The constant 0.7 is the double \<open>6305039478318694 / 2 ^ 53\<close>; its complement is a float.
\<close>

fun bitlen :: "nat \<Rightarrow> nat" where
  "bitlen n = (if n = 0 then 0 else Suc (bitlen (n div 2)))"

declare bitlen.simps [simp del]

definition rne :: "nat \<Rightarrow> nat \<Rightarrow> nat" where
  "rne n k = (let q = n div 2 ^ k; r = n mod 2 ^ k
     in if 2 * r < 2 ^ k \<or> (2 * r = 2 ^ k \<and> even q) then q else q + 1)"

definition fl :: "nat \<Rightarrow> int \<Rightarrow> int" where
  "fl p x = (let n = nat \<bar>x\<bar>; b = bitlen n
     in if b \<le> p then x else sgn x * int (rne n (b - p) * 2 ^ (b - p)))"

definition CURR_FREE_MEM_WEIGHT :: int where "CURR_FREE_MEM_WEIGHT = 6305039478318694"

definition last_free_mem_weight :: int where "last_free_mem_weight = fl 24 (2 ^ 53 - CURR_FREE_MEM_WEIGHT)"

definition filter_free_mem :: "int \<Rightarrow> int \<Rightarrow> int" where
  "filter_free_mem free_mem_g last_free_mem_g =
     (let x = fl 53 (fl 53 (CURR_FREE_MEM_WEIGHT * free_mem_g) + fl 24 (fl 24 last_free_mem_g * last_free_mem_weight))
      in sgn x * (\<bar>x\<bar> div 2 ^ 53))"

section \<open>Expansion\<close>

fun expand_loop :: "(nat \<Rightarrow> bool) \<Rightarrow> int \<Rightarrow> int \<Rightarrow> nat list \<Rightarrow> rdma_remote_mem \<Rightarrow> rdma_remote_mem res" where
  "expand_loop ok expand_size_g j [] r = Inr r"
| "expand_loop ok expand_size_g j (i # is) r =
     bind_res (arr_get (malloc_map r) (int i)) (\<lambda>m.
       if m = CHUNK_EMPTY
       then bind_res (alloc_chunk ok i r) (\<lambda>r.
              if j + 1 = expand_size_g then Inr r else expand_loop ok expand_size_g (j + 1) is r)
       else expand_loop ok expand_size_g j is r)"

definition expand_size :: "int \<Rightarrow> rdma_remote_mem \<Rightarrow> int" where
  "expand_size last_free_mem_g r =
     (let n = last_free_mem_g - FREE_MEM_EXPAND_THRESHOLD
      in if int MAX_FREE_MEM_GB < n + mem_size_gb r then int MAX_FREE_MEM_GB - mem_size_gb r else n)"

definition expand_mem :: "(nat \<Rightarrow> bool) \<Rightarrow> int \<Rightarrow> rdma_remote_mem \<Rightarrow> rdma_remote_mem res" where
  "expand_mem ok n r =
     bind_res (expand_loop ok n 0 [0..<MAX_FREE_MEM_GB] r) (\<lambda>r. Inr (r\<lparr>mem_size_gb := mem_size_gb r + n\<rparr>))"

section \<open>Reading the file\<close>

lemma read_digits_append: "read_digits (s @ s') n = bind_res (read_digits s n) (read_digits s')"
proof (induction s arbitrary: n)
  case (Cons ch s)
  then show ?case by (cases "add_digit ch n") simp_all
qed simp

lemma read_digits_none: "list_all (\<lambda>ch. \<not> is_digit ch) s \<Longrightarrow> read_digits s n = Inr n"
  by (induction s) (auto simp: add_digit_def is_digit_def Let_def)

lemma add_digit_char: "k < 10 \<Longrightarrow> n * 10 + int k < 2 ^ 63 \<Longrightarrow> add_digit (char_of (48 + k)) n = Inr (n * 10 + int k)"
  by (simp add: add_digit_def Let_def)

lemma read_show_nat: "int n < 2 ^ 63 \<Longrightarrow> read_digits (show_nat n) 0 = Inr (int n)"
proof (induction n rule: show_nat.induct)
  case (1 n)
  show ?case
  proof (cases "n < 10")
    case True
    then show ?thesis using add_digit_char [of n 0] by (simp add: show_nat.simps [of n])
  next
    case False
    then have "read_digits (show_nat (n div 10)) 0 = Inr (int (n div 10))" using 1 by simp
    moreover have eq: "int (n div 10) * 10 + int (n mod 10) = int n" by (simp add: zmod_int zdiv_int)
    moreover have "add_digit (char_of (48 + n mod 10)) (int (n div 10)) = Inr (int n)"
      using add_digit_char [of "n mod 10" "int (n div 10)"] 1(2) unfolding eq by simp
    ultimately show ?thesis using False by (simp add: show_nat.simps [of n] read_digits_append)
  qed
qed

lemma fgets_line: "CHR 0x0A \<notin> set l \<Longrightarrow> length l < n \<Longrightarrow> fgets n (l @ CHR 0x0A # rest) = (l @ [CHR 0x0A], rest)"
proof (induction l arbitrary: n)
  case Nil
  then show ?case by (cases n) simp_all
next
  case (Cons ch l)
  then obtain k where "n = Suc k" "length l < k" by (cases n) simp_all
  with Cons show ?case by auto
qed

text \<open>
  C39: The daemon reads the free memory it is shown. For a file whose second line is a name without
  digits, the decimal notation of \<open>n\<close> and a unit, in lines of less than 59 characters, the result is
  \<open>n\<close>, for every \<open>n\<close> in the range of a 64-bit \<open>long\<close>.
\<close>

theorem get_free_mem_roundtrip:
  assumes first: "length l1 < 59" "CHR 0x0A \<notin> set l1"
    and line: "list_all (\<lambda>ch. \<not> is_digit ch) name" "list_all (\<lambda>ch. \<not> is_digit ch) unit"
      "CHR 0x0A \<notin> set name" "CHR 0x0A \<notin> set unit" "length (name @ show_nat n @ unit) < 59"
    and n: "int n < 2 ^ 63"
  shows "get_free_mem (Some (l1 @ CHR 0x0A # (name @ show_nat n @ unit) @ CHR 0x0A # rest)) = Inr (int n)"
proof -
  have nl: "CHR 0x0A \<notin> set (name @ show_nat n @ unit)"
    using line(3,4) show_nat_chars [of n] no_digit_newline(1) by (auto simp: list_all_iff)
  have "fgets 59 (l1 @ CHR 0x0A # (name @ show_nat n @ unit) @ CHR 0x0A # rest) =
      (l1 @ [CHR 0x0A], (name @ show_nat n @ unit) @ CHR 0x0A # rest)"
    using fgets_line [OF first(2,1)] .
  moreover have "fgets 59 ((name @ show_nat n @ unit) @ CHR 0x0A # rest) = ((name @ show_nat n @ unit) @ [CHR 0x0A], rest)"
    using fgets_line [OF nl line(5)] .
  moreover have "read_digits (replicate k (CHR 0x00)) (int n) = Inr (int n)" "add_digit (CHR 0x0A) (int n) = Inr (int n)" for k
    by (rule read_digits_none) (simp_all add: no_digit_newline list_all_iff add_digit_def)
  ultimately show ?thesis
    using read_digits_none [OF line(1)] read_digits_none [OF line(2)] read_show_nat [OF n]
    by (simp add: get_free_mem_def read_digits_append)
qed

theorem get_free_mem_roundtrip_witness:
  "get_free_mem (Some (''MemTotal: 32 kB'' @ CHR 0x0A # (''MemFree: '' @ show_nat 25 @ '' kB'') @ CHR 0x0A # [])) = Inr 25"
  using get_free_mem_roundtrip [of "''MemTotal: 32 kB''" "''MemFree: ''" "'' kB''" 25 "[]"]
  by (simp add: is_digit_def show_nat.simps)

section \<open>The session at start\<close>

text \<open>An array of which the first \<open>j\<close> entries are written.\<close>

definition fill :: "nat \<Rightarrow> nat \<Rightarrow> 'a \<Rightarrow> 'a \<Rightarrow> 'a list" where
  "fill n j a b = replicate j a @ replicate (n - j) b"

lemma fill_simps [simp]: "j \<le> n \<Longrightarrow> length (fill n j a b) = n" "fill n 0 a b = replicate n b" "fill n n a b = replicate n a"
  "i < n \<Longrightarrow> fill n j a b ! i = (if i < j then a else b)"
  by (auto simp: fill_def nth_append)

lemma fill_update [simp]: "j < n \<Longrightarrow> (fill n j a b)[j := a] = fill n (Suc j) a b"
  by (rule nth_equalityI) (auto simp: nth_list_update less_Suc_eq)

lemma clear_rows:
  "for_res clear_chunk_row [0..<MAX_FREE_MEM_GB] (rdma_remote zero_session) = Inr (rdma_remote (crowd 0 0))"
proof -
  let ?P = "\<lambda>j r. r = (rdma_remote zero_session)\<lparr>conn_map := fill MAX_FREE_MEM_GB j (-1) 0,
     conn_chunk_map := fill MAX_FREE_MEM_GB j (-1) 0, malloc_map := fill MAX_FREE_MEM_GB j CHUNK_EMPTY 0\<rparr>"
  have "\<exists>r. for_res clear_chunk_row [0..<MAX_FREE_MEM_GB] (rdma_remote zero_session) = Inr r \<and> ?P MAX_FREE_MEM_GB r"
    by (rule for_res_inv [where P = ?P]) (simp_all add: zero_session_def clear_chunk_row_def)
  then show ?thesis by (simp add: zero_session_def crowd_def)
qed

lemma alloc_chunks:
  assumes "k \<le> MAX_FREE_MEM_GB" "\<forall>i < k. ok i"
  shows "for_res (alloc_chunk ok) [0..<k] (rdma_remote (crowd 0 0)) = Inr ((rdma_remote (crowd 0 k))\<lparr>mem_size_gb := 0\<rparr>)"
proof -
  let ?P = "\<lambda>j r. r = (rdma_remote (crowd 0 0))\<lparr>region_list := fill MAX_FREE_MEM_GB j Live Null,
     malloc_map := fill MAX_FREE_MEM_GB j CHUNK_MALLOCED CHUNK_EMPTY\<rparr>"
  have "\<exists>r. for_res (alloc_chunk ok) [0..<k] (rdma_remote (crowd 0 0)) = Inr r \<and> ?P k r"
    by (rule for_res_inv [where P = ?P]) (use assms in \<open>simp_all add: crowd_def alloc_chunk_def\<close>)
  then show ?thesis by (simp add: crowd_def fill_def)
qed

lemma clear_slots:
  "for_res clear_slot [0..<MAX_CLIENT] (zero_session\<lparr>rdma_remote := r\<rparr>) = Inr (zero_session\<lparr>rdma_remote := r\<rparr>)"
proof -
  let ?P = "\<lambda>j d. d = zero_session\<lparr>rdma_remote := r\<rparr>"
  have "\<exists>d. for_res clear_slot [0..<MAX_CLIENT] (zero_session\<lparr>rdma_remote := r\<rparr>) = Inr d \<and> ?P MAX_CLIENT d"
    by (rule for_res_inv [where P = ?P]) (simp_all add: zero_session_def clear_slot_def list_update_same_conv)
  then show ?thesis by simp
qed

lemma lend_target_bounds:
  "0 \<le> lend_target g" "lend_target g \<le> 32" "lend_target g = min 32 (if 16 < g then g - 12 else max 0 (g - 8))"
  "0 \<le> g \<Longrightarrow> min g 8 \<le> g - lend_target g"
  by (simp_all add: lend_target_def mem_consts MAX_FREE_MEM_GB_def)

lemma daemon_inv_ctx: "daemon_inv (d\<lparr>s_ctx := x\<rparr>) = daemon_inv d"
proof -
  have "slot_inv (d\<lparr>s_ctx := x\<rparr>) c = slot_inv d c" for c by (cases "conns d ! c") (simp_all add: slot_inv_def)
  then show ?thesis by (simp add: daemon_inv_def)
qed

lemma rdma_session_init_eq:
  assumes kb: "get_free_mem meminfo = Inr kb" "0 \<le> kb" "kb < 2 ^ 51" and ok: "\<forall>i < MAX_FREE_MEM_GB. ok i"
  shows "rdma_session_init ok meminfo zero_session = Inr ((crowd 0 (nat (lend_target (kb div ONE_MB))))\<lparr>s_ctx := None\<rparr>)"
proof -
  let ?g = "kb div ONE_MB"
  have "0 \<le> ?g" "?g < 2 ^ 31" using kb(2,3) by (simp_all add: ONE_MB_def div_less_iff_less_mult)
  then have "sint (word_of_int ?g :: 32 word) = ?g" by transfer (simp add: signed_take_bit_int_eq_self)
  then have g: "free_mem_of meminfo = Inr ?g" using kb(1) by (simp add: free_mem_of_def)
  have k: "nat (lend_target ?g) \<le> MAX_FREE_MEM_GB" "int (nat (lend_target ?g)) = lend_target ?g"
    using lend_target_bounds(1,2)[of ?g] by (simp_all add: MAX_FREE_MEM_GB_def)
  then have "for_res (alloc_chunk ok) [0..<nat (lend_target ?g)] (rdma_remote (crowd 0 0)) =
      Inr ((rdma_remote (crowd 0 (nat (lend_target ?g))))\<lparr>mem_size_gb := 0\<rparr>)"
    using ok by (intro alloc_chunks) simp_all
  then show ?thesis
    using g k clear_rows by (simp add: rdma_session_init_def Let_def clear_slots) (simp add: crowd_def zero_session_def map_replicate_const)
qed

text \<open>
  C37: The session at start. With less than two terabytes free and an allocator that succeeds, the
  session is initialised and all its tables agree; the number of chunks it lends is given by the free
  memory (all but 12 GB of it, all but 8 GB when not more than 16 GB are free, at most 32), so that
  the free memory does not fall below the eviction threshold of 8 GB.
\<close>

theorem rdma_session_init_spec:
  assumes "get_free_mem meminfo = Inr kb" "0 \<le> kb" "kb < 2 ^ 51" "\<forall>i < MAX_FREE_MEM_GB. ok i"
  shows "\<exists>d k. rdma_session_init ok meminfo zero_session = Inr d \<and> daemon_inv d \<and> heap d = (\<lambda>_. None) \<and>
     owned (abs_mem (rdma_remote d)) = {..<k} \<and> spare (abs_mem (rdma_remote d)) = {..<k} \<and>
     (let g = kb div ONE_MB in int k = min 32 (if 16 < g then g - 12 else max 0 (g - 8)) \<and> min g 8 \<le> g - int k)"
proof -
  define g where "g = kb div ONE_MB"
  have g: "0 \<le> g" using assms(2) by (simp add: g_def ONE_MB_def)
  let ?k = "nat (lend_target g)" and ?d = "(crowd 0 (nat (lend_target g)))\<lparr>s_ctx := None\<rparr>"
  have k: "?k \<le> MAX_FREE_MEM_GB" "int ?k = lend_target g" using lend_target_bounds(1,2)[of g] by (simp_all add: MAX_FREE_MEM_GB_def)
  have "owned (abs_mem (rdma_remote (crowd 0 ?k))) = {..<?k}"
    using k(1) by (auto simp: abs_mem_def crowd_def fill_def [symmetric] CHUNK_MALLOCED_def CHUNK_EMPTY_def split: if_splits)
  then have "owned (abs_mem (rdma_remote ?d)) = {..<?k}" "spare (abs_mem (rdma_remote ?d)) = {..<?k}" "heap ?d = (\<lambda>_. None)"
    using crowd_mem(2)[OF k(1), of 0] by (simp_all add: crowd_conn fun_eq_iff)
  moreover have "daemon_inv ?d" using crowd_inv [OF _ k(1)] by (simp add: daemon_inv_ctx)
  moreover have "rdma_session_init ok meminfo zero_session = Inr ?d" using rdma_session_init_eq [OF assms] by (simp only: g_def)
  moreover have "int ?k = min 32 (if 16 < g then g - 12 else max 0 (g - 8)) \<and> min g 8 \<le> g - int ?k"
    unfolding k(2) using lend_target_bounds(3,4)[of g] g by simp
  ultimately show ?thesis unfolding g_def [symmetric] Let_def by blast
qed

definition meminfo_ex :: string where
  "meminfo_ex = ''MemTotal: 1 kB'' @ CHR 0x0A # ''MemFree: 20971520 kB'' @ CHR 0x0A # []"

lemma meminfo_ex: "get_free_mem (Some meminfo_ex) = Inr 20971520"
proof -
  have "read_digits ''MemFree: 20971520 kB'' 0 = Inr 20971520" "read_digits [CHR 0x0A] n = Inr n" for n
    by (simp_all add: add_digit_def)
  moreover have "read_digits (replicate k (CHR 0x00)) n = Inr n" for k n
    by (rule read_digits_none) (simp add: no_digit_newline list_all_iff)
  ultimately show ?thesis
    using fgets_line [of "''MemTotal: 1 kB''" 59 "''MemFree: 20971520 kB'' @ CHR 0x0A # []"]
      fgets_line [of "''MemFree: 20971520 kB''" 59 "[]"]
    by (simp add: get_free_mem_def meminfo_ex_def read_digits_append del: read_digits.simps append.simps)
qed

theorem rdma_session_init_spec_witness:
  "\<exists>d k. rdma_session_init (\<lambda>_. True) (Some meminfo_ex) zero_session = Inr d \<and>
     daemon_inv d \<and> spare (abs_mem (rdma_remote d)) = {..<k} \<and> int k = 8"
proof -
  have g: "(20971520 :: int) div ONE_MB = 20" by (simp add: ONE_MB_def)
  have "(0 :: int) \<le> 20971520" "(20971520 :: int) < 2 ^ 51" "\<forall>i < MAX_FREE_MEM_GB. True" by simp_all
  from rdma_session_init_spec [OF meminfo_ex this] show ?thesis
    unfolding Let_def g by (elim exE conjE) (intro exI conjI, assumption+, simp)
qed

section \<open>The filter\<close>

lemma bitlen_0 [simp]: "bitlen 0 = 0"
  by (simp add: bitlen.simps)

lemma bitlen_bounds: "0 < n \<Longrightarrow> 2 ^ (bitlen n - 1) \<le> n" "n < 2 ^ bitlen n"
proof -
  have "(0 < n \<longrightarrow> 2 ^ (bitlen n - 1) \<le> n) \<and> n < 2 ^ bitlen n"
  proof (induction n rule: bitlen.induct)
    case (1 n)
    show ?case
    proof (cases "n = 0")
      case False
      show ?thesis
      proof (cases "n div 2 = 0")
        case True
        then have "n = 1" using False by simp
        then show ?thesis by (simp add: bitlen.simps)
      next
        case nz: False
        then have IH: "2 ^ (bitlen (n div 2) - 1) \<le> n div 2" "n div 2 < 2 ^ bitlen (n div 2)" using 1 False by simp_all
        have b: "bitlen n = Suc (bitlen (n div 2))" "bitlen (n div 2) = Suc (bitlen (n div 2) - 1)"
          using False nz by (simp_all add: bitlen.simps [of n] bitlen.simps [of "n div 2"])
        have "2 * 2 ^ (bitlen (n div 2) - 1) \<le> n" "n < 2 * 2 ^ bitlen (n div 2)" using IH by simp_all
        then show ?thesis using b by (metis diff_Suc_1 power_Suc)
      qed
    qed simp
  qed
  then show "0 < n \<Longrightarrow> 2 ^ (bitlen n - 1) \<le> n" "n < 2 ^ bitlen n" by simp_all
qed

text \<open>The relative error of rounding to \<open>p\<close> bits is at most \<open>2 ^ -p\<close>.\<close>

lemma rne_error: "2 * \<bar>int (rne n k * 2 ^ k) - int n\<bar> \<le> 2 ^ k"
proof -
  let ?q = "n div 2 ^ k" and ?r = "n mod 2 ^ k"
  have n: "int n = int ?q * 2 ^ k + int ?r" 
    using arg_cong [OF div_mult_mod_eq [of n "2 ^ k"], of int] by (simp only: of_nat_add of_nat_mult of_nat_power of_nat_numeral)
  have r: "int ?r < 2 ^ k" by (simp add: zmod_int)
  show ?thesis
  proof (cases "2 * ?r < 2 ^ k \<or> (2 * ?r = 2 ^ k \<and> even ?q)")
    case True
    then have "rne n k = ?q" "2 * ?r \<le> 2 ^ k" by (auto simp: rne_def Let_def)
    moreover from this(2) have "2 * int ?r \<le> 2 ^ k"
      unfolding of_nat_le_iff [symmetric, where ?'a = int] by simp
    ultimately show ?thesis unfolding n by simp
  next
    case False
    then have "rne n k = ?q + 1" "2 ^ k \<le> 2 * ?r" by (auto simp: rne_def Let_def)
    moreover from this(2) have "2 ^ k \<le> 2 * int ?r"
      unfolding of_nat_le_iff [symmetric, where ?'a = int] by simp
    moreover have "int ((?q + 1) * 2 ^ k) - (int ?q * 2 ^ k + int ?r) = 2 ^ k - int ?r" by (simp add: algebra_simps)
    ultimately show ?thesis unfolding n using r by simp
  qed
qed

lemma fl_error: "0 \<le> x \<Longrightarrow> \<bar>fl p x - x\<bar> * 2 ^ p \<le> x"
proof -
  assume x: "0 \<le> x"
  let ?n = "nat x" and ?b = "bitlen (nat x)"
  show ?thesis
  proof (cases "?b \<le> p")
    case True
    then show ?thesis using x by (simp add: fl_def)
  next
    case False
    then have n: "0 < ?n" by (intro gr0I) simp
    then have pos: "0 < x" by simp
    let ?k = "?b - p"
    have "2 * \<bar>fl p x - x\<bar> \<le> 2 ^ ?k"
      using rne_error [of ?n ?k] False x pos by (simp add: fl_def Let_def)
    then have "2 * \<bar>fl p x - x\<bar> * 2 ^ p \<le> 2 ^ ?k * 2 ^ p" by simp
    also have "\<dots> = 2 ^ ?b" using False by (simp add: power_add [symmetric])
    also have "\<dots> = 2 * 2 ^ (?b - 1)" using False by (metis Suc_diff_1 not_le gr_zeroI le0 power_Suc)
    also have "\<dots> \<le> 2 * x"
      using bitlen_bounds(1)[of ?n] n pos by (simp add: le_nat_iff)
    finally show ?thesis by simp
  qed
qed

lemma fl_bounds: "0 \<le> x \<Longrightarrow> (x - fl p x) * 2 ^ p \<le> x \<and> (fl p x - x) * 2 ^ p \<le> x"
proof -
  assume x: "0 \<le> x"
  have "(x - fl p x) * 2 ^ p \<le> \<bar>fl p x - x\<bar> * 2 ^ p" "(fl p x - x) * 2 ^ p \<le> \<bar>fl p x - x\<bar> * 2 ^ p"
    by (intro mult_right_mono; simp)+
  with fl_error [OF x, of p] show ?thesis by linarith
qed

lemma fl_exact: "0 \<le> x \<Longrightarrow> x < 2 ^ p \<Longrightarrow> fl p x = x"
proof -
  assume x: "0 \<le> x" "x < 2 ^ p"
  have "bitlen (nat x) \<le> p"
  proof (cases "nat x = 0")
    case False
    then have "2 ^ (bitlen (nat x) - 1) \<le> nat x" using bitlen_bounds(1)[of "nat x"] by blast
    also have "\<dots> < 2 ^ p" using x by (simp add: nat_less_iff)
    finally have "bitlen (nat x) - 1 < p" by simp
    then show ?thesis by simp
  qed simp
  then show ?thesis using x by (simp add: fl_def)
qed

lemma last_weight: "last_free_mem_weight = 2702159883796480"
  by (simp add: last_free_mem_weight_def CURR_FREE_MEM_WEIGHT_def fl_def rne_def bitlen.simps Let_def)

text \<open>
  C38: The filtered measurement lies between the last value and the new one, up to one gigabyte below
  for the loss of the floating point arithmetic, for all amounts up to 2^20 GB. In particular the
  filter cannot report more memory than was ever measured.
\<close>

theorem filter_free_mem_bounds:
  assumes "0 \<le> f" "f \<le> 2 ^ 20" "0 \<le> m" "m \<le> 2 ^ 20"
  shows "min f m - 1 \<le> filter_free_mem f m \<and> filter_free_mem f m \<le> max f m"
proof -
  let ?W = "6305039478318694 :: int" and ?V = "2702159883796480 :: int"
  define t1 t2 s where "t1 = fl 53 (?W * f)" and "t2 = fl 24 (m * ?V)" and "s = fl 53 (t1 + t2)"
  have e1: "(?W * f - t1) * 2 ^ 53 \<le> ?W * f \<and> (t1 - ?W * f) * 2 ^ 53 \<le> ?W * f"
    unfolding t1_def using assms(1) by (intro fl_bounds) simp
  have e2: "(m * ?V - t2) * 2 ^ 24 \<le> m * ?V \<and> (t2 - m * ?V) * 2 ^ 24 \<le> m * ?V"
    unfolding t2_def using assms(3) by (intro fl_bounds) simp
  have t0: "0 \<le> t1 + t2" using e1 e2 assms by simp
  then have e3: "(t1 + t2 - s) * 2 ^ 53 \<le> t1 + t2 \<and> (s - (t1 + t2)) * 2 ^ 53 \<le> t1 + t2" unfolding s_def by (intro fl_bounds)
  have s0: "0 \<le> s" using e3 t0 by simp
  have eq: "filter_free_mem f m = s div 2 ^ 53"
    using s0 fl_exact [of m 24] assms
    by (simp add: filter_free_mem_def last_weight CURR_FREE_MEM_WEIGHT_def t1_def t2_def s_def Let_def sgn_if)
  have up: "s < (max f m + 1) * 2 ^ 53" and lo: "(min f m - 1) * 2 ^ 53 \<le> s"
    using e1 e2 e3 assms by (simp_all add: min_def max_def)
  have "s div 2 ^ 53 < max f m + 1" using up by (simp add: div_less_iff_less_mult)
  moreover have "min f m - 1 \<le> s div 2 ^ 53" using zdiv_mono1 [OF lo, of "2 ^ 53"] by simp
  ultimately show ?thesis unfolding eq by linarith
qed

theorem filter_free_mem_bounds_witness: "29 \<le> filter_free_mem 30 70 \<and> filter_free_mem 30 70 \<le> 70"
  using filter_free_mem_bounds [of 30 70] by simp

section \<open>Expansion\<close>

definition grown :: "nat set \<Rightarrow> rdma_remote_mem \<Rightarrow> lender" where
  "grown M r = (abs_mem r)\<lparr>owned := owned (abs_mem r) \<union> M\<rparr>"

definition empty_rows :: "rdma_remote_mem \<Rightarrow> nat set" where
  "empty_rows r = {i. i < MAX_FREE_MEM_GB \<and> malloc_map r ! i \<noteq> CHUNK_MALLOCED}"

text \<open>The counter of the loop runs behind by \<open>n\<close> chunks.\<close>

definition owe :: "int \<Rightarrow> rdma_remote_mem \<Rightarrow> rdma_remote_mem" where
  "owe n r = r\<lparr>mem_size_gb := mem_size_gb r + n\<rparr>"

lemma owe_simps [simp]: "abs_mem (owe n r) = abs_mem r" "malloc_map (owe n r) = malloc_map r" "conn_map (owe n r) = conn_map r"
  "owe 0 r = r" "empty_rows (owe n r) = empty_rows r"
  by (simp_all add: owe_def abs_mem_def empty_rows_def cong: if_cong)

definition alloced :: "nat \<Rightarrow> rdma_remote_mem \<Rightarrow> rdma_remote_mem" where
  "alloced i r = r\<lparr>region_list := (region_list r)[i := Live], malloc_map := (malloc_map r)[i := CHUNK_MALLOCED]\<rparr>"

lemma alloc_chunk_ok:
  assumes r: "mem_inv (owe n r)" and i: "i < MAX_FREE_MEM_GB" "malloc_map r ! i \<noteq> CHUNK_MALLOCED"
  shows "ok i \<Longrightarrow> alloc_chunk ok i r = Inr (alloced i r)" "mem_inv (owe (n + 1) (alloced i r))"
    "abs_mem (alloced i r) = grown {i} r" "empty_rows (alloced i r) = empty_rows r - {i}"
proof -
  have len: "length (region_list r) = MAX_FREE_MEM_GB" "length (malloc_map r) = MAX_FREE_MEM_GB" "length (conn_map r) = MAX_FREE_MEM_GB"
    using r by (simp_all add: mem_inv_def owe_def)
  have un: "lent_at r i = -1" using mem_invD(10)[OF r i(1)] i(2) by auto
  show "ok i \<Longrightarrow> alloc_chunk ok i r = Inr (alloced i r)" using len i by (simp add: alloc_chunk_def alloced_def)
  show "mem_inv (owe (n + 1) (alloced i r))"
    using r i len un by (auto simp: mem_inv_def owe_def alloced_def nth_list_update count_if_update)
  show "abs_mem (alloced i r) = grown {i} r" "empty_rows (alloced i r) = empty_rows r - {i}"
    using i(1) len by (auto simp: abs_mem_def grown_def alloced_def empty_rows_def nth_list_update cong: if_cong split: if_splits)
qed

lemma expand_loop_ok:
  assumes "mem_inv (owe j r)" "m \<le> MAX_FREE_MEM_GB" "\<forall>i \<in> empty_rows r. m \<le> i" "j < n" "n - j \<le> int (card (empty_rows r))"
    "\<forall>i < MAX_FREE_MEM_GB. ok i"
  shows "\<exists>r' M. expand_loop ok n j [m..<MAX_FREE_MEM_GB] r = Inr r' \<and> mem_inv (owe n r') \<and> abs_mem r' = grown M r \<and>
     M \<subseteq> empty_rows r \<and> int (card M) = n - j"
  using assms
proof (induction "MAX_FREE_MEM_GB - m" arbitrary: m j r)
  case 0
  then have "empty_rows r = {}" by (auto simp: empty_rows_def)
  then show ?case using 0 by simp
next
  case (Suc k)
  then have m: "m < MAX_FREE_MEM_GB" by simp
  have fin: "finite (empty_rows r)" by (simp add: empty_rows_def)
  have get: "arr_get (malloc_map r) (int m) = Inr (malloc_map r ! m)" using Suc.prems(1) m by (simp add: mem_inv_def owe_def)
  have cases: "malloc_map r ! m = CHUNK_EMPTY \<longleftrightarrow> m \<in> empty_rows r"
    using mem_invD(8)[OF Suc.prems(1) m] m by (auto simp: empty_rows_def CHUNK_EMPTY_def CHUNK_MALLOCED_def)
  show ?case
  proof (cases "m \<in> empty_rows r")
    case False
    then have "\<forall>i \<in> empty_rows r. Suc m \<le> i" using Suc.prems(3) by (metis Suc_leI order_le_less)
    then have "\<exists>r' M. expand_loop ok n j [Suc m..<MAX_FREE_MEM_GB] r = Inr r' \<and> mem_inv (owe n r') \<and> abs_mem r' = grown M r \<and>
        M \<subseteq> empty_rows r \<and> int (card M) = n - j"
      using Suc.hyps(2) Suc.prems m by (intro Suc.hyps(1)) simp_all
    then show ?thesis using False get cases m by (simp add: upt_conv_Cons)
  next
    case True
    then have ne: "malloc_map r ! m \<noteq> CHUNK_MALLOCED" "ok m" using Suc.prems(6) by (simp_all add: empty_rows_def)
    note one = alloc_chunk_ok [OF Suc.prems(1) m ne(1)]
    have card: "int (card (empty_rows (alloced m r))) = int (card (empty_rows r)) - 1"
      using True fin unfolding one(4) by (simp add: card_Diff_singleton card_gt_0_iff of_nat_diff Suc_leI) (metis One_nat_def Suc_leI card_gt_0_iff emptyE of_nat_diff of_nat_1)
    have step: "expand_loop ok n j [m..<MAX_FREE_MEM_GB] r =
        (if j + 1 = n then Inr (alloced m r) else expand_loop ok n (j + 1) [Suc m..<MAX_FREE_MEM_GB] (alloced m r))"
      using True get cases m one(1)[of ok] ne(2) by (simp add: upt_conv_Cons)
    show ?thesis
    proof (cases "j + 1 = n")
      case eq: True
      then show ?thesis using step one(2-4) True by (intro exI [of _ "alloced m r"] exI [of _ "{m}"]) auto
    next
      case False
      have "\<forall>i \<in> empty_rows (alloced m r). Suc m \<le> i" unfolding one(4) using Suc.prems(3) by (auto simp: Suc_le_eq order_le_less)
      then have "\<exists>r' M. expand_loop ok n (j + 1) [Suc m..<MAX_FREE_MEM_GB] (alloced m r) = Inr r' \<and> mem_inv (owe n r') \<and>
          abs_mem r' = grown M (alloced m r) \<and> M \<subseteq> empty_rows (alloced m r) \<and> int (card M) = n - (j + 1)"
        using Suc.hyps(2) Suc.prems m False card one(2) by (intro Suc.hyps(1)) simp_all
      then obtain r' M where r': "expand_loop ok n (j + 1) [Suc m..<MAX_FREE_MEM_GB] (alloced m r) = Inr r'" "mem_inv (owe n r')"
        "abs_mem r' = grown M (alloced m r)" "M \<subseteq> empty_rows (alloced m r)" "int (card M) = n - (j + 1)" by blast
      have "m \<notin> M" "finite M" using r'(4) one(4) fin by (auto intro: finite_subset)
      then show ?thesis
        using step False r' one(3,4) True by (intro exI [of _ r'] exI [of _ "insert m M"]) (auto simp: grown_def)
    qed
  qed
qed

lemma expand_loop_none:
  assumes "mem_inv r" "empty_rows r = {}" "\<forall>i \<in> set is. i < MAX_FREE_MEM_GB"
  shows "expand_loop ok n j is r = Inr r"
  using assms(3)
proof (induction "is")
  case (Cons i "is")
  then have "malloc_map r ! i = CHUNK_MALLOCED" "arr_get (malloc_map r) (int i) = Inr (malloc_map r ! i)"
    using assms(1,2) by (auto simp: empty_rows_def mem_inv_def)
  then show ?case using Cons by (simp add: CHUNK_MALLOCED_def CHUNK_EMPTY_def)
qed simp

lemma empty_rows_count:
  assumes "mem_inv r"
  shows "int (card (empty_rows r)) = int MAX_FREE_MEM_GB - mem_size_gb r" "0 \<le> mem_size_gb r"
proof -
  have "int (card (empty_rows r)) = count_if (\<lambda>m. \<not> m = CHUNK_MALLOCED) (malloc_map r)"
    using mem_invD(4)[OF assms] by (simp add: empty_rows_def count_if_def length_filter_conv_card)
  moreover have "count_if (\<lambda>m. m = CHUNK_MALLOCED) (malloc_map r) + count_if (\<lambda>m. \<not> m = CHUNK_MALLOCED) (malloc_map r) = int (length (malloc_map r))"
    unfolding count_if_def by (metis of_nat_add sum_length_filter_compl)
  ultimately show "int (card (empty_rows r)) = int MAX_FREE_MEM_GB - mem_size_gb r" "0 \<le> mem_size_gb r"
    using mem_invD(4,6)[OF assms] by (simp_all add: count_if_def)
qed

lemma mem_size_owned: "mem_inv r \<Longrightarrow> mem_size_gb r = int (card (owned (abs_mem r)))"
  using mem_invD(4,6)[of r] by (simp add: abs_mem_def count_if_def length_filter_conv_card)

text \<open>A change of the allocated chunks that leaves the loans alone.\<close>

lemma daemon_inv_mem:
  assumes inv: "daemon_inv d" and r': "mem_inv r'" "lent (abs_mem r') = lent (abs_mem (rdma_remote d))"
  shows "daemon_inv (d\<lparr>rdma_remote := r'\<rparr>)"
proof -
  have mem: "mem_inv (rdma_remote d)" using inv by (simp add: daemon_inv_def)
  have "slot_inv (d\<lparr>rdma_remote := r'\<rparr>) c" if c: "c < MAX_CLIENT" for c
  proof (rule slot_inv_frame [OF daemon_inv_slot [OF inv c]])
    fix i
    assume i: "i < MAX_FREE_MEM_GB"
    show "lent_at (rdma_remote (d\<lparr>rdma_remote := r'\<rparr>)) i = int c \<longleftrightarrow> lent_at (rdma_remote d) i = int c"
      using lent_abs [OF mem i, of c] lent_abs [OF r'(1) i, of c] r'(2) by simp
  qed (use mem_invD(3)[OF mem] mem_invD(3)[OF r'(1)] in simp_all)
  then show ?thesis using inv r'(1) by (simp add: daemon_inv_def)
qed

lemma expand_mem_ok:
  assumes inv: "daemon_inv d" and n: "FREE_MEM_EXPAND_THRESHOLD < g" "n = expand_size g (rdma_remote d)"
    and ok: "\<forall>i < MAX_FREE_MEM_GB. ok i"
  shows "\<exists>r' M. expand_mem ok n (rdma_remote d) = Inr r' \<and> daemon_inv (d\<lparr>rdma_remote := r'\<rparr>) \<and>
     abs_mem r' = grown M (rdma_remote d) \<and> M \<subseteq> empty_rows (rdma_remote d) \<and> int (card M) = n \<and>
     mem_size_gb r' = min 32 (mem_size_gb (rdma_remote d) + (g - 16))"
proof -
  let ?r = "rdma_remote d"
  have mem: "mem_inv ?r" using inv by (simp add: daemon_inv_def)
  note cnt = empty_rows_count [OF mem]
  have n0: "0 \<le> n" "n \<le> int (card (empty_rows ?r))" "mem_size_gb ?r + n = min 32 (mem_size_gb ?r + (g - 16))"
    using n cnt of_nat_0_le_iff [of "card (empty_rows ?r)"] by (auto simp: expand_size_def Let_def mem_consts MAX_FREE_MEM_GB_def simp del: of_nat_0_le_iff)
  have "\<exists>r' M. expand_loop ok n 0 [0..<MAX_FREE_MEM_GB] ?r = Inr r' \<and> mem_inv (owe n r') \<and> abs_mem r' = grown M ?r \<and>
      M \<subseteq> empty_rows ?r \<and> int (card M) = n"
  proof (cases "n = 0")
    case True
    then have "empty_rows ?r = {}"
      using n cnt by (auto simp: expand_size_def Let_def mem_consts empty_rows_def split: if_splits)
    then show ?thesis using expand_loop_none [OF mem] mem True by (intro exI [of _ ?r] exI [of _ "{}"]) (simp add: grown_def)
  next
    case False
    then show ?thesis using expand_loop_ok [of 0 ?r 0 n ok] mem n0 ok by simp
  qed
  then obtain r' M where r': "expand_loop ok n 0 [0..<MAX_FREE_MEM_GB] ?r = Inr r'" "mem_inv (owe n r')" "abs_mem r' = grown M ?r"
    "M \<subseteq> empty_rows ?r" "int (card M) = n" by blast
  have "owned (abs_mem ?r) \<inter> M = {}" "finite (owned (abs_mem ?r))" using r'(4) by (auto simp: abs_mem_def empty_rows_def)
  moreover have "finite M" using r'(4) by (rule finite_subset) (simp add: empty_rows_def)
  ultimately have "card (owned (grown M ?r)) = card (owned (abs_mem ?r)) + card M" by (simp add: grown_def card_Un_disjoint)
  then have "mem_size_gb (owe n r') = mem_size_gb ?r + n"
    using mem_size_owned [OF mem] mem_size_owned [OF r'(2)] r'(3,5) by simp
  moreover have "daemon_inv (d\<lparr>rdma_remote := owe n r'\<rparr>)"
    using r'(2,3) by (intro daemon_inv_mem [OF inv]) (simp_all add: grown_def)
  ultimately show ?thesis
    using r' n0(3) by (intro exI [of _ "owe n r'"] exI [of _ M]) (simp add: expand_mem_def owe_def [symmetric] grown_def) 
qed

text \<open>
  Expansion. When the filtered free memory exceeds the threshold of 16 GB, the session gets as many
  chunks as gigabytes lie above the threshold, as far as the table of 32 chunks has room: exactly
  that many rows that were empty become spare chunks, no loan changes and all tables agree.
\<close>

theorem expand_mem_spec:
  assumes inv: "daemon_inv d" and n: "FREE_MEM_EXPAND_THRESHOLD < g" "n = expand_size g (rdma_remote d)"
    and ok: "\<forall>i < MAX_FREE_MEM_GB. ok i"
  shows "\<exists>r' M. expand_mem ok n (rdma_remote d) = Inr r' \<and> daemon_inv (d\<lparr>rdma_remote := r'\<rparr>) \<and>
     abs_mem r' = grown M (rdma_remote d) \<and> M \<subseteq> empty_rows (rdma_remote d) \<and> int (card M) = n \<and>
     mem_size_gb r' = min 32 (mem_size_gb (rdma_remote d) + (g - 16))"
  using assms by (rule expand_mem_ok)

theorem expand_mem_spec_witness:
  "\<exists>r'. expand_mem (\<lambda>_. True) (expand_size 20 (rdma_remote (crowd 1 2))) (rdma_remote (crowd 1 2)) = Inr r' \<and>
     daemon_inv ((crowd 1 2)\<lparr>rdma_remote := r'\<rparr>) \<and> mem_size_gb r' = 6"
proof -
  have "mem_size_gb (rdma_remote (crowd 1 2)) = 2" by (simp add: crowd_def)
  with expand_mem_spec [OF crowd_small [of 2] _ refl, of 20 "\<lambda>_. True"] show ?thesis by (auto simp: mem_consts)
qed

end
