(* ===== verification/Daemon_Evict.thy ===== *)
theory Daemon_Evict
  imports Daemon_Mem
begin

text \<open>
  Eviction by the daemon (\<open>evict_mem\<close> and \<open>free_mem\<close> of \<open>rdma-common.c\<close>): spare chunks are freed first;
  then clients are asked for the activity of their chunks, the least active chunks are selected and
  their clients are told to stop using them. The thread waits on semaphores that the message handler
  posts; what a client answers to a message is the parameter \<open>peer\<close>, and an answer is handled when
  the thread waits for it. The numbers of \<open>rand\<close> are the parameter \<open>rnd\<close>.
\<close>

definition EXTRA_CHUNK_NUM :: int where "EXTRA_CHUNK_NUM = 2"

record chunk_activity =
  activity :: u64
  chunk_index :: int

type_synonym peer = "nat \<Rightarrow> IS_rdma_info \<Rightarrow> IS_rdma_info option"

section \<open>Spare chunks\<close>

text \<open>The loop ends early, with True, when enough chunks are freed.\<close>

fun free_unmapped :: "int \<Rightarrow> int \<Rightarrow> nat list \<Rightarrow> rdma_remote_mem \<Rightarrow> (bool \<times> int \<times> rdma_remote_mem) res" where
  "free_unmapped evict_g freed_g [] r = Inr (False, freed_g, r)"
| "free_unmapped evict_g freed_g (i # is) r =
     bind_res (lendable r i) (\<lambda>spare.
       if spare
       then bind_res (free_region (region_list r) (int i)) (\<lambda>regs.
            bind_res (arr_set (malloc_map r) (int i) CHUNK_EMPTY) (\<lambda>mm.
              let r = r\<lparr>region_list := regs, malloc_map := mm\<rparr>; freed_g = freed_g + 1
              in if freed_g = evict_g then Inr (True, freed_g, r) else free_unmapped evict_g freed_g is r))
       else free_unmapped evict_g freed_g is r)"

section \<open>Which clients are asked\<close>

definition conn_of :: "int \<Rightarrow> daemon \<Rightarrow> nat res" where
  "conn_of i d = bind_res (arr_get (conns d) i) (\<lambda>c. case c of None \<Rightarrow> Inl Null_Deref | Some cid \<Rightarrow> Inr cid)"

text \<open>All mapped clients.\<close>

definition ask_all :: "daemon \<Rightarrow> nat \<Rightarrow> int list \<Rightarrow> int list res" where
  "ask_all d i send_list =
     bind_res (arr_get (conns_state d) (int i)) (\<lambda>st.
       if st = CONN_MAPPED
       then bind_res (arr_set send_list (int i) 1) (\<lambda>l.
            bind_res (conn_of (int i) d) (\<lambda>cid. bind_res (get_conn cid d) (\<lambda>conn. Inr l)))
       else Inr send_list)"

text \<open>
  The \<open>while\<close> loop that looks for a chunk that is lent and not selected. It goes round the table, which
  does not change meanwhile: when \<open>MAX_FREE_MEM_GB\<close> probes fail it never ends.
\<close>

fun probe_chunk :: "nat \<Rightarrow> int list \<Rightarrow> nat \<Rightarrow> nat res" where
  "probe_chunk 0 sel n = Inl Blocked"
| "probe_chunk (Suc fuel) sel n =
     bind_res (arr_get sel (int n)) (\<lambda>x. if x \<noteq> 0 then probe_chunk fuel sel ((n + 1) mod MAX_FREE_MEM_GB) else Inr n)"

definition select_row :: "rdma_remote_mem \<Rightarrow> nat \<Rightarrow> int list \<Rightarrow> int list res" where
  "select_row r i sel =
     bind_res (arr_get (conn_map r) (int i)) (\<lambda>c. arr_set sel (int i) (if c = -1 then -1 else 0))"

definition ask_random ::
  "(nat \<Rightarrow> nat) \<Rightarrow> rdma_remote_mem \<Rightarrow> nat \<Rightarrow> int list \<times> int list \<Rightarrow> (int list \<times> int list) res" where
  "ask_random rnd r j = (\<lambda>(sel, send_list).
     bind_res (probe_chunk MAX_FREE_MEM_GB sel (rnd j mod MAX_FREE_MEM_GB)) (\<lambda>n.
     bind_res (arr_set sel (int n) 1) (\<lambda>sel.
     bind_res (arr_get (conn_map r) (int n)) (\<lambda>c.
     bind_res (arr_set send_list c 1) (\<lambda>send_list. Inr (sel, send_list))))))"

text \<open>The clients to ask and the number of chunks to evict.\<close>

definition choose_clients :: "(nat \<Rightarrow> nat) \<Rightarrow> int \<Rightarrow> daemon \<Rightarrow> (int list \<times> int) res" where
  "choose_clients rnd evict_g d =
     (let r = rdma_remote d; send_list = replicate MAX_CLIENT (-1)
      in bind_res (for_res (select_row r) [0..<MAX_FREE_MEM_GB] (replicate MAX_FREE_MEM_GB 0)) (\<lambda>sel.
           if mapped_size r < evict_g + EXTRA_CHUNK_NUM
           then bind_res (for_res (ask_all d) [0..<MAX_CLIENT] send_list) (\<lambda>l.
                  Inr (l, if mapped_size r < evict_g then mapped_size r else evict_g))
           else bind_res (for_res (ask_random rnd r) [0..<nat (evict_g + EXTRA_CHUNK_NUM)] (sel, send_list)) (\<lambda>(sel, l).
                  Inr (l, evict_g))))"

section \<open>The activity of the chunks\<close>

definition count_chunks :: "int list \<Rightarrow> daemon \<Rightarrow> nat \<Rightarrow> int \<Rightarrow> int res" where
  "count_chunks send_list d i k =
     bind_res (arr_get send_list (int i)) (\<lambda>x.
       if x = 1
       then bind_res (conn_of (int i) d) (\<lambda>cid. bind_res (get_conn cid d) (\<lambda>conn. Inr (k + mapped_chunk_size conn)))
       else Inr k)"

definition ask_conn :: "ibv \<Rightarrow> int list \<Rightarrow> int \<Rightarrow> nat \<Rightarrow> sent \<times> daemon \<Rightarrow> (sent \<times> daemon) res" where
  "ask_conn v send_list j i = (\<lambda>(out, d).
     bind_res (arr_get send_list (int i)) (\<lambda>x.
       if x = 1
       then bind_res (conn_of (int i) d) (\<lambda>cid. bind_res (send_evict v cid j d) (\<lambda>(o', d). Inr (out @ o', d)))
       else Inr (out, d)))"

text \<open>\<open>sem_wait\<close>: the answer of the client to the last message sent to it is handled if it is needed.\<close>

definition answer :: "bool \<Rightarrow> ibv \<Rightarrow> peer \<Rightarrow> nat \<Rightarrow> daemon \<Rightarrow> daemon res" where
  "answer le v peer cid d =
     bind_res (get_conn cid d) (\<lambda>conn.
       case peer cid (send_msg conn) of None \<Rightarrow> Inl Blocked
       | Some m \<Rightarrow> bind_res (on_completion le v cid True (Wc_Recv m) d) (\<lambda>(out, d). Inr d))"

definition wait_evict :: "bool \<Rightarrow> ibv \<Rightarrow> peer \<Rightarrow> nat \<Rightarrow> daemon \<Rightarrow> daemon res" where
  "wait_evict le v peer cid d =
     bind_res (get_conn cid d) (\<lambda>conn.
     bind_res (if evict_sem conn = 0 then answer le v peer cid d else Inr d) (\<lambda>d.
     bind_res (get_conn cid d) (\<lambda>conn.
       if evict_sem conn = 0 then Inl Blocked
       else Inr (put_conn cid (conn\<lparr>evict_sem := evict_sem conn - 1\<rparr>) d))))"

definition wait_stop :: "bool \<Rightarrow> ibv \<Rightarrow> peer \<Rightarrow> nat \<Rightarrow> daemon \<Rightarrow> daemon res" where
  "wait_stop le v peer cid d =
     bind_res (get_conn cid d) (\<lambda>conn.
     bind_res (if stop_sem conn = 0 then answer le v peer cid d else Inr d) (\<lambda>d.
     bind_res (get_conn cid d) (\<lambda>conn.
       if stop_sem conn = 0 then Inl Blocked
       else Inr (put_conn cid (conn\<lparr>stop_sem := stop_sem conn - 1\<rparr>) d))))"

type_synonym evict_list = "chunk_activity option list"

text \<open>The entries of one activity message; the list has room for the \<open>k\<close> chunks counted before.\<close>

definition take_activity ::
  "bool \<Rightarrow> IS_rdma_info \<Rightarrow> nat \<Rightarrow> u32 list \<times> evict_list \<times> int \<Rightarrow> (u32 list \<times> evict_list \<times> int) res" where
  "take_activity le msg m = (\<lambda>(keys, el, n).
     bind_res (arr_set keys (int m) 0) (\<lambda>keys.
     bind_res (arr_get (buf msg) (int m)) (\<lambda>b.
       if b \<noteq> 0
       then bind_res (arr_set el n (Some \<lparr>activity = ntohll le b, chunk_index = int m\<rparr>)) (\<lambda>el. Inr (keys, el, n + 1))
       else Inr (keys, el, n))))"

definition collect_conn ::
  "bool \<Rightarrow> ibv \<Rightarrow> peer \<Rightarrow> int list \<Rightarrow> nat \<Rightarrow> daemon \<times> evict_list \<times> int \<Rightarrow> (daemon \<times> evict_list \<times> int) res" where
  "collect_conn le v peer send_list i = (\<lambda>(d, el, n).
     bind_res (arr_get send_list (int i)) (\<lambda>x.
       if x = 1
       then bind_res (conn_of (int i) d) (\<lambda>cid.
            bind_res (wait_evict le v peer cid d) (\<lambda>d.
            bind_res (get_conn cid d) (\<lambda>conn.
            bind_res (for_res (take_activity le (recv_msg conn)) [0..<MAX_MR_SIZE_GB] (rkey (send_msg conn), el, n)) (\<lambda>(keys, el, n).
            bind_res (post_receives v cid (put_conn cid (conn\<lparr>send_msg := (send_msg conn)\<lparr>size_gb := 0, rkey := keys\<rparr>\<rparr>) d)) (\<lambda>d.
              Inr (d, el, n))))))
       else Inr (d, el, n)))"

section \<open>Selection of the least active chunks\<close>

definition entry :: "evict_list \<Rightarrow> nat \<Rightarrow> chunk_activity res" where
  "entry el n = bind_res (arr_get el (int n)) (\<lambda>x. case x of None \<Rightarrow> Inl Uninit_Read | Some e \<Rightarrow> Inr e)"

definition sort_swap :: "nat \<Rightarrow> nat \<Rightarrow> evict_list \<Rightarrow> evict_list res" where
  "sort_swap n m el =
     bind_res (entry el n) (\<lambda>a. bind_res (entry el m) (\<lambda>b.
       if activity b < activity a
       then bind_res (arr_set el (int n) (Some b)) (\<lambda>el. arr_set el (int m) (Some a))
       else Inr el))"

definition sort_row :: "nat \<Rightarrow> nat \<Rightarrow> evict_list \<Rightarrow> evict_list res" where
  "sort_row k n el = for_res (sort_swap n) [Suc n..<k] el"

text \<open>One round of the selection: the next chunk is found and marked in the message to its client. The
  last component is the variable \<open>conn_index\<close>.\<close>

definition mark_chunk ::
  "int \<Rightarrow> int list \<times> daemon \<times> int option \<Rightarrow> (int list \<times> daemon \<times> int option) res" where
  "mark_chunk ch = (\<lambda>(send_list, d, _).
     bind_res (arr_get (conn_map (rdma_remote d)) ch) (\<lambda>c.
     bind_res (arr_get send_list c) (\<lambda>x.
     bind_res (if x = 1 then arr_set send_list c 2 else Inr send_list) (\<lambda>send_list.
     bind_res (conn_of c d) (\<lambda>cid.
     bind_res (get_conn cid d) (\<lambda>conn.
     bind_res (arr_set (rkey (send_msg conn)) ch 1) (\<lambda>keys.
       Inr (send_list,
            put_conn cid (conn\<lparr>send_msg := (send_msg conn)\<lparr>rkey := keys, size_gb := size_gb (send_msg conn) + 1\<rparr>\<rparr>) d,
            Some c))))))))"

definition select_chunk ::
  "nat \<Rightarrow> nat \<Rightarrow> evict_list \<times> int list \<times> daemon \<times> int option \<Rightarrow> (evict_list \<times> int list \<times> daemon \<times> int option) res" where
  "select_chunk k n = (\<lambda>(el, x).
     bind_res (sort_row k n el) (\<lambda>el.
     bind_res (entry el n) (\<lambda>e.
     bind_res (mark_chunk (chunk_index e) x) (\<lambda>x. Inr (el, x)))))"

section \<open>Stopping the clients\<close>

definition send_stop :: "bool \<Rightarrow> ibv \<Rightarrow> peer \<Rightarrow> nat \<Rightarrow> int \<Rightarrow> daemon \<Rightarrow> (sent \<times> daemon) res" where
  "send_stop le v peer cid n d =
     bind_res (get_conn cid d) (\<lambda>conn.
     bind_res (send_message v cid (put_conn cid (conn\<lparr>send_msg := (send_msg conn)\<lparr>mtype := STOP, size_gb := n\<rparr>\<rparr>) d)) (\<lambda>(out, d).
       if n \<noteq> 0 then bind_res (wait_stop le v peer cid d) (\<lambda>d. Inr (out, d)) else Inr (out, d)))"

text \<open>The size of the message is read from the connection that was marked last.\<close>

definition stop_conn ::
  "bool \<Rightarrow> ibv \<Rightarrow> peer \<Rightarrow> int list \<Rightarrow> int option \<Rightarrow> nat \<Rightarrow> sent \<times> daemon \<Rightarrow> (sent \<times> daemon) res" where
  "stop_conn le v peer send_list last_index i = (\<lambda>(out, d).
     bind_res (arr_get send_list (int i)) (\<lambda>x.
       if x = 2
       then bind_res (conn_of (int i) d) (\<lambda>cid.
            bind_res (case last_index of None \<Rightarrow> Inl Uninit_Read | Some c \<Rightarrow> conn_of c d) (\<lambda>last_cid.
            bind_res (get_conn last_cid d) (\<lambda>last_conn.
            bind_res (send_stop le v peer cid (size_gb (send_msg last_conn)) d) (\<lambda>(o', d). Inr (out @ o', d)))))
       else if x = 1
       then bind_res (conn_of (int i) d) (\<lambda>cid. bind_res (send_stop le v peer cid 0 d) (\<lambda>(o', d). Inr (out @ o', d)))
       else Inr (out, d)))"

definition evict_mapped ::
  "bool \<Rightarrow> ibv \<Rightarrow> peer \<Rightarrow> (nat \<Rightarrow> nat) \<Rightarrow> int \<Rightarrow> daemon \<Rightarrow> (sent \<times> daemon) res" where
  "evict_mapped le v peer rnd evict_g d =
     bind_res (choose_clients rnd evict_g d) (\<lambda>(send_list, j).
     bind_res (for_res (count_chunks send_list d) [0..<MAX_CLIENT] 0) (\<lambda>k.
     bind_res (for_res (ask_conn v send_list j) [0..<MAX_CLIENT] ([], d)) (\<lambda>(out1, d).
     bind_res (for_res (collect_conn le v peer send_list) [0..<MAX_CLIENT] (d, replicate (nat k) None, 0)) (\<lambda>(d, el, n).
     bind_res (for_res (select_chunk (nat k)) [0..<nat j] (el, send_list, d, None)) (\<lambda>(el, send_list, d, last_index).
       for_res (stop_conn le v peer send_list last_index) [0..<MAX_CLIENT] (out1, d))))))"

definition evict_mem ::
  "bool \<Rightarrow> ibv \<Rightarrow> peer \<Rightarrow> (nat \<Rightarrow> nat) \<Rightarrow> int \<Rightarrow> daemon \<Rightarrow> (sent \<times> daemon) res" where
  "evict_mem le v peer rnd stop_g d =
     bind_res (free_unmapped stop_g 0 [0..<MAX_FREE_MEM_GB] (rdma_remote d)) (\<lambda>(enough, freed_g, r).
       let d = d\<lparr>rdma_remote := r\<lparr>mem_size_gb := mem_size_gb r - freed_g\<rparr>\<rparr>
       in if enough then Inr ([], d) else evict_mapped le v peer rnd (stop_g - freed_g) d)"

section \<open>The memory thread\<close>

text \<open>The variables that \<open>free_mem\<close> keeps between two measurements.\<close>

record mem_thread =
  last_free_mem_g :: int
  evict_hit_count :: int
  expand_hit_count :: int

definition free_mem_round ::
  "bool \<Rightarrow> ibv \<Rightarrow> peer \<Rightarrow> (nat \<Rightarrow> nat) \<Rightarrow> (nat \<Rightarrow> bool) \<Rightarrow> string option \<Rightarrow> mem_thread \<times> daemon \<Rightarrow> (sent \<times> mem_thread \<times> daemon) res" where
  "free_mem_round le v peer rnd ok meminfo = (\<lambda>(t, d).
     bind_res (free_mem_of meminfo) (\<lambda>free_mem_g.
       let filtered = filter_free_mem free_mem_g (last_free_mem_g t); t = t\<lparr>last_free_mem_g := filtered\<rparr>
       in if filtered < FREE_MEM_EVICT_THRESHOLD
          then let t = t\<lparr>evict_hit_count := evict_hit_count t + 1, expand_hit_count := 0\<rparr>
               in if MEM_EVICT_HIT_THRESHOLD \<le> evict_hit_count t
                  then let g = FREE_MEM_EVICT_THRESHOLD - filtered;
                           stop_size_g = (if mem_size_gb (rdma_remote d) < g then mem_size_gb (rdma_remote d) else g);
                           t = t\<lparr>evict_hit_count := 0, last_free_mem_g := filtered + stop_size_g\<rparr>
                       in if 0 < stop_size_g
                          then bind_res (evict_mem le v peer rnd stop_size_g d) (\<lambda>(out, d). Inr (out, t, d))
                          else Inr ([], t, d)
                  else Inr ([], t, d)
          else if FREE_MEM_EXPAND_THRESHOLD < filtered
          then let t = t\<lparr>expand_hit_count := expand_hit_count t + 1, evict_hit_count := 0\<rparr>
               in if MEM_EXPAND_HIT_THRESHOLD \<le> expand_hit_count t
                  then let n = expand_size filtered (rdma_remote d)
                       in bind_res (expand_mem ok n (rdma_remote d)) (\<lambda>r.
                            Inr ([], t\<lparr>expand_hit_count := 0, last_free_mem_g := filtered - n\<rparr>, d\<lparr>rdma_remote := r\<rparr>))
                  else Inr ([], t, d)
          else Inr ([], t, d)))"

text \<open>The thread: initialisation, then a round per second for every content of the file that it reads,
  as long as the daemon runs.\<close>

fun free_mem_loop ::
  "bool \<Rightarrow> ibv \<Rightarrow> peer \<Rightarrow> (nat \<Rightarrow> nat) \<Rightarrow> (nat \<Rightarrow> bool) \<Rightarrow> string option list \<Rightarrow> mem_thread \<times> daemon \<Rightarrow> (sent \<times> mem_thread \<times> daemon) res" where
  "free_mem_loop le v peer rnd ok [] (t, d) = Inr ([], t, d)"
| "free_mem_loop le v peer rnd ok (f # fs) (t, d) =
     (if running d
      then bind_res (free_mem_round le v peer rnd ok f (t, d)) (\<lambda>(out, t, d).
           bind_res (free_mem_loop le v peer rnd ok fs (t, d)) (\<lambda>(out', t, d). Inr (out @ out', t, d)))
      else Inr ([], t, d))"

definition free_mem ::
  "bool \<Rightarrow> ibv \<Rightarrow> peer \<Rightarrow> (nat \<Rightarrow> nat) \<Rightarrow> (nat \<Rightarrow> bool) \<Rightarrow> string option \<Rightarrow> string option \<Rightarrow> string option list \<Rightarrow> daemon \<Rightarrow>
     (sent \<times> mem_thread \<times> daemon) res" where
  "free_mem le v peer rnd ok f0 f1 fs d =
     bind_res (rdma_session_init ok f0 d) (\<lambda>d.
     bind_res (free_mem_of f1) (\<lambda>g.
       free_mem_loop le v peer rnd ok fs (\<lparr>last_free_mem_g = g, evict_hit_count = 0, expand_hit_count = 0\<rparr>, d)))"

section \<open>The selection sorts\<close>

lemma for_res_from:
  assumes "P a s" "a \<le> b" "\<And>i s. a \<le> i \<Longrightarrow> i < b \<Longrightarrow> P i s \<Longrightarrow> \<exists>s'. body i s = Inr s' \<and> P (Suc i) s'"
  shows "\<exists>s'. for_res body [a..<b] s = Inr s' \<and> P b s'"
  using assms
proof (induction "b - a" arbitrary: a s)
  case (Suc k)
  then have a: "a < b" by simp
  then obtain s1 where s1: "body a s = Inr s1" "P (Suc a) s1" using Suc.prems by auto
  have "\<exists>s'. for_res body [Suc a..<b] s1 = Inr s' \<and> P b s'"
    using Suc.hyps(2) a by (intro Suc.hyps(1) s1(2) Suc.prems(3)) auto
  then show ?case using a s1(1) by (simp add: upt_conv_Cons)
qed simp

lemma sort_swap_eq:
  assumes "n < length xs" "m < length xs"
  shows "sort_swap n m (map Some xs) =
     Inr (map Some (if activity (xs ! m) < activity (xs ! n) then xs[n := xs ! m, m := xs ! n] else xs))"
  using assms by (simp add: sort_swap_def entry_def map_update)

text \<open>A row brings a least element of the rest to its place.\<close>

definition row_done :: "nat \<Rightarrow> nat \<Rightarrow> chunk_activity list \<Rightarrow> chunk_activity list \<Rightarrow> bool" where
  "row_done n m xs ys \<longleftrightarrow> mset ys = mset xs \<and> take n ys = take n xs \<and> (\<forall>i. n \<le> i \<and> i < m \<longrightarrow> activity (ys ! n) \<le> activity (ys ! i))"

lemma sort_row_eq:
  assumes n: "n < length xs"
  shows "\<exists>ys. sort_row (length xs) n (map Some xs) = Inr (map Some ys) \<and> row_done n (length xs) xs ys"
proof -
  have "\<exists>el. for_res (sort_swap n) [Suc n..<length xs] (map Some xs) = Inr el \<and>
      (\<exists>ys. el = map Some ys \<and> row_done n (length xs) xs ys)"
  proof (rule for_res_from [where P = "\<lambda>m el. \<exists>ys. el = map Some ys \<and> row_done n m xs ys"])
    show "\<exists>ys. map Some xs = map Some ys \<and> row_done n (Suc n) xs ys"
      by (intro exI [of _ xs]) (auto simp: row_done_def less_Suc_eq_le)
  next
    fix m el
    assume m: "Suc n \<le> m" "m < length xs" and "\<exists>ys. el = map Some ys \<and> row_done n m xs ys"
    then obtain ys where ys: "el = map Some ys" "row_done n m xs ys" by blast
    then have len: "length ys = length xs" using mset_eq_length by (auto simp: row_done_def)
    define zs where "zs = (if activity (ys ! m) < activity (ys ! n) then ys[n := ys ! m, m := ys ! n] else ys)"
    have "mset zs = mset xs" using ys(2) m n len by (auto simp: zs_def row_done_def mset_swap)
    moreover have "take n zs = take n xs" using ys(2) m by (simp add: zs_def row_done_def)
    moreover have "activity (zs ! n) \<le> activity (zs ! i)" if "n \<le> i" "i < Suc m" for i
      using ys(2) that m n len unfolding zs_def row_done_def
      by (auto simp: nth_list_update less_Suc_eq)
    ultimately have "row_done n (Suc m) xs zs" by (simp add: row_done_def)
    moreover have "sort_swap n m el = Inr (map Some zs)"
      using sort_swap_eq [of n ys m] m n len by (simp add: ys(1) zs_def)
    ultimately show "\<exists>el'. sort_swap n m el = Inr el' \<and> (\<exists>ys. el' = map Some ys \<and> row_done n (Suc m) xs ys)" by blast
  qed (use n in simp)
  then show ?thesis by (auto simp: sort_row_def)
qed

text \<open>After \<open>n\<close> rows the first \<open>n\<close> elements are in order and below the others.\<close>

definition sorted_upto :: "nat \<Rightarrow> chunk_activity list \<Rightarrow> chunk_activity list \<Rightarrow> bool" where
  "sorted_upto n xs ys \<longleftrightarrow> mset ys = mset xs \<and> sorted (map activity (take n ys)) \<and>
     (\<forall>a \<in> set (take n ys). \<forall>b \<in> set (drop n ys). activity a \<le> activity b)"

lemma sorted_upto_step:
  assumes ys: "sorted_upto n xs ys" and zs: "row_done n (length ys) ys zs" and n: "n < length ys"
  shows "sorted_upto (Suc n) xs zs"
proof -
  have len: "length zs = length ys" using zs mset_eq_length by (auto simp: row_done_def)
  have "mset (take n zs) + mset (drop n zs) = mset (take n ys) + mset (drop n ys)"
    using zs unfolding row_done_def by (metis append_take_drop_id mset_append)
  then have "mset (drop n zs) = mset (drop n ys)" using zs by (simp add: row_done_def)
  then have sets: "set (drop n zs) = set (drop n ys)" by (rule mset_eq_setD)
  have split: "take (Suc n) zs = take n zs @ [zs ! n]" "drop n zs = zs ! n # drop (Suc n) zs"
    using n len by (simp_all add: take_Suc_conv_app_nth Cons_nth_drop_Suc)
  have below: "activity a \<le> activity b" if "a \<in> set (take n zs)" "b \<in> set (drop n zs)" for a b
    using ys zs that sets by (simp add: sorted_upto_def row_done_def)
  have "activity (zs ! n) \<le> activity b" if "b \<in> set (drop n zs)" for b
    using zs that len n by (auto simp: row_done_def in_set_conv_nth)
  moreover have "sorted (map activity (take n zs))" using ys zs by (simp add: sorted_upto_def row_done_def)
  ultimately show ?thesis
    using ys zs below split by (auto simp: sorted_upto_def row_done_def sorted_append)
qed

lemma sorted_upto_sort:
  assumes "sorted_upto j xs ys"
  shows "take j (map activity ys) = take j (sort (map activity xs))"
proof -
  have "sort (map activity xs) = map activity (take j ys) @ sort (map activity (drop j ys))"
  proof (rule properties_for_sort)
    have "mset (map activity ys) = mset (map activity xs)" using assms by (simp add: sorted_upto_def)
    then show "mset (map activity (take j ys) @ sort (map activity (drop j ys))) = mset (map activity xs)"
      by (metis append_take_drop_id map_append mset_append mset_sort)
    show "sorted (map activity (take j ys) @ sort (map activity (drop j ys)))"
      using assms by (auto simp: sorted_upto_def sorted_append)
  qed
  then show ?thesis by (cases "j \<le> length ys") (simp_all add: take_map)
qed

text \<open>Sorting first and marking afterwards.\<close>

fun mark_all :: "int list \<Rightarrow> int list \<times> daemon \<times> int option \<Rightarrow> (int list \<times> daemon \<times> int option) res" where
  "mark_all [] x = Inr x"
| "mark_all (c # cs) x = bind_res (mark_chunk c x) (mark_all cs)"

lemma mark_all_append: "mark_all (cs @ cs') x = bind_res (mark_all cs x) (mark_all cs')"
proof (induction cs arbitrary: x)
  case (Cons c cs)
  then show ?case by (cases "mark_chunk c x") simp_all
qed simp

text \<open>
  C14: The selection of victims is a sort. For a list of activities that is completely filled in, the
  interleaved selection loop, which runs only \<open>j\<close> rounds, does the same as sorting the list and
  marking its first \<open>j\<close> chunks: it yields a permutation of the list whose first \<open>j\<close> activities are
  those of the sorted list, in order, and marks exactly the chunks of these entries.
\<close>

theorem select_chunks_sort:
  assumes "j \<le> length xs"
  shows "\<exists>ys. mset ys = mset xs \<and> take j (map activity ys) = take j (sort (map activity xs)) \<and>
     for_res (select_chunk (length xs)) [0..<j] (map Some xs, x) =
       bind_res (mark_all (map chunk_index (take j ys)) x) (\<lambda>x'. Inr (map Some ys, x'))"
proof -
  have "j \<le> length xs \<Longrightarrow> \<exists>ys. sorted_upto j xs ys \<and> for_res (select_chunk (length xs)) [0..<j] (map Some xs, x) =
      bind_res (mark_all (map chunk_index (take j ys)) x) (\<lambda>x'. Inr (map Some ys, x'))"
  proof (induction j)
    case 0
    show ?case by (intro exI [of _ xs]) (simp add: sorted_upto_def)
  next
    case (Suc n)
    then obtain ys where ys: "sorted_upto n xs ys" "for_res (select_chunk (length xs)) [0..<n] (map Some xs, x) =
        bind_res (mark_all (map chunk_index (take n ys)) x) (\<lambda>x'. Inr (map Some ys, x'))" by auto
    have len: "length ys = length xs" using ys(1) mset_eq_length by (auto simp: sorted_upto_def)
    with Suc.prems have n: "n < length ys" by simp
    obtain zs where zs: "sort_row (length ys) n (map Some ys) = Inr (map Some zs)" "row_done n (length ys) ys zs"
      using sort_row_eq [OF n] by blast
    have lz: "length zs = length ys" using zs(2) mset_eq_length by (auto simp: row_done_def)
    have "entry (map Some zs) n = Inr (zs ! n)" using n lz by (simp add: entry_def)
    then have "select_chunk (length xs) n (map Some ys, x') = bind_res (mark_chunk (chunk_index (zs ! n)) x') (\<lambda>x. Inr (map Some zs, x))" for x'
      using zs(1) len by (simp add: select_chunk_def)
    moreover have "take (Suc n) zs = take n ys @ [zs ! n]"
      using n lz zs(2) by (simp add: take_Suc_conv_app_nth row_done_def)
    ultimately have "for_res (select_chunk (length xs)) [0..<Suc n] (map Some xs, x) =
        bind_res (mark_all (map chunk_index (take (Suc n) zs)) x) (\<lambda>x'. Inr (map Some zs, x'))"
      using ys(2) by (cases "mark_all (map chunk_index (take n ys)) x") (simp_all add: for_res_append mark_all_append bind_res_def split: sum.split)
    with sorted_upto_step [OF ys(1) zs(2) n] show ?case by blast
  qed
  from this [OF assms] obtain ys where "sorted_upto j xs ys" "for_res (select_chunk (length xs)) [0..<j] (map Some xs, x) =
      bind_res (mark_all (map chunk_index (take j ys)) x) (\<lambda>x'. Inr (map Some ys, x'))" by blast
  moreover from this(1) have "mset ys = mset xs" "take j (map activity ys) = take j (sort (map activity xs))"
    by (simp_all add: sorted_upto_sort) (simp add: sorted_upto_def)
  ultimately show ?thesis by blast
qed

definition activities_ex :: "chunk_activity list" where
  "activities_ex = [\<lparr>activity = 9, chunk_index = 0\<rparr>, \<lparr>activity = 4, chunk_index = 3\<rparr>]"

theorem select_chunks_sort_witness:
  "\<exists>ys. mset ys = mset activities_ex \<and> take 1 (map activity ys) = [4] \<and>
     for_res (select_chunk 2) [0..<1] (map Some activities_ex, [], crowd 0 0, None) =
       bind_res (mark_all (map chunk_index (take 1 ys)) ([], crowd 0 0, None)) (\<lambda>x'. Inr (map Some ys, x'))"
proof -
  have ex: "length activities_ex = 2" "take 1 (sort (map activity activities_ex)) = [4]" by (simp_all add: activities_ex_def)
  then have "1 \<le> length activities_ex" by simp
  from select_chunks_sort [OF this, of "([], crowd 0 0, None)"] show ?thesis unfolding ex .
qed

section \<open>Spare chunks are freed\<close>

definition freed_mem :: "nat \<Rightarrow> rdma_remote_mem \<Rightarrow> rdma_remote_mem" where
  "freed_mem i r = r\<lparr>region_list := (region_list r)[i := Freed], malloc_map := (malloc_map r)[i := CHUNK_EMPTY]\<rparr>"

definition shrunk :: "nat set \<Rightarrow> rdma_remote_mem \<Rightarrow> lender" where
  "shrunk M r = (abs_mem r)\<lparr>owned := owned (abs_mem r) - M\<rparr>"

lemma free_spare_ok:
  assumes r: "mem_inv (owe n r)" and i: "i < MAX_FREE_MEM_GB" "free_chunk r i"
  shows "free_region (region_list r) (int i) = Inr ((region_list r)[i := Freed])"
    "mem_inv (owe (n - 1) (freed_mem i r))" "abs_mem (freed_mem i r) = shrunk {i} r"
    "spare (abs_mem (freed_mem i r)) = spare (abs_mem r) - {i}"
proof -
  have len: "length (region_list r) = MAX_FREE_MEM_GB" "length (malloc_map r) = MAX_FREE_MEM_GB" "length (conn_map r) = MAX_FREE_MEM_GB"
    using r by (simp_all add: mem_inv_def owe_def)
  have at: "malloc_map r ! i = CHUNK_MALLOCED" "lent_at r i = -1" "region_list r ! i = Live"
    using i mem_invD(9)[OF r i(1)] by (simp_all add: free_chunk_def owe_def)
  have ne: "CHUNK_EMPTY \<noteq> CHUNK_MALLOCED" by (simp add: CHUNK_MALLOCED_def CHUNK_EMPTY_def)
  show "free_region (region_list r) (int i) = Inr ((region_list r)[i := Freed])" using len i(1) at by (simp add: free_region_def)
  show "mem_inv (owe (n - 1) (freed_mem i r))"
    using r i(1) len at ne by (auto simp: mem_inv_def owe_def freed_mem_def nth_list_update count_if_update)
  show "abs_mem (freed_mem i r) = shrunk {i} r"
    using i(1) len ne by (auto simp: abs_mem_def shrunk_def freed_mem_def nth_list_update cong: if_cong split: if_splits)
  show "spare (abs_mem (freed_mem i r)) = spare (abs_mem r) - {i}"
    using i(1) len ne by (auto simp: spare_abs free_chunk_def freed_mem_def nth_list_update split: if_splits)
qed

lemma free_unmapped_ok:
  assumes "mem_inv (owe (- f) r)" "m \<le> MAX_FREE_MEM_GB" "\<forall>i \<in> spare (abs_mem r). m \<le> i" "f < g"
  shows "\<exists>r' M. free_unmapped g f [m..<MAX_FREE_MEM_GB] r =
       Inr (g - f \<le> int (card (spare (abs_mem r))), f + int (card M), r') \<and>
     mem_inv (owe (- f - int (card M)) r') \<and> abs_mem r' = shrunk M r \<and> M \<subseteq> spare (abs_mem r) \<and>
     int (card M) = min (g - f) (int (card (spare (abs_mem r))))"
  using assms
proof (induction "MAX_FREE_MEM_GB - m" arbitrary: m f r)
  case 0
  then have "spare (abs_mem r) = {}" by (auto simp: spare_abs)
  then show ?case using 0 by (intro exI [of _ r] exI [of _ "{}"]) (simp add: shrunk_def)
next
  case (Suc k)
  then have m: "m < MAX_FREE_MEM_GB" by simp
  have lm: "lendable r m = Inr (free_chunk r m)" using Suc.prems(1) m by (simp add: lendable_def mem_inv_def owe_def free_chunk_def)
  show ?case
  proof (cases "free_chunk r m")
    case False
    then have "m \<notin> spare (abs_mem r)" by (simp add: spare_abs)
    then have "\<forall>i \<in> spare (abs_mem r). Suc m \<le> i" using Suc.prems(3) by (metis Suc_leI order_le_less)
    then have "\<exists>r' M. free_unmapped g f [Suc m..<MAX_FREE_MEM_GB] r =
         Inr (g - f \<le> int (card (spare (abs_mem r))), f + int (card M), r') \<and>
       mem_inv (owe (- f - int (card M)) r') \<and> abs_mem r' = shrunk M r \<and> M \<subseteq> spare (abs_mem r) \<and>
       int (card M) = min (g - f) (int (card (spare (abs_mem r))))"
      using Suc.hyps(2) Suc.prems m by (intro Suc.hyps(1)) simp_all
    then show ?thesis using False lm m by (simp add: upt_conv_Cons)
  next
    case True
    let ?r = "freed_mem m r" and ?S = "spare (abs_mem r)"
    note one = free_spare_ok [OF Suc.prems(1) m True]
    have mS: "m \<in> ?S" using m True by (simp add: spare_abs)
    then have card: "int (card (spare (abs_mem ?r))) = int (card ?S) - 1" "1 \<le> card ?S"
      unfolding one(4) by (simp_all add: card_Diff_singleton Suc_leI card_gt_0_iff) (metis One_nat_def Suc_leI card_gt_0_iff emptyE finite_spare of_nat_1 of_nat_diff, metis Suc_leI card_gt_0_iff emptyE finite_spare)
    have "length (malloc_map r) = MAX_FREE_MEM_GB" using Suc.prems(1) by (simp add: mem_inv_def)
    then have step: "free_unmapped g f [m..<MAX_FREE_MEM_GB] r =
        (if f + 1 = g then Inr (True, f + 1, ?r) else free_unmapped g (f + 1) [Suc m..<MAX_FREE_MEM_GB] ?r)"
      using True lm m one(1) by (simp add: upt_conv_Cons Let_def freed_mem_def)
    show ?thesis
    proof (cases "f + 1 = g")
      case eq: True
      then show ?thesis using step one(2,3) mS card by (intro exI [of _ ?r] exI [of _ "{m}"]) (auto simp: algebra_simps)
    next
      case False
      have "\<forall>i \<in> spare (abs_mem ?r). Suc m \<le> i" unfolding one(4) using Suc.prems(3) by (auto simp: Suc_le_eq order_le_less)
      moreover have "- f - 1 = - (f + 1)" by simp
      with one(2) have "mem_inv (owe (- (f + 1)) ?r)" by metis
      ultimately have "\<exists>r' M. free_unmapped g (f + 1) [Suc m..<MAX_FREE_MEM_GB] ?r =
           Inr (g - (f + 1) \<le> int (card (spare (abs_mem ?r))), f + 1 + int (card M), r') \<and>
         mem_inv (owe (- (f + 1) - int (card M)) r') \<and> abs_mem r' = shrunk M ?r \<and> M \<subseteq> spare (abs_mem ?r) \<and>
         int (card M) = min (g - (f + 1)) (int (card (spare (abs_mem ?r))))"
        using Suc.hyps(2) Suc.prems m False by (intro Suc.hyps(1)) simp_all
      then obtain r' M where r': "free_unmapped g (f + 1) [Suc m..<MAX_FREE_MEM_GB] ?r =
           Inr (g - (f + 1) \<le> int (card (spare (abs_mem ?r))), f + 1 + int (card M), r')"
        "mem_inv (owe (- (f + 1) - int (card M)) r')" "abs_mem r' = shrunk M ?r" "M \<subseteq> spare (abs_mem ?r)"
        "int (card M) = min (g - (f + 1)) (int (card (spare (abs_mem ?r))))" by blast
      have fin: "m \<notin> M" "finite M" using r'(4) one(4) by (auto intro: finite_subset)
      then have cM: "int (card (insert m M)) = int (card M) + 1" by simp
      have "owned (abs_mem r) - {m} - M = owned (abs_mem r) - insert m M" by blast
      then have "abs_mem r' = shrunk (insert m M) r" using r'(3) one(3) by (simp add: shrunk_def)
      moreover have "free_unmapped g f [m..<MAX_FREE_MEM_GB] r = Inr (g - f \<le> int (card ?S), f + int (card (insert m M)), r')"
        unfolding cM using step False r'(1) card by (simp add: algebra_simps)
      moreover have "- (f + 1) - int (card M) = - f - int (card (insert m M))" unfolding cM by simp
      with r'(2) have "mem_inv (owe (- f - int (card (insert m M))) r')" by metis
      moreover have "int (card (insert m M)) = min (g - f) (int (card ?S))" unfolding cM using r'(5) card by simp
      ultimately show ?thesis using r'(4) one(4) mS by blast
    qed
  qed
qed

lemma evict_mem_spare_ok:
  assumes inv: "daemon_inv d" and g: "0 < g" "g \<le> int (card (spare (abs_mem (rdma_remote d))))"
  shows "\<exists>r' M. evict_mem le v peer rnd g d = Inr ([], d\<lparr>rdma_remote := r'\<rparr>) \<and> daemon_inv (d\<lparr>rdma_remote := r'\<rparr>) \<and>
     abs_mem r' = shrunk M (rdma_remote d) \<and> M \<subseteq> spare (abs_mem (rdma_remote d)) \<and> int (card M) = g \<and>
     mem_size_gb r' = mem_size_gb (rdma_remote d) - g"
proof -
  let ?r = "rdma_remote d"
  have mem: "mem_inv ?r" using inv by (simp add: daemon_inv_def)
  have "mem_inv (owe (- 0) ?r)" "\<forall>i \<in> spare (abs_mem ?r). 0 \<le> i" using mem by simp_all
  from free_unmapped_ok [OF this(1) le0 this(2) g(1)] g(2)
  obtain r' M where r': "free_unmapped g 0 [0..<MAX_FREE_MEM_GB] ?r = Inr (True, g, r')" "mem_inv (owe (- g) r')"
    "abs_mem r' = shrunk M ?r" "M \<subseteq> spare (abs_mem ?r)" "int (card M) = g" by auto
  have M: "M \<subseteq> owned (abs_mem ?r)" "finite (owned (abs_mem ?r))" using r'(4) by (auto simp: spare_def) (simp add: abs_mem_def)
  then have "card (owned (shrunk M ?r)) = card (owned (abs_mem ?r)) - card M" "card M \<le> card (owned (abs_mem ?r))"
    by (simp_all add: shrunk_def card_Diff_subset finite_subset card_mono)
  then have "mem_size_gb (owe (- g) r') = mem_size_gb ?r - g"
    using mem_size_owned [OF mem] mem_size_owned [OF r'(2)] r'(3,5) by simp
  moreover have "daemon_inv (d\<lparr>rdma_remote := owe (- g) r'\<rparr>)"
    using r'(2,3) by (intro daemon_inv_mem [OF inv]) (simp_all add: shrunk_def)
  moreover have "evict_mem le v peer rnd g d = Inr ([], d\<lparr>rdma_remote := owe (- g) r'\<rparr>)"
    using r'(1) by (simp add: evict_mem_def owe_def)
  ultimately show ?thesis using r'(3-5) by (intro exI [of _ "owe (- g) r'"] exI [of _ M]) simp
qed

text \<open>
  C36: Eviction takes the spare chunks first. If the daemon has at least as many spare chunks as it must
  give up, no client is asked: exactly that many spare chunks are freed, no loan changes and all
  tables agree.
\<close>

theorem evict_mem_spare:
  assumes inv: "daemon_inv d" and g: "0 < g" "g \<le> int (card (spare (abs_mem (rdma_remote d))))"
  shows "\<exists>r' M. evict_mem le v peer rnd g d = Inr ([], d\<lparr>rdma_remote := r'\<rparr>) \<and> daemon_inv (d\<lparr>rdma_remote := r'\<rparr>) \<and>
     abs_mem r' = shrunk M (rdma_remote d) \<and> M \<subseteq> spare (abs_mem (rdma_remote d)) \<and> int (card M) = g \<and>
     mem_size_gb r' = mem_size_gb (rdma_remote d) - g"
  using assms by (rule evict_mem_spare_ok)

theorem evict_mem_spare_witness:
  "\<exists>r'. evict_mem True ibv_ex (\<lambda>_ _. None) (\<lambda>_. 0) 1 (crowd 1 2) = Inr ([], (crowd 1 2)\<lparr>rdma_remote := r'\<rparr>) \<and>
     daemon_inv ((crowd 1 2)\<lparr>rdma_remote := r'\<rparr>) \<and> mem_size_gb r' = 1"
proof -
  have "mem_size_gb (rdma_remote (crowd 1 2)) = 2" by (simp add: crowd_def)
  moreover have "(1 :: int) \<le> int (card (spare (abs_mem (rdma_remote (crowd 1 2)))))" unfolding crowd_two by simp
  ultimately show ?thesis
    using evict_mem_spare [OF crowd_small [of 2], of 1 True ibv_ex "\<lambda>_ _. None" "\<lambda>_. 0"] by auto
qed

section \<open>The size of a stop message\<close>

text \<open>A final message whose size is not the number of its marks.\<close>

lemma recv_done_wrong_size:
  assumes inv: "daemon_inv d" and conn: "heap d cid = Some conn" "conn_index conn = Some (int c)"
    and v: "ibv_good v" and m: "recv_msg conn = m" "msg_wf m" "size_gb m \<noteq> int (card (marked m))"
      "\<forall>i \<in> marked m. lent (abs_mem (rdma_remote d)) i = Some c"
  shows "\<exists>d' conn'. recv_done v cid d = Inr d' \<and> \<not> mem_inv (rdma_remote d') \<and> heap d' cid = Some conn' \<and>
     stop_sem conn' = stop_sem conn + 1"
proof -
  let ?r = "rdma_remote d" and ?n = "int (card (marked m))"
  note at = daemon_inv_conn_of [OF inv conn]
  have mk: "marked_upto m MAX_MR_SIZE_GB = marked m" by (simp add: marked_upto_def marked_def)
  have "\<forall>i < MAX_MR_SIZE_GB. rkey m ! i \<noteq> 0 \<longrightarrow> lent_at ?r i = int c"
    using m(4) lent_abs [OF at(5), of _ c] by (simp add: marked_def MAX_sizes)
  from take_back_all [OF at(5,3) m(2) order_refl this] obtain conn1 r1 where
    loop: "for_res (take_back m) [0..<MAX_MR_SIZE_GB] (conn, ?r) = Inr (conn1, r1)" "mem_inv (settle ?n r1)" "same_scm conn conn1"
    by (auto simp: back_inv_def mk Let_def)
  let ?r' = "r1\<lparr>mem_size_gb := mem_size_gb r1 - size_gb m, mapped_size := mapped_size r1 - size_gb m\<rparr>"
  have "mem_size_gb ?r' \<noteq> mem_size_gb (settle ?n r1)" using m(3) by (simp add: settle_def)
  then have bad: "\<not> mem_inv ?r'" using mem_invD(6)[OF loop(2)] by (auto simp: mem_inv_def settle_def)
  have sc: "conn_index conn1 = Some (int c)" "stop_sem conn1 = stop_sem conn" using loop(3) conn(2) by (auto simp: same_scm_def)
  have len: "length (conns_state d) = MAX_CLIENT" using inv by (simp add: daemon_inv_def)
  let ?conn = "conn1\<lparr>mapped_chunk_size := mapped_chunk_size conn1 - size_gb m, stop_sem := stop_sem conn1 + 1\<rparr>"
  let ?st = "if mapped_chunk_size ?conn = 0 then (conns_state d)[c := CONN_CONNECTED] else conns_state d"
  have "recv_done v cid d = Inr (d\<lparr>rdma_remote := ?r', conns_state := ?st, heap := (heap d)(cid := Some (?conn\<lparr>posted := posted conn1 + 1\<rparr>))\<rparr>)"
    using conn(1) m(1) loop(1) ibv_goodD(4)[OF v] sc(1) len at(1)
    by (simp add: recv_done_def handler_defs Let_def)
  then show ?thesis using bad sc(2) by auto
qed

text \<open>
  A stop message carries the size of another client's message. When the chunks to evict belong to
  several clients, every client but the one marked last gets the number of chunks of that last
  client. If the two numbers differ, a client that answers as the block device does, with the same
  marks and the same size, leaves the tables of the daemon in disagreement.
\<close>

theorem stop_size_of_last_client:
  assumes inv: "daemon_inv d" and conn: "heap d cid = Some conn" "conn_index conn = Some (int i)" "connected conn"
      "posted conn \<noteq> 0" "stop_sem conn = 0"
    and list: "length send_list = MAX_CLIENT" "send_list ! i = 2"
    and marks: "\<forall>j \<in> marked (send_msg conn). lent (abs_mem (rdma_remote d)) j = Some i"
    and lst: "conns d ! l = Some lcid" "l < MAX_CLIENT" "heap d lcid = Some lconn" "n = size_gb (send_msg lconn)"
      "n \<noteq> 0" "n \<noteq> int (card (marked (send_msg conn)))"
    and v: "ibv_good v"
    and echo: "peer cid ((send_msg conn)\<lparr>mtype := STOP, size_gb := n\<rparr>) = Some ((send_msg conn)\<lparr>mtype := DONE, size_gb := n\<rparr>)"
  shows "\<exists>d'. stop_conn le v peer send_list (Some (int l)) i (out, d) =
      Inr (out @ [(cid, (send_msg conn)\<lparr>mtype := STOP, size_gb := n\<rparr>)], d') \<and> \<not> daemon_inv d'"
proof -
  note at = daemon_inv_conn_of [OF inv conn(1,2)]
  have len: "length (conns d) = MAX_CLIENT" using inv by (simp add: daemon_inv_def)
  have wf: "msg_wf (send_msg conn)" using at(3) by (simp add: conn_inv_def)
  let ?stop = "(send_msg conn)\<lparr>mtype := STOP, size_gb := n\<rparr>" and ?done = "(send_msg conn)\<lparr>mtype := DONE, size_gb := n\<rparr>"
  let ?conn = "conn\<lparr>send_msg := ?stop\<rparr>" and ?d = "d\<lparr>heap := (heap d)(cid := Some (conn\<lparr>send_msg := ?stop\<rparr>))\<rparr>"
  have inv1: "daemon_inv ?d" using wf by (intro daemon_inv_msg [OF inv conn(1)]) (simp_all add: msg_wf_def)
  have c1: "heap ?d cid = Some ?conn" "conn_index ?conn = Some (int i)" "posted ?conn \<noteq> 0" using conn by simp_all
  let ?dr = "?d\<lparr>heap := (heap ?d)(cid := Some (received ?done ?conn))\<rparr>"
  have "daemon_inv ?dr" by (rule bound_inv(2)[OF inv1 c1(1,2)])
  moreover have "heap ?dr cid = Some (received ?done ?conn)" "conn_index (received ?done ?conn) = Some (int i)"
    "recv_msg (received ?done ?conn) = ?done" using conn(2) by (simp_all add: received_def)
  moreover have "msg_wf ?done" "size_gb ?done \<noteq> int (card (marked ?done))"
    "\<forall>j \<in> marked ?done. lent (abs_mem (rdma_remote ?dr)) j = Some i"
    using wf lst(6) marks by (simp_all add: msg_wf_def marked_def)
  ultimately obtain d2 conn2 where d2: "recv_done v cid ?dr = Inr d2" "\<not> mem_inv (rdma_remote d2)" "heap d2 cid = Some conn2"
    "stop_sem conn2 = 1" using recv_done_wrong_size [of ?dr cid "received ?done ?conn" i v ?done] v conn(5) by (auto simp: received_def)
  then have "on_completion le v cid True (Wc_Recv ?done) ?d = Inr ([], d2)"
    using on_completion_bind(3)[OF c1(1,3), of ?done le v] by simp
  then have ws: "wait_stop le v peer cid ?d = Inr (put_conn cid (conn2\<lparr>stop_sem := 0\<rparr>) d2)"
    using conn(5) echo d2(3,4) by (simp add: wait_stop_def answer_def get_conn_def)
  have "stop_conn le v peer send_list (Some (int l)) i (out, d) = Inr (out @ [(cid, ?stop)], put_conn cid (conn2\<lparr>stop_sem := 0\<rparr>) d2)"
    using list at(1,2) len lst conn(1,3) ws ibv_goodD(5)[OF v]
    by (simp add: stop_conn_def conn_of_def get_conn_def send_stop_def send_message_def put_conn_def)
  moreover have "\<not> daemon_inv (put_conn cid (conn2\<lparr>stop_sem := 0\<rparr>) d2)" using d2(2) by (simp add: daemon_inv_def put_conn_def)
  ultimately show ?thesis by blast
qed

text \<open>A concrete session with loans: \<open>own i\<close> is the slot that chunk \<open>i\<close> is lent to, or -1; the chunks of \<open>E\<close>
  are allocated in any case; \<open>msg c\<close> is the
  message under construction for slot \<open>c\<close>.\<close>

definition tenant :: "(nat \<Rightarrow> int) \<Rightarrow> IS_rdma_info \<Rightarrow> nat \<Rightarrow> connection" where
  "tenant own m c = (placed m c)\<lparr>connected := True,
     sess_chunk_map := map (\<lambda>i. if own i = int c then int i else -1) [0..<MAX_MR_SIZE_GB],
     mapped_chunk_size := count_if (\<lambda>e. e = int c) (map own [0..<MAX_FREE_MEM_GB])\<rparr>"

definition tenancy :: "nat \<Rightarrow> (nat \<Rightarrow> int) \<Rightarrow> nat set \<Rightarrow> (nat \<Rightarrow> IS_rdma_info) \<Rightarrow> daemon" where
  "tenancy n own E msg =
     (let cm = map own [0..<MAX_FREE_MEM_GB]; used = (\<lambda>c. count_if (\<lambda>e. e = int c) cm)
      in \<lparr>conns = map (\<lambda>c. if c < n then Some c else None) [0..<MAX_CLIENT],
          conns_state = map (\<lambda>c. if c < n then if used c = 0 then CONN_CONNECTED else CONN_MAPPED else CONN_IDLE) [0..<MAX_CLIENT],
          conn_num = int n,
          rdma_remote = \<lparr>region_list = map (\<lambda>i. if own i = -1 \<and> i \<notin> E then Null else Live) [0..<MAX_FREE_MEM_GB],
            mr_list = map (\<lambda>i. if own i = -1 then Null else Live) [0..<MAX_FREE_MEM_GB],
            mem_size_gb = count_if (\<lambda>i. own i \<noteq> -1 \<or> i \<in> E) [0..<MAX_FREE_MEM_GB], mapped_size = count_if (\<lambda>c. c \<noteq> -1) cm, conn_map = cm,
            malloc_map = map (\<lambda>i. if own i = -1 \<and> i \<notin> E then CHUNK_EMPTY else CHUNK_MALLOCED) [0..<MAX_FREE_MEM_GB],
            conn_chunk_map = replicate MAX_FREE_MEM_GB (-1)\<rparr>,
          heap = (\<lambda>c. if c < n then Some (tenant own (msg c) c) else None),
          s_ctx = Some 0, running = True\<rparr>)"

lemma tenancy_mem:
  assumes "\<forall>i < MAX_FREE_MEM_GB. own i = -1 \<or> 0 \<le> own i \<and> own i < int n" "n \<le> MAX_CLIENT"
  shows "mem_inv (rdma_remote (tenancy n own E msg))"
    "i < MAX_FREE_MEM_GB \<Longrightarrow> lent (abs_mem (rdma_remote (tenancy n own E msg))) i = (if own i = -1 then None else Some (nat (own i)))"
proof -
  have ne: "CHUNK_EMPTY \<noteq> CHUNK_MALLOCED" by (simp add: CHUNK_MALLOCED_def CHUNK_EMPTY_def)
  have "count_if (\<lambda>m. m = CHUNK_MALLOCED) (map (\<lambda>i. if own i = -1 \<and> i \<notin> E then CHUNK_EMPTY else CHUNK_MALLOCED) [0..<MAX_FREE_MEM_GB]) =
      count_if (\<lambda>i. own i \<noteq> -1 \<or> i \<in> E) [0..<MAX_FREE_MEM_GB]"
    using ne by (intro count_if_cong) simp_all
  then show "mem_inv (rdma_remote (tenancy n own E msg))"
    using assms ne by (auto simp: mem_inv_def tenancy_def Let_def)
  show "i < MAX_FREE_MEM_GB \<Longrightarrow> lent (abs_mem (rdma_remote (tenancy n own E msg))) i = (if own i = -1 then None else Some (nat (own i)))"
    by (simp add: abs_mem_def tenancy_def Let_def)
qed

lemma tenancy_inv:
  assumes own: "\<forall>i < MAX_FREE_MEM_GB. own i = -1 \<or> 0 \<le> own i \<and> own i < int n" and n: "n \<le> MAX_CLIENT" and msg: "\<forall>c < n. msg_wf (msg c)"
  shows "daemon_inv (tenancy n own E msg)"
proof -
  let ?d = "tenancy n own E msg"
  have "{i. i < length (conns ?d) \<and> conns ?d ! i \<noteq> None} = {..<n}"
    using n by (auto simp: tenancy_def Let_def split: if_splits)
  then have "count_if (\<lambda>x. x \<noteq> None) (conns ?d) = int n" unfolding count_if_def length_filter_conv_card by simp
  moreover have "slot_inv ?d c" if c: "c < MAX_CLIENT" for c
  proof (cases "c < n")
    case True
    then show ?thesis using c msg
      by (simp add: slot_inv_def tenancy_def Let_def conn_inv_def tenant_def placed_def new_conn_def MAX_sizes)
  next
    case False
    have "own i \<noteq> int c" if "i < MAX_FREE_MEM_GB" for i using own [rule_format, OF that] False by auto
    then show ?thesis using c False by (simp add: slot_inv_def tenancy_def Let_def)
  qed
  moreover have "\<exists>c < MAX_CLIENT. conn_index conn = Some (int c) \<and> conns ?d ! c = Some cid" if "heap ?d cid = Some conn" for cid conn
    using that n by (intro exI [of _ cid]) (auto simp: tenancy_def Let_def tenant_def placed_def split: if_splits)
  ultimately show ?thesis using tenancy_mem(1)[OF own n, of E msg] by (simp add: daemon_inv_def) (simp add: tenancy_def Let_def)
qed

definition own_ex :: "nat \<Rightarrow> int" where
  "own_ex i = (if i < 2 then 0 else if i = 2 then 1 else -1)"

definition msg_ex :: "nat \<Rightarrow> IS_rdma_info" where
  "msg_ex c = (zero_msg EVICT)\<lparr>rkey := map (\<lambda>i. if own_ex i = int c then 1 else 0) [0..<MAX_MR_SIZE_GB], size_gb := (if c = 0 then 2 else 1)\<rparr>"

lemma tenancy_ex: "daemon_inv (tenancy 2 own_ex {} msg_ex)"
  "i < MAX_FREE_MEM_GB \<Longrightarrow> lent (abs_mem (rdma_remote (tenancy 2 own_ex {} msg_ex))) i = (if own_ex i = -1 then None else Some (nat (own_ex i)))"
proof -
  have own: "\<forall>i < MAX_FREE_MEM_GB. own_ex i = -1 \<or> 0 \<le> own_ex i \<and> own_ex i < int 2" and n: "2 \<le> MAX_CLIENT"
    by (simp_all add: own_ex_def MAX_CLIENT_def)
  then show "daemon_inv (tenancy 2 own_ex {} msg_ex)"
    by (intro tenancy_inv) (simp_all add: msg_ex_def zero_msg_def msg_wf_def)
  show "i < MAX_FREE_MEM_GB \<Longrightarrow> lent (abs_mem (rdma_remote (tenancy 2 own_ex {} msg_ex))) i = (if own_ex i = -1 then None else Some (nat (own_ex i)))"
    using tenancy_mem(2)[OF own n] .
qed

theorem stop_size_of_last_client_witness:
  "\<exists>d'. stop_conn True ibv_ex (\<lambda>_ m. Some (m\<lparr>mtype := DONE\<rparr>)) ([2, 2] @ replicate 30 (-1)) (Some 0) 1 ([], tenancy 2 own_ex {} msg_ex) =
      Inr ([(1, (msg_ex 1)\<lparr>mtype := STOP, size_gb := 2\<rparr>)], d') \<and> \<not> daemon_inv d'"
proof -
  let ?d = "tenancy 2 own_ex {} msg_ex" and ?cn = "tenant own_ex (msg_ex 1) 1" and ?l = "[2, 2] @ replicate 30 (-1) :: int list"
    and ?peer = "(\<lambda>_ m. Some (m\<lparr>mtype := DONE\<rparr>)) :: peer"
  have sm: "send_msg (tenant own_ex m c) = m" for m c by (simp add: tenant_def placed_def new_conn_def)
  have mk: "marked (msg_ex 1) = {2}" by (auto simp: marked_def msg_ex_def zero_msg_def own_ex_def MAX_MR_SIZE_GB_def split: if_splits)
  have conn: "heap ?d 1 = Some ?cn" "conn_index ?cn = Some (int 1)" "connected ?cn" "posted ?cn \<noteq> 0" "stop_sem ?cn = 0"
    by (simp_all add: tenancy_def Let_def tenant_def placed_def new_conn_def)
  have l: "length ?l = MAX_CLIENT" "?l ! 1 = 2" by (simp_all add: MAX_CLIENT_def)
  have marks: "\<forall>j \<in> marked (send_msg ?cn). lent (abs_mem (rdma_remote ?d)) j = Some 1"
    unfolding sm mk using tenancy_ex(2)[of 2] by (simp add: own_ex_def MAX_FREE_MEM_GB_def)
  have lst: "conns ?d ! 0 = Some 0" "0 < MAX_CLIENT" "heap ?d 0 = Some (tenant own_ex (msg_ex 0) 0)"
    "2 = size_gb (send_msg (tenant own_ex (msg_ex 0) 0))" "(2 :: int) \<noteq> 0" "(2 :: int) \<noteq> int (card (marked (send_msg ?cn)))"
    unfolding sm mk by (simp_all add: tenancy_def Let_def MAX_CLIENT_def msg_ex_def)
  have echo: "?peer 1 ((send_msg ?cn)\<lparr>mtype := STOP, size_gb := 2\<rparr>) = Some ((send_msg ?cn)\<lparr>mtype := DONE, size_gb := 2\<rparr>)" by simp
  from stop_size_of_last_client [OF tenancy_ex(1) conn l marks lst ibv_ex_good, of ?peer True "[]", OF echo]
  show ?thesis by (simp add: sm)
qed

end
