(* ===== verification/Daemon_Run.thy ===== *)
theory Daemon_Run
  imports Daemon_Evict
begin

text \<open>
  The daemon as a state machine: its start, and one step for every event, message and action of the
  memory thread, in any order and with any number of clients that keep the contract. The handlers of
  the three threads are taken as atomic; evictions that need an answer of a client are not a step of
  this machine.
\<close>

inductive daemon_step :: "bool \<Rightarrow> ibv \<Rightarrow> daemon \<Rightarrow> daemon \<Rightarrow> bool" for le v where
  connect: "\<lbrakk>heap d cid = None; same_verbs verbs d; conn_num d < int MAX_CLIENT; msg_wf fresh;
     on_event v cid (Connect_Request verbs True fresh) d = Inr (out, d')\<rbrakk> \<Longrightarrow> daemon_step le v d d'"
| establish: "\<lbrakk>heap d cid = Some conn; on_event v cid Established d = Inr (out, d')\<rbrakk> \<Longrightarrow> daemon_step le v d d'"
| disconnect: "\<lbrakk>heap d cid = Some conn; on_event v cid Disconnected d = Inr (out, d')\<rbrakk> \<Longrightarrow> daemon_step le v d d'"
| message: "\<lbrakk>heap d cid = Some conn; conn_index conn = Some (int c); connected conn; posted conn \<noteq> 0;
     fits c m (abs_mem (rdma_remote d)); on_completion le v cid True (Wc_Recv m) d = Inr (out, d')\<rbrakk> \<Longrightarrow> daemon_step le v d d'"
| sent: "\<lbrakk>heap d cid = Some conn; on_completion le v cid True Wc_Send d = Inr (out, d')\<rbrakk> \<Longrightarrow> daemon_step le v d d'"
| grow: "\<lbrakk>FREE_MEM_EXPAND_THRESHOLD < g; \<forall>i < MAX_FREE_MEM_GB. ok i;
     expand_mem ok (expand_size g (rdma_remote d)) (rdma_remote d) = Inr r'\<rbrakk> \<Longrightarrow> daemon_step le v d (d\<lparr>rdma_remote := r'\<rparr>)"
| shrink: "\<lbrakk>0 < g; g \<le> int (card (spare (abs_mem (rdma_remote d)))); evict_mem le v peer rnd g d = Inr (out, d')\<rbrakk>
     \<Longrightarrow> daemon_step le v d d'"

inductive daemon_reach :: "bool \<Rightarrow> ibv \<Rightarrow> daemon \<Rightarrow> bool" for le v where
  start: "\<lbrakk>get_free_mem meminfo = Inr kb; 0 \<le> kb; kb < 2 ^ 51; \<forall>i < MAX_FREE_MEM_GB. ok i;
     rdma_session_init ok meminfo zero_session = Inr d\<rbrakk> \<Longrightarrow> daemon_reach le v d"
| step: "\<lbrakk>daemon_reach le v d; daemon_step le v d d'\<rbrakk> \<Longrightarrow> daemon_reach le v d'"

inductive_simps daemon_step_iff: "daemon_step le v d d'"

lemma first_idle:
  assumes inv: "daemon_inv d" and room: "conn_num d < int MAX_CLIENT"
  obtains c where "c < MAX_CLIENT" "conns d ! c = None" "\<forall>i < c. conns d ! i \<noteq> None"
proof -
  have len: "length (conns d) = MAX_CLIENT" and "count_if (\<lambda>x. x \<noteq> None) (conns d) \<noteq> int (length (conns d))"
    using inv room by (simp_all add: daemon_inv_def)
  then have ex: "\<exists>i. i < MAX_CLIENT \<and> conns d ! i = None" unfolding count_if_full_iff by auto
  define c where "c = (LEAST i. i < MAX_CLIENT \<and> conns d ! i = None)"
  have c: "c < MAX_CLIENT" "conns d ! c = None" using LeastI_ex [OF ex] by (simp_all add: c_def)
  have "conns d ! i \<noteq> None" if "i < c" for i
    using not_less_Least [of i "\<lambda>i. i < MAX_CLIENT \<and> conns d ! i = None"] that c(1) by (simp add: c_def)
  with c that show thesis by blast
qed

lemma sent_ok:
  assumes inv: "daemon_inv d" and conn: "heap d cid = Some conn"
  shows "\<exists>d'. on_completion le v cid True Wc_Send d = Inr ([], d') \<and> daemon_inv d'"
proof -
  obtain c where "conn_inv (rdma_remote d) c conn" by (rule daemon_invE [OF inv conn])
  then have "daemon_inv (d\<lparr>heap := (heap d)(cid := Some (conn\<lparr>cq_qp_state := CQ_QP_IDLE\<rparr>))\<rparr>)"
    by (intro daemon_inv_msg [OF inv conn]) (simp_all add: conn_inv_def)
  then show ?thesis using conn by (simp add: on_completion_def set_cq_busy_def get_conn_def put_conn_def)
qed

lemma index_of:
  assumes "daemon_inv d" "heap d cid = Some conn"
  obtains c where "conn_index conn = Some (int c)"
  using daemon_invE [OF assms] by (metis conn_inv_def)

lemma daemon_step_inv:
  assumes "daemon_step le v d d'" "daemon_inv d" "ibv_good v"
  shows "daemon_inv d'"
  using assms
proof (induction rule: daemon_step.induct)
  case (connect d cid verbs fresh out d')
  obtain c where "c < MAX_CLIENT" "conns d ! c = None" "\<forall>i < c. conns d ! i \<noteq> None"
    using connect(3,6) first_idle by blast
  from connect_ok [OF connect(6,1,7,2,4) this] connect(5) show ?case by (auto simp: on_event_def)
next
  case (establish d cid conn out d')
  then show ?case using established_ok [of d cid conn v] by auto
next
  case (disconnect d cid conn out d')
  obtain c where "conn_index conn = Some (int c)" using disconnect(1,3) index_of by blast
  from destroy_ok [OF disconnect(3,1) this] disconnect(2) show ?case by (auto simp: on_event_def on_disconnect_def)
next
  case (message d cid conn c m out d')
  then show ?case using on_completion_ok [of d cid conn c v m le] by auto
next
  case (sent d cid conn out d')
  then show ?case using sent_ok [of d cid conn le v] by auto
next
  case (grow g ok d r')
  then show ?case using expand_mem_ok [OF grow(4,1) refl grow(2)] by auto
next
  case (shrink g d peer rnd out d')
  then show ?case using evict_mem_spare_ok [OF shrink(4,1,2), of le v peer rnd] by auto
qed

lemma daemon_reach_inv:
  assumes "daemon_reach le v d" "ibv_good v"
  shows "daemon_inv d"
  using assms
proof (induction rule: daemon_reach.induct)
  case (start meminfo kb ok d)
  have "nat (lend_target (kb div ONE_MB)) \<le> MAX_FREE_MEM_GB"
    using lend_target_bounds(2)[of "kb div ONE_MB"] by (simp add: MAX_FREE_MEM_GB_def)
  then show ?case using rdma_session_init_eq [OF start(1-4)] start(5) crowd_inv [of 0] by (auto simp: daemon_inv_ctx)
next
  case (step d d')
  then show ?case using daemon_step_inv by blast
qed

text \<open>
  C8: The daemon in operation. From its start, through any interleaving of connections, messages of
  clients that keep the contract, disconnections, expansions and evictions of spare chunks, with any
  number of clients up to 32, the tables agree; a chunk is lent to a connected client that has it in
  its own table, or is spare; and every further message within the contract and every disconnection
  is handled without an error.
\<close>

theorem daemon_always_consistent:
  assumes "daemon_reach le v d" "ibv_good v"
  shows "daemon_inv d \<and>
     (\<forall>i c. lent (abs_mem (rdma_remote d)) i = Some c \<longrightarrow>
        (\<exists>cid conn. c < MAX_CLIENT \<and> conns d ! c = Some cid \<and> heap d cid = Some conn \<and> sess_chunk_map conn ! i = int i)) \<and>
     (\<forall>cid conn c m. heap d cid = Some conn \<and> conn_index conn = Some (int c) \<longrightarrow>
        is_ok (on_event v cid Disconnected d) \<and>
        (connected conn \<and> posted conn \<noteq> 0 \<and> fits c m (abs_mem (rdma_remote d)) \<longrightarrow>
           is_ok (on_completion le v cid True (Wc_Recv m) d)))"
proof -
  have inv: "daemon_inv d" using daemon_reach_inv [OF assms] .
  then have mem: "mem_inv (rdma_remote d)" by (simp add: daemon_inv_def)
  have "\<exists>cid conn. c < MAX_CLIENT \<and> conns d ! c = Some cid \<and> heap d cid = Some conn \<and> sess_chunk_map conn ! i = int i"
    if l: "lent (abs_mem (rdma_remote d)) i = Some c" for i c
  proof -
    have i: "i < MAX_FREE_MEM_GB" using l by (simp add: abs_mem_def split: if_splits)
    then have at: "lent_at (rdma_remote d) i = int c" using lent_abs [OF mem] l by blast
    then have c: "c < MAX_CLIENT" using mem_invD(10)[OF mem i] by simp
    show ?thesis
    proof (cases "conns d ! c")
      case None
      then show ?thesis using daemon_inv_slot [OF inv c] i at by (simp add: slot_inv_def)
    next
      case (Some cid)
      then show ?thesis using daemon_inv_slot [OF inv c] i at c by (auto simp: slot_inv_def conn_inv_def MAX_sizes)
    qed
  qed
  moreover have "is_ok (on_event v cid Disconnected d)" if "heap d cid = Some conn" "conn_index conn = Some (int c)" for cid conn c
    using destroy_ok [OF inv that] by (auto simp: on_event_def on_disconnect_def is_ok_iff)
  moreover have "is_ok (on_completion le v cid True (Wc_Recv m) d)"
    if "heap d cid = Some conn" "conn_index conn = Some (int c)" "connected conn" "posted conn \<noteq> 0" "fits c m (abs_mem (rdma_remote d))"
    for cid conn c m
    using on_completion_ok [OF inv that(1-4) assms(2) that(5), of le] by (auto simp: is_ok_iff)
  ultimately show ?thesis using inv by blast
qed

theorem daemon_always_consistent_witness:
  "\<exists>d. daemon_reach True ibv_ex d \<and> heap d 7 \<noteq> None \<and> daemon_inv d \<and> is_ok (on_event ibv_ex 7 Disconnected d)"
proof -
  let ?d0 = "(crowd 0 (nat (lend_target (20971520 div ONE_MB))))\<lparr>s_ctx := None\<rparr>"
  have r0: "daemon_reach True ibv_ex ?d0"
    using rdma_session_init_eq [OF meminfo_ex, of "\<lambda>_. True"] by (intro daemon_reach.start [OF meminfo_ex, of "\<lambda>_. True"]) simp_all
  then have inv: "daemon_inv ?d0" using daemon_reach_inv ibv_ex_good by blast
  have "conns ?d0 ! 0 = None" "heap ?d0 7 = None" "same_verbs 0 ?d0" "conn_num ?d0 < int MAX_CLIENT"
    by (simp_all add: crowd_def MAX_CLIENT_def same_verbs_def)
  then obtain d1 where d1: "on_connect_request ibv_ex (zero_msg QUERY) 0 7 True ?d0 = Inr d1" "heap d1 = (heap ?d0)(7 := Some (placed (zero_msg QUERY) 0))"
    using connect_ok [OF inv _ ibv_ex_good, of 7 0 "zero_msg QUERY" 0] by (auto simp: MAX_CLIENT_def)
  then have r1: "daemon_reach True ibv_ex d1"
    using \<open>heap ?d0 7 = None\<close> \<open>same_verbs 0 ?d0\<close> \<open>conn_num ?d0 < int MAX_CLIENT\<close>
    by (intro daemon_reach.step [OF r0] daemon_step.connect [of ?d0 7 0 "zero_msg QUERY" ibv_ex "[]"]) (simp_all add: on_event_def)
  have "heap d1 7 = Some (placed (zero_msg QUERY) 0)" "conn_index (placed (zero_msg QUERY) 0) = Some (int 0)"
    using d1(2) by (simp_all add: placed_def)
  with daemon_always_consistent [OF r1 ibv_ex_good] r1 show ?thesis by blast
qed

end
