(* ===== verification/Failover.thy ===== *)
theory Failover
  imports Evict
begin

text \<open>
  The loss of a server: \<open>IS_disconnect_handler\<close> and the event handler that calls it (\<open>is_main.c\<close>). All
  chunks of the server are unmapped, transfers in flight are redirected to the disk or completed, the
  server's context pools are freed, and every lost chunk is mapped anew.
\<close>

section \<open>Requests\<close>

text \<open>What happens to a request: it is sent to the backup disk, or reported as complete.\<close>

datatype req_event = To_Disk nat | Completed nat

section \<open>The handler\<close>

text \<open>The chunk \<open>i\<close> may not be used any more.\<close>

definition drop_chunk :: "nat \<Rightarrow> nat \<Rightarrow> IS_session \<times> int list \<Rightarrow> (IS_session \<times> int list) res" where
  "drop_chunk c i = (\<lambda>(s, evict_list).
     let rc = rc_at s c in
     bind_res (arr_get (chunk_map rc) (int i)) (\<lambda>g.
       if g \<noteq> -1
       then bind_res (arr_set evict_list g 1) (\<lambda>ev.
            bind_res (arr_get (chunk_list rc) (int i)) (\<lambda>ch.
            bind_res (case bitmap_g ch of None \<Rightarrow> Inl Null_Deref | Some bm \<Rightarrow> IS_bitmap_init bm) (\<lambda>bm.
            bind_res (arr_set (chunk_list rc) (int i) (ch\<lparr>bitmap_g := Some bm\<rparr>)) (\<lambda>cl.
            bind_res (arr_set (remote_mapped rc) (int i) CHUNK_UNMAPPED) (\<lambda>rm.
            bind_res (arr_set (cb_index_map s) g NO_CB_MAPPED) (\<lambda>cim.
              Inr (upd_rc c (\<lambda>rc. rc\<lparr>chunk_list := cl, remote_mapped := rm\<rparr>) (s\<lparr>cb_index_map := cim\<rparr>), ev)))))))
       else Inr (s, evict_list)))"

text \<open>
  A context of the lost server: a read in flight goes to the disk and its context back to the pool; a
  write in flight, which the disk has too, is complete unless the disk has already reported it.
\<close>

definition flush_ctx :: "nat \<Rightarrow> ctx_pool_list \<times> req_event list \<Rightarrow> (ctx_pool_list \<times> req_event list) res" where
  "flush_ctx j = (\<lambda>(p, evs).
     bind_res (arr_get (ctx_pool p) (int j)) (\<lambda>ctx.
       let p1 = p\<lparr>ctx_pool := (ctx_pool p)[j := ctx\<lparr>in_flight := CTX_IDLE\<rparr>]\<rparr> in
       if in_flight ctx = CTX_R_IN_FLIGHT
       then (case ctx_req ctx of None \<Rightarrow> Inl Null_Deref
             | Some r \<Rightarrow> bind_res (IS_insert_ctx p1 j) (\<lambda>p2. Inr (p2, evs @ [To_Disk r])))
       else if in_flight ctx = CTX_W_IN_FLIGHT
       then Inr (p1, case ctx_req ctx of None \<Rightarrow> evs | Some r \<Rightarrow> evs @ [Completed r])
       else Inr (p, evs)))"

definition flush_pool :: "ctx_pool_list \<Rightarrow> (ctx_pool_list \<times> req_event list) res" where
  "flush_pool p = for_res flush_ctx [0..<IS_QUEUE_DEPTH] (p, [])"

fun flush_conns :: "nat \<Rightarrow> IS_connection list \<Rightarrow> (IS_connection list \<times> req_event list) res" where
  "flush_conns c [] = Inr ([], [])"
| "flush_conns c (conn # conns) =
     bind_res (arr_get (ctx_pools conn) (int c)) (\<lambda>p.
     bind_res (flush_pool p) (\<lambda>(p', evs).
     bind_res (flush_conns c conns) (\<lambda>(conns', evs').
       Inr (conn\<lparr>ctx_pools := (ctx_pools conn)[c := p']\<rparr> # conns', evs @ evs'))))"

text \<open>The chunk \<open>i\<close> becomes free in both tables.\<close>

definition unmap_chunk :: "nat \<Rightarrow> nat \<Rightarrow> IS_session \<Rightarrow> IS_session res" where
  "unmap_chunk c i s =
     bind_res (arr_get (chunk_map (rc_at s c)) (int i)) (\<lambda>g.
       if g \<noteq> -1
       then bind_res (arr_set (chunk_map_cb_chunk s) g (-1)) (\<lambda>mcc.
            bind_res (arr_set (unmapped_chunk_list s) (free_chunk_index s + 1) g) (\<lambda>ucl.
            bind_res (arr_set (chunk_map (rc_at s c)) (int i) (-1)) (\<lambda>cm.
              Inr (upd_rc c (\<lambda>rc. rc\<lparr>chunk_map := cm\<rparr>)
                (s\<lparr>chunk_map_cb_chunk := mcc, free_chunk_index := free_chunk_index s + 1,
                   unmapped_chunk_list := ucl\<rparr>)))))
       else Inr s)"

text \<open>The pools of the server are freed and replaced by empty ones.\<close>

fun free_pools :: "nat \<Rightarrow> IS_connection list \<Rightarrow> IS_connection list res" where
  "free_pools c [] = Inr []"
| "free_pools c (conn # conns) =
     bind_res (arr_get (ctx_pools conn) (int c)) (\<lambda>p.
       if free_ctxs p = None then Inl Null_Deref
       else bind_res (free_pools c conns) (\<lambda>conns'.
              Inr (conn\<lparr>ctx_pools := (ctx_pools conn)[c := zero_pool_list]\<rparr> # conns')))"

definition remap_lost ::
  "bool \<Rightarrow> (nat \<Rightarrow> IS_session \<Rightarrow> net) \<Rightarrow> nat \<Rightarrow> nat \<Rightarrow> int list \<Rightarrow> nat \<Rightarrow> IS_session \<Rightarrow> IS_session res option" where
  "remap_lost le env m NUM_CB evict_list g s =
     bind_ro (Some (arr_get evict_list (int g))) (\<lambda>e.
       if e = 1 then remap_chunk le env m NUM_CB g s else Some (Inr s))"

definition drop_server :: "nat \<Rightarrow> IS_session \<Rightarrow> (IS_session \<times> int list \<times> req_event list) res" where
  "drop_server c s =
     bind_res (for_res (drop_chunk c) [0..<MAX_MR_SIZE_GB]
        (s\<lparr>trigger_enable := TRIGGER_OFF, rdma_on := DEV_RDMA_OFF\<rparr>, replicate STACKBD_SIZE_G (-1)))
      (\<lambda>(s1, evict_list).
     bind_res (flush_conns c (IS_conns s1)) (\<lambda>(conns, evs).
     bind_res (for_res (unmap_chunk c) [0..<MAX_MR_SIZE_GB]
        (upd_rc c (\<lambda>rc. rc\<lparr>chunk_size_g := 0\<rparr>) (s1\<lparr>IS_conns := conns\<rparr>))) (\<lambda>s2.
     bind_res (free_pools c (IS_conns s2)) (\<lambda>conns'.
       Inr (s2\<lparr>IS_conns := conns', rdma_on := DEV_RDMA_ON\<rparr>, evict_list, evs)))))"

definition IS_disconnect_handler ::
  "bool \<Rightarrow> (nat \<Rightarrow> IS_session \<Rightarrow> net) \<Rightarrow> nat \<Rightarrow> nat \<Rightarrow> nat \<Rightarrow> IS_session \<Rightarrow> (int \<times> req_event list \<times> IS_session) res option"
  where
  "IS_disconnect_handler le env m NUM_CB c s =
     bind_ro (Some (arr_get (cb_state_list s) (cb_index (cb_at s c)))) (\<lambda>st.
     bind_ro (Some (set_cb_state c CB_FAIL s)) (\<lambda>s0.
       if st = CB_CONNECTED then Some (Inr (cb_index (cb_at s c), [], s0))
       else bind_ro (Some (drop_server c s0)) (\<lambda>(s1, evict_list, evs).
            bind_ro (for_ro (remap_lost le env m NUM_CB evict_list) [0..<STACKBD_SIZE_G] s1) (\<lambda>s2.
              Some (Inr (0, evs, s2\<lparr>trigger_enable := TRIGGER_ON\<rparr>))))))"

text \<open>\<open>IS_cma_event_handler\<close>: the return value is 0, or \<open>-1\<close> when the device is removed.\<close>

definition IS_cma_event_handler ::
  "bool \<Rightarrow> (nat \<Rightarrow> IS_session \<Rightarrow> net) \<Rightarrow> nat \<Rightarrow> nat \<Rightarrow> cm_event \<Rightarrow> nat \<Rightarrow> IS_session \<Rightarrow>
     (int \<times> req_event list \<times> IS_session) res option" where
  "IS_cma_event_handler le env m NUM_CB ev c s =
     (case cma_event_state ev (cb_at s c) of (ok, cb) \<Rightarrow>
        let s1 = upd_cb c (\<lambda>_. cb) s
        in if ev = DISCONNECTED_EV
           then bind_ro (IS_disconnect_handler le env m NUM_CB c s1) (\<lambda>(_, evs, s2). Some (Inr (0, evs, s2)))
           else Some (Inr (if ok then 0 else -1, [], s1)))"

section \<open>Requests in flight\<close>













section \<open>The tables\<close>


















section \<open>The session without the server\<close>





section \<open>New homes\<close>



section \<open>Properties\<close>






end
