(* ===== verification/Request.thy ===== *)
theory Request
  imports Failover
begin

text \<open>
  The request path (\<open>is_mq.c\<close>, \<open>is_main.c\<close>): where a request of the block layer goes, to the backup
  disk or over RDMA, the queue of the disk, the work requests posted to the network, and their
  completions. Contents are modelled page by page. Requests are aligned to pages, as the swap layer
  issues them. The thread of the disk hands the bios
  over in order, the disk ends them in any order; a work request reads or writes the buffer
  of its context when the network executes it, and its completion is handled when the completion queue
  of its server is polled. Whether \<open>ib_post_send\<close> succeeds is a parameter.
\<close>

section \<open>Data\<close>

definition IS_SECT_SHIFT :: nat where "IS_SECT_SHIFT = 9"
definition ONE_GB_SHIFT :: nat where "ONE_GB_SHIFT = 30"
definition ONE_GB_MASK :: u64 where "ONE_GB_MASK = 0x3fffffff"

type_synonym page = nat

text \<open>A transfer context: connection, server and slot in the pool.\<close>

type_synonym ctx_ref = "nat \<times> nat \<times> nat"

text \<open>\<open>struct request\<close>: \<open>rq_segs\<close> are the numbers of segments of its bios, a segment being a page.\<close>

record request =
  rq_write :: bool
  rq_pos :: u64
  rq_len :: u64
  rq_addr :: u64
  rq_segs :: "nat list"

text \<open>A bio for the disk: which pages, the memory it reads or fills, and what its end does.\<close>

datatype bio_end = No_End | Ends_Request nat | Returns_Ctx ctx_ref

datatype bio_mem = Req_Pages nat nat | Ctx_Buf ctx_ref

record bio =
  bio_write :: bool
  bio_page :: nat
  bio_len :: nat
  bio_data :: bio_mem
  bi_end_io :: bio_end

datatype wr_opcode = RDMA_READ | RDMA_WRITE

record send_wr =
  wr_opcode :: wr_opcode
  wr_id :: ctx_ref
  wr_rkey :: u32
  wr_addr :: u64
  wr_len :: u64

text \<open>A work completion: its status, its kind with the context or the length of the message it is about.\<close>

datatype wc_status = WC_SUCCESS | WC_FLUSH_ERR | WC_FATAL

datatype wc_opcode = WC_RECV nat | WC_SEND | WC_RDMA_READ ctx_ref | WC_RDMA_WRITE ctx_ref | WC_OTHER

type_synonym ib_wc = "wc_status \<times> wc_opcode"

text \<open>
  The device in operation: the session, the requests with their pages, the buffers of the contexts, the
  backup disk with its queue (\<open>struct stackbd_t\<close>) and the bios the disk works on, the posted work requests
  and the completions of every server, the requests that have ended with their status, how often
  preemption is disabled, and the contents of the disk and of the memory of the servers.
\<close>

record io =
  sess :: IS_session
  reqs :: "nat \<Rightarrow> request option"
  pages :: "nat \<Rightarrow> page list"
  bufs :: "ctx_ref \<Rightarrow> page list"
  bdev_raw :: bool
  is_active :: bool
  bio_list :: "bio list"
  submitted :: "bio list"
  sq :: "nat \<Rightarrow> send_wr list"
  wcs :: "nat \<Rightarrow> ib_wc list"
  ended :: "(nat \<times> int) list"
  preempt_count :: int
  disk :: "nat \<Rightarrow> page"
  rmem :: "nat \<Rightarrow> u32 \<Rightarrow> u64 \<Rightarrow> page"

definition get_req :: "nat \<Rightarrow> io \<Rightarrow> request res" where
  "get_req r w = (case reqs w r of None \<Rightarrow> Inl Use_After_Free | Some rq \<Rightarrow> Inr rq)"

definition rq_start :: "request \<Rightarrow> u64" where
  "rq_start rq = push_bit IS_SECT_SHIFT (rq_pos rq)"

definition rq_page :: "request \<Rightarrow> nat" where
  "rq_page rq = unat (rq_start rq) div IS_PAGE_SIZE"

definition nr_phys_segments :: "request \<Rightarrow> nat" where
  "nr_phys_segments rq = sum_list (rq_segs rq)"

section \<open>The backup disk\<close>

text \<open>Clones of \<open>n\<close> bios of a request, one per segment as the code counts; the last one carries the
  end function. Going past the last bio follows a NULL pointer.\<close>

fun clone_bios :: "bool \<Rightarrow> nat \<Rightarrow> nat \<Rightarrow> nat \<Rightarrow> nat list \<Rightarrow> nat \<Rightarrow> bio_end \<Rightarrow> bio list res" where
  "clone_bios wrt r p off segs 0 e = Inr []"
| "clone_bios wrt r p off [] (Suc n) e = Inl Null_Deref"
| "clone_bios wrt r p off (k # segs) (Suc n) e =
     bind_res (clone_bios wrt r p (off + k) segs n e) (\<lambda>bs.
       Inr (\<lparr>bio_write = wrt, bio_page = p + off, bio_len = k, bio_data = Req_Pages r off,
             bi_end_io = (if n = 0 then e else No_End)\<rparr> # bs))"

text \<open>When the disk is not ready the routine calls \<open>bio_io_error\<close> on the NULL pointer \<open>bio\<close>.\<close>

definition stackbd_make_request2 :: "nat \<Rightarrow> io \<Rightarrow> io res" where
  "stackbd_make_request2 r w =
     bind_res (get_req r w) (\<lambda>rq.
       if \<not> bdev_raw w \<or> \<not> is_active w then Inl Null_Deref
       else bind_res (clone_bios (rq_write rq) r (rq_page rq) 0 (rq_segs rq) (max 1 (nr_phys_segments rq)) (Ends_Request r))
              (\<lambda>bs. Inr (w\<lparr>bio_list := bio_list w @ bs\<rparr>)))"

definition stackbd_make_request3 :: "nat \<Rightarrow> io \<Rightarrow> io res" where
  "stackbd_make_request3 r w =
     bind_res (get_req r w) (\<lambda>rq.
       if \<not> bdev_raw w \<or> \<not> is_active w then Inl Null_Deref
       else bind_res (clone_bios (rq_write rq) r (rq_page rq) 0 (rq_segs rq) (nr_phys_segments rq) No_End)
              (\<lambda>bs. Inr (w\<lparr>bio_list := bio_list w @ bs\<rparr>)))"

definition stackbd_make_request4 :: "nat \<Rightarrow> io \<Rightarrow> io res" where
  "stackbd_make_request4 r w =
     bind_res (get_req r w) (\<lambda>rq.
       if \<not> bdev_raw w \<or> \<not> is_active w then Inl Null_Deref
       else bind_res (clone_bios (rq_write rq) r (rq_page rq) 0 (rq_segs rq) (max 1 (nr_phys_segments rq)) (Ends_Request r))
              (\<lambda>bs. Inr (w\<lparr>bio_list := bio_list w @ bs\<rparr>)))"

text \<open>The bio of a context; when the disk is not ready it is dropped, having no end function.\<close>

definition stackbd_make_request5 :: "bio \<Rightarrow> io \<Rightarrow> io" where
  "stackbd_make_request5 b w =
     (if \<not> bdev_raw w \<or> \<not> is_active w then w else w\<lparr>bio_list := bio_list w @ [b]\<rparr>)"

definition IS_mq_request_stackbd :: "nat \<Rightarrow> io \<Rightarrow> io res" where
  "IS_mq_request_stackbd r w = stackbd_make_request2 r w"

definition IS_mq_request_stackbd2 :: "nat \<Rightarrow> io \<Rightarrow> io res" where
  "IS_mq_request_stackbd2 r w = stackbd_make_request4 r w"

section \<open>Contexts of the session\<close>

definition pool_of :: "int \<Rightarrow> IS_connection \<Rightarrow> ctx_pool_list" where
  "pool_of c conn = (if 0 \<le> c \<and> nat c < length (ctx_pools conn) then ctx_pools conn ! nat c else zero_pool_list)"

definition put_pools :: "int \<Rightarrow> ctx_pool_list list \<Rightarrow> IS_connection list \<Rightarrow> IS_connection list" where
  "put_pools c ps conns = map (\<lambda>(p, conn). conn\<lparr>ctx_pools := (ctx_pools conn)[nat c := p]\<rparr>) (zip ps conns)"

text \<open>The search for a free context, as in \<open>find_ctx\<close>.\<close>

definition take_ctx :: "int \<Rightarrow> int \<Rightarrow> u64 \<Rightarrow> IS_session \<Rightarrow> (ctx_ref \<times> IS_session) res option" where
  "take_ctx submit_queues c addr s =
     bind_ro (find_ctx submit_queues (map (pool_of c) (IS_conns s)) (first_conn addr)) (\<lambda>(conn, slot, ps).
       Some (Inr ((nat conn, nat c, slot), s\<lparr>IS_conns := put_pools c ps (IS_conns s)\<rparr>)))"

definition ctx_pool_at :: "ctx_ref \<Rightarrow> IS_session \<Rightarrow> ctx_pool_list res" where
  "ctx_pool_at cr s = (case cr of (k, c, j) \<Rightarrow>
     bind_res (arr_get (IS_conns s) (int k)) (\<lambda>conn. arr_get (ctx_pools conn) (int c)))"

definition set_pool :: "ctx_ref \<Rightarrow> ctx_pool_list \<Rightarrow> IS_session \<Rightarrow> IS_session" where
  "set_pool cr p s = (case cr of (k, c, j) \<Rightarrow>
     s\<lparr>IS_conns := (IS_conns s)[k := (IS_conns s ! k)\<lparr>ctx_pools := (ctx_pools (IS_conns s ! k))[c := p]\<rparr>]\<rparr>)"

definition ctx_at :: "ctx_ref \<Rightarrow> IS_session \<Rightarrow> rdma_ctx res" where
  "ctx_at cr s = bind_res (ctx_pool_at cr s) (\<lambda>p. arr_get (ctx_pool p) (int (snd (snd cr))))"

definition set_ctx :: "ctx_ref \<Rightarrow> (rdma_ctx \<Rightarrow> rdma_ctx) \<Rightarrow> io \<Rightarrow> io res" where
  "set_ctx cr f w =
     bind_res (ctx_pool_at cr (sess w)) (\<lambda>p.
     bind_res (ctx_at cr (sess w)) (\<lambda>x.
       Inr (w\<lparr>sess := set_pool cr (p\<lparr>ctx_pool := (ctx_pool p)[snd (snd cr) := f x]\<rparr>) (sess w)\<rparr>)))"

definition return_ctx :: "ctx_ref \<Rightarrow> io \<Rightarrow> io res" where
  "return_ctx cr w =
     bind_res (ctx_pool_at cr (sess w)) (\<lambda>p.
     bind_res (IS_insert_ctx p (snd (snd cr))) (\<lambda>p'. Inr (w\<lparr>sess := set_pool cr p' (sess w)\<rparr>)))"

text \<open>A bio given to the backup disk itself; \<open>bio_io_error\<close> calls its end function with an error.\<close>

definition bio_io_error :: "bio \<Rightarrow> io \<Rightarrow> io res" where
  "bio_io_error b w =
     (case bi_end_io b of No_End \<Rightarrow> Inr w | Ends_Request r \<Rightarrow> Inr (w\<lparr>ended := ended w @ [(r, -5)]\<rparr>)
      | Returns_Ctx cr \<Rightarrow> return_ctx cr w)"

definition stackbd_make_request :: "bio \<Rightarrow> io \<Rightarrow> io res" where
  "stackbd_make_request b w =
     (if \<not> bdev_raw w \<or> \<not> is_active w then bio_io_error b w else Inr (w\<lparr>bio_list := bio_list w @ [b]\<rparr>))"

section \<open>Transfers\<close>

definition post_send :: "bool \<Rightarrow> nat \<Rightarrow> send_wr \<Rightarrow> io \<Rightarrow> int \<times> io" where
  "post_send post_ok c wr w = (if post_ok then (0, w\<lparr>sq := (sq w)(c := sq w c @ [wr])\<rparr>) else (-1, w))"

definition IS_rdma_read ::
  "int \<Rightarrow> bool \<Rightarrow> int \<Rightarrow> int \<Rightarrow> remote_chunk_g \<Rightarrow> u64 \<Rightarrow> u64 \<Rightarrow> nat \<Rightarrow> io \<Rightarrow> (int \<times> io) res option" where
  "IS_rdma_read submit_queues post_ok c chunk_index chunk offset len r w =
     bind_ro (Some (get_req r w)) (\<lambda>rq.
     bind_ro (take_ctx submit_queues c (rq_addr rq) (sess w)) (\<lambda>(cr, s).
     Some (bind_res (set_ctx cr (\<lambda>x. x\<lparr>ctx_req := Some r, ctx_chunk_index := chunk_index, in_flight := CTX_R_IN_FLIGHT\<rparr>)
             (w\<lparr>sess := s\<rparr>)) (\<lambda>w.
       if rdma_on (sess w) \<noteq> DEV_RDMA_ON
       then bind_res (set_ctx cr (\<lambda>x. x\<lparr>in_flight := CTX_IDLE\<rparr>) w) (\<lambda>w.
            bind_res (return_ctx cr w) (\<lambda>w.
            bind_res (IS_mq_request_stackbd2 r w) (\<lambda>w. Inr (0, w))))
       else Inr (post_send post_ok (nat c) \<lparr>wr_opcode = RDMA_READ, wr_id = cr, wr_rkey = remote_rkey chunk,
                   wr_addr = remote_addr chunk + offset, wr_len = len\<rparr> w)))))"

text \<open>The pages of the request are copied into the buffer of the context, which has room for
  \<open>MAX_SGL_LEN\<close> pages.\<close>

definition mem_gather :: "ctx_ref \<Rightarrow> nat \<Rightarrow> io \<Rightarrow> io res" where
  "mem_gather cr r w =
     bind_res (get_req r w) (\<lambda>rq.
       if MAX_SGL_LEN < nr_phys_segments rq then Inl Out_Of_Bounds
       else Inr (w\<lparr>bufs := (bufs w)(cr := take (nr_phys_segments rq) (pages w r) @ drop (nr_phys_segments rq) (bufs w cr))\<rparr>))"

definition stackbd_bio_generate :: "ctx_ref \<Rightarrow> nat \<Rightarrow> io \<Rightarrow> io res" where
  "stackbd_bio_generate cr r w =
     bind_res (get_req r w) (\<lambda>rq.
       Inr (stackbd_make_request5 \<lparr>bio_write = rq_write rq, bio_page = rq_page rq, bio_len = nr_phys_segments rq,
              bio_data = Ctx_Buf cr, bi_end_io = Returns_Ctx cr\<rparr> w))"

definition IS_rdma_write ::
  "int \<Rightarrow> bool \<Rightarrow> int \<Rightarrow> int \<Rightarrow> remote_chunk_g \<Rightarrow> u64 \<Rightarrow> u64 \<Rightarrow> nat \<Rightarrow> io \<Rightarrow> (int \<times> io) res option" where
  "IS_rdma_write submit_queues post_ok c chunk_index chunk offset len r w =
     bind_ro (Some (get_req r w)) (\<lambda>rq.
     bind_ro (take_ctx submit_queues c (rq_addr rq) (sess w)) (\<lambda>(cr, s).
     Some (bind_res (set_ctx cr (\<lambda>x. x\<lparr>ctx_req := Some r, ctx_offset := offset, ctx_len := len,
                ctx_chunk_ptr := Some (nat c, nat chunk_index), ctx_chunk_index := chunk_index, in_flight := CTX_W_IN_FLIGHT\<rparr>)
             (w\<lparr>sess := s\<rparr>)) (\<lambda>w.
       if rdma_on (sess w) \<noteq> DEV_RDMA_ON
       then bind_res (set_ctx cr (\<lambda>x. x\<lparr>in_flight := CTX_IDLE\<rparr>) w) (\<lambda>w.
            bind_res (return_ctx cr w) (\<lambda>w.
            bind_res (IS_mq_request_stackbd2 r w) (\<lambda>w. Inr (0, w))))
       else bind_res (mem_gather cr r w) (\<lambda>w.
            bind_res (stackbd_bio_generate cr r w) (\<lambda>w.
              Inr (post_send post_ok (nat c) \<lparr>wr_opcode = RDMA_WRITE, wr_id = cr, wr_rkey = remote_rkey chunk,
                     wr_addr = remote_addr chunk + offset, wr_len = len\<rparr> w)))))))"

text \<open>\<open>get_cpu\<close> disables preemption and \<open>put_cpu\<close> enables it again, which the error path leaves out.\<close>

definition IS_transfer_chunk ::
  "int \<Rightarrow> bool \<Rightarrow> int \<Rightarrow> int \<Rightarrow> remote_chunk_g \<Rightarrow> u64 \<Rightarrow> u64 \<Rightarrow> bool \<Rightarrow> nat \<Rightarrow> io \<Rightarrow> (int \<times> io) res option" where
  "IS_transfer_chunk submit_queues post_ok c chunk_index chunk offset len wrt r w =
     (let w = w\<lparr>preempt_count := preempt_count w + 1\<rparr>
      in bind_ro (if wrt then IS_rdma_write submit_queues post_ok c chunk_index chunk offset len r w
                  else IS_rdma_read submit_queues post_ok c chunk_index chunk offset len r w) (\<lambda>(retval, w).
           Some (Inr (if retval \<noteq> 0 then (retval, w) else (0, w\<lparr>preempt_count := preempt_count w - 1\<rparr>)))))"

section \<open>Requests\<close>

definition count_op :: "bool \<Rightarrow> int \<Rightarrow> IS_session \<Rightarrow> IS_session res" where
  "count_op wrt g s =
     (if wrt
      then bind_res (arr_get (write_ops s) g) (\<lambda>n. bind_res (arr_set (write_ops s) g (n + 1)) (\<lambda>l. Inr (s\<lparr>write_ops := l\<rparr>)))
      else bind_res (arr_get (read_ops s) g) (\<lambda>n. bind_res (arr_set (read_ops s) g (n + 1)) (\<lambda>l. Inr (s\<lparr>read_ops := l\<rparr>))))"

text \<open>The control block and remote chunk of a session chunk.\<close>

definition chunk_of :: "int \<Rightarrow> int \<Rightarrow> IS_session \<Rightarrow> (int \<times> remote_chunk_g) res" where
  "chunk_of c g s =
     bind_res (arr_get (cb_list s) c) (\<lambda>cb.
     bind_res (arr_get (chunk_map_cb_chunk s) g) (\<lambda>i.
     bind_res (arr_get (chunk_list (remote_chunk cb)) i) (\<lambda>ch. Inr (i, ch))))"

text \<open>A write over two chunks forgets the remote copies of its pages in one of them.\<close>

definition forget_pages :: "bool \<Rightarrow> int \<Rightarrow> int \<Rightarrow> u64 \<Rightarrow> u64 \<Rightarrow> IS_session \<Rightarrow> IS_session res" where
  "forget_pages wrt c g offset len s =
     (if c = NO_CB_MAPPED then Inr s
      else bind_res (chunk_of c g s) (\<lambda>(i, ch).
           if \<not> wrt then Inr s
           else bind_res (case bitmap_g ch of None \<Rightarrow> Inl Null_Deref | Some bm \<Rightarrow> IS_bitmap_group_clear bm offset len) (\<lambda>bm.
                  Inr (upd_rc (nat c) (\<lambda>rc. rc\<lparr>chunk_list := (chunk_list rc)[nat i := ch\<lparr>bitmap_g := Some bm\<rparr>]\<rparr>) s))))"

definition IS_request :: "int \<Rightarrow> bool \<Rightarrow> nat \<Rightarrow> io \<Rightarrow> (int \<times> io) res option" where
  "IS_request submit_queues post_ok r w =
     bind_ro (Some (get_req r w)) (\<lambda>rq.
       let wrt = rq_write rq; start = rq_start rq; len = rq_len rq;
           g = int_of_ulong (drop_bit ONE_GB_SHIFT start);
           e = int_of_ulong (drop_bit ONE_GB_SHIFT (start + len - of_nat IS_PAGE_SIZE));
           chunk_offset = start AND ONE_GB_MASK;
           to_disk = (\<lambda>w. Some (bind_res (IS_mq_request_stackbd r w) (\<lambda>w. Inr (0, w))))
       in bind_ro (Some (count_op wrt g (sess w))) (\<lambda>s.
            let w = w\<lparr>sess := s\<rparr> in
            bind_ro (Some (arr_get (cb_index_map s) g)) (\<lambda>c.
            if g = e
            then if c = NO_CB_MAPPED then to_disk w
                 else bind_ro (Some (arr_get (cb_list s) c)) (\<lambda>cb.
                      bind_ro (Some (arr_get (chunk_map_cb_chunk s) g)) (\<lambda>i.
                        if i = -1 then to_disk w
                        else bind_ro (Some (arr_get (chunk_list (remote_chunk cb)) i)) (\<lambda>ch.
                          if rdma_on s \<noteq> DEV_RDMA_ON then to_disk w
                          else if wrt then IS_transfer_chunk submit_queues post_ok c i ch chunk_offset len wrt r w
                          else bind_ro (Some (case bitmap_g ch of None \<Rightarrow> Inl Null_Deref
                                 | Some bm \<Rightarrow> IS_bitmap_test bm (int_of_ulong (chunk_offset div of_nat IS_PAGE_SIZE)))) (\<lambda>recorded.
                               if recorded then IS_transfer_chunk submit_queues post_ok c i ch chunk_offset len wrt r w
                               else to_disk w))))
            else bind_ro (Some (arr_get (cb_index_map s) e)) (\<lambda>c2.
                 bind_ro (Some (forget_pages wrt c g chunk_offset (of_nat ONE_GB - chunk_offset) s)) (\<lambda>s.
                 bind_ro (Some (forget_pages wrt c2 e 0 (chunk_offset + len - of_nat ONE_GB) s)) (\<lambda>s.
                   to_disk (w\<lparr>sess := s\<rparr>)))))))"

text \<open>An error is reported to the block layer, which ends the request with \<open>-EIO\<close>.\<close>

definition IS_queue_rq :: "int \<Rightarrow> bool \<Rightarrow> nat \<Rightarrow> io \<Rightarrow> io res option" where
  "IS_queue_rq submit_queues post_ok r w =
     bind_ro (IS_request submit_queues post_ok r w) (\<lambda>(err, w).
       Some (Inr (if err \<noteq> 0 then w\<lparr>ended := ended w @ [(r, -5)]\<rparr> else w)))"

section \<open>Completions\<close>

definition end_request :: "nat \<Rightarrow> io \<Rightarrow> io" where
  "end_request r w = w\<lparr>ended := ended w @ [(r, 0)]\<rparr>"

definition client_read_done :: "ctx_ref \<Rightarrow> io \<Rightarrow> io res" where
  "client_read_done cr w =
     bind_res (ctx_at cr (sess w)) (\<lambda>x.
     bind_res (set_ctx cr (\<lambda>x. x\<lparr>in_flight := CTX_IDLE, ctx_chunk_index := -1, ctx_req := None\<rparr>) w) (\<lambda>w.
       case ctx_req x of None \<Rightarrow> Inl Null_Deref
       | Some r \<Rightarrow>
           bind_res (return_ctx cr (w\<lparr>pages := (pages w)(r := take 1 (bufs w cr) @ drop 1 (pages w r))\<rparr>)) (\<lambda>w.
             Inr (end_request r w))))"

definition client_write_done :: "ctx_ref \<Rightarrow> io \<Rightarrow> io res" where
  "client_write_done cr w =
     bind_res (ctx_at cr (sess w)) (\<lambda>x.
       case ctx_chunk_ptr x of None \<Rightarrow> Inr w
       | Some (c, i) \<Rightarrow>
           let s = sess w; rc = rc_at s c; ch = chunk_list rc ! i
           in bind_res (case bitmap_g ch of None \<Rightarrow> Inl Null_Deref
                        | Some bm \<Rightarrow> IS_bitmap_group_set bm (ctx_offset x) (ctx_len x)) (\<lambda>bm.
              bind_res (set_ctx cr (\<lambda>x. x\<lparr>in_flight := CTX_IDLE, ctx_chunk_index := -1, ctx_chunk_ptr := None, ctx_req := None\<rparr>)
                (w\<lparr>sess := upd_rc c (\<lambda>rc. rc\<lparr>chunk_list := (chunk_list rc)[i := ch\<lparr>bitmap_g := Some bm\<rparr>]\<rparr>) s\<rparr>)) (\<lambda>w.
                Inr (case ctx_req x of None \<Rightarrow> w | Some r \<Rightarrow> end_request r w))))"

text \<open>
  The handler of a completion queue: it polls until the queue is empty, skips flushed work requests, and
  stops in the error state at a failed one. The message of a receive is in the buffer of the control
  block; \<open>repost_ok\<close> is the success of \<open>ib_post_recv\<close>, \<open>poll_ok\<close> that of the last \<open>ib_poll_cq\<close>.
\<close>

definition handle_wc :: "bool \<Rightarrow> bool \<Rightarrow> nat \<Rightarrow> wc_opcode \<Rightarrow> io \<Rightarrow> (bool \<times> io) res" where
  "handle_wc le repost_ok c opc w =
     (case opc of
        WC_RECV n \<Rightarrow> bind_res (client_recv le n c (sess w)) (\<lambda>(ok, s). Inr (ok \<and> repost_ok, w\<lparr>sess := s\<rparr>))
      | WC_SEND \<Rightarrow> Inr (True, w)
      | WC_RDMA_READ cr \<Rightarrow> bind_res (client_read_done cr w) (\<lambda>w. Inr (True, w))
      | WC_RDMA_WRITE cr \<Rightarrow> bind_res (client_write_done cr w) (\<lambda>w. Inr (True, w))
      | WC_OTHER \<Rightarrow> Inr (False, w))"

definition cq_error :: "nat \<Rightarrow> io \<Rightarrow> io" where
  "cq_error c w = w\<lparr>sess := upd_cb c (\<lambda>cb. cb\<lparr>state := ERROR\<rparr>) (sess w)\<rparr>"

fun poll_cq :: "bool \<Rightarrow> bool \<Rightarrow> bool \<Rightarrow> nat \<Rightarrow> ib_wc list \<Rightarrow> io \<Rightarrow> io res" where
  "poll_cq le repost_ok poll_ok c [] w = Inr (if poll_ok then w else cq_error c w)"
| "poll_cq le repost_ok poll_ok c ((st, opc) # l) w =
     (let w = w\<lparr>wcs := (wcs w)(c := l)\<rparr>
      in case st of
           WC_FLUSH_ERR \<Rightarrow> poll_cq le repost_ok poll_ok c l w
         | WC_FATAL \<Rightarrow> Inr (cq_error c w)
         | WC_SUCCESS \<Rightarrow> bind_res (handle_wc le repost_ok c opc w) (\<lambda>(ok, w).
             if ok then poll_cq le repost_ok poll_ok c l w else Inr (cq_error c w)))"

definition rdma_cq_event_handler :: "bool \<Rightarrow> bool \<Rightarrow> bool \<Rightarrow> nat \<Rightarrow> io \<Rightarrow> io res" where
  "rdma_cq_event_handler le repost_ok poll_ok c w =
     (if state (cb_at (sess w) c) = ERROR then Inr w else poll_cq le repost_ok poll_ok c (wcs w c) w)"

section \<open>The disk\<close>

text \<open>The thread of the disk takes the first bio of its queue, if there is one, and hands it to the disk.\<close>

definition stackbd_io_fn :: "bio \<Rightarrow> io \<Rightarrow> io" where
  "stackbd_io_fn b w = w\<lparr>submitted := submitted w @ [b]\<rparr>"

definition stackbd_threadfn :: "io \<Rightarrow> io" where
  "stackbd_threadfn w = (case bio_list w of [] \<Rightarrow> w | b # bs \<Rightarrow> stackbd_io_fn b (w\<lparr>bio_list := bs\<rparr>))"

definition IS_stackbd_end_io :: "bio \<Rightarrow> io \<Rightarrow> io res" where
  "IS_stackbd_end_io b w =
     (case bi_end_io b of No_End \<Rightarrow> Inr w | Ends_Request r \<Rightarrow> Inr (end_request r w) | Returns_Ctx cr \<Rightarrow> return_ctx cr w)"

section \<open>The network, the disk and their events\<close>

text \<open>
  What the hardware does: the network executes the first work request of a server, page by page, and
  queues its completion; the disk finishes one of the bios it works on and calls its end function.
\<close>

definition page_addr :: "u64 \<Rightarrow> nat \<Rightarrow> u64" where
  "page_addr a k = a + of_nat (IS_PAGE_SIZE * k)"

definition rdma_execute :: "nat \<Rightarrow> send_wr \<Rightarrow> io \<Rightarrow> io" where
  "rdma_execute c wr w =
     (let cr = wr_id wr; n = page_count (wr_len wr)
      in case wr_opcode wr of
           RDMA_READ \<Rightarrow> w\<lparr>bufs := (bufs w)(cr := map (\<lambda>k. rmem w c (wr_rkey wr) (page_addr (wr_addr wr) k)) [0..<n] @ drop n (bufs w cr)),
                           wcs := (wcs w)(c := wcs w c @ [(WC_SUCCESS, WC_RDMA_READ cr)])\<rparr>
         | RDMA_WRITE \<Rightarrow> w\<lparr>rmem := (rmem w)(c := fold (\<lambda>k m. m(wr_rkey wr := (m (wr_rkey wr))(page_addr (wr_addr wr) k := bufs w cr ! k)))
                            [0..<n] (rmem w c)),
                           wcs := (wcs w)(c := wcs w c @ [(WC_SUCCESS, WC_RDMA_WRITE cr)])\<rparr>)"

definition rdma_net :: "nat \<Rightarrow> io \<Rightarrow> io" where
  "rdma_net c w = (case sq w c of [] \<Rightarrow> w | wr # wrs \<Rightarrow> rdma_execute c wr (w\<lparr>sq := (sq w)(c := wrs)\<rparr>))"

definition bio_pages :: "bio \<Rightarrow> io \<Rightarrow> page list" where
  "bio_pages b w = (case bio_data b of Req_Pages r off \<Rightarrow> take (bio_len b) (drop off (pages w r)) | Ctx_Buf cr \<Rightarrow> take (bio_len b) (bufs w cr))"

definition disk_transfer :: "bio \<Rightarrow> io \<Rightarrow> io" where
  "disk_transfer b w =
     (let p = bio_page b; n = bio_len b
      in if bio_write b then w\<lparr>disk := (\<lambda>q. if p \<le> q \<and> q < p + n then bio_pages b w ! (q - p) else disk w q)\<rparr>
         else (let new = map (disk w) [p..<p + n]
               in case bio_data b of
                    Req_Pages r off \<Rightarrow> w\<lparr>pages := (pages w)(r := take off (pages w r) @ new @ drop (off + n) (pages w r))\<rparr>
                  | Ctx_Buf cr \<Rightarrow> w\<lparr>bufs := (bufs w)(cr := new @ drop n (bufs w cr))\<rparr>))"

definition disk_end :: "nat \<Rightarrow> io \<Rightarrow> io res" where
  "disk_end k w =
     (if k < length (submitted w)
      then let b = submitted w ! k
           in IS_stackbd_end_io b (disk_transfer b (w\<lparr>submitted := take k (submitted w) @ drop (Suc k) (submitted w)\<rparr>))
      else Inr w)"

text \<open>Events after a request was queued, and a schedule of them.\<close>

datatype event = Thread | Disk nat | Net nat | Cq nat

fun io_event :: "bool \<Rightarrow> event \<Rightarrow> io \<Rightarrow> io res" where
  "io_event le Thread w = Inr (stackbd_threadfn w)"
| "io_event le (Disk k) w = disk_end k w"
| "io_event le (Net c) w = Inr (rdma_net c w)"
| "io_event le (Cq c) w = rdma_cq_event_handler le True True c w"

fun run_events :: "bool \<Rightarrow> event list \<Rightarrow> io \<Rightarrow> io res" where
  "run_events le [] w = Inr w"
| "run_events le (e # es) w = bind_res (io_event le e w) (run_events le es)"

end
