(* ===== verification/Request_Inv.thy ===== *)
theory Request_Inv
  imports Request
begin

text \<open>
  What the request path does: where every request goes, that the device behaves like an array of pages
  for requests served one after the other in whatever order the network and the disk complete their
  parts, and which orders and states break this.
\<close>

section \<open>Requests for one page\<close>

definition chunk_pages :: nat where "chunk_pages = 262144"

definition page_rq :: "bool \<Rightarrow> nat \<Rightarrow> u64 \<Rightarrow> request" where
  "page_rq wrt p a = \<lparr>rq_write = wrt, rq_pos = of_nat (8 * p), rq_len = 4096, rq_addr = a, rq_segs = [1]\<rparr>"

definition dev_pages :: nat where "dev_pages = STACKBD_SIZE_G * chunk_pages"

definition byte_pos :: "nat \<Rightarrow> u64" where "byte_pos k = of_nat (4096 * k)"

lemma unat_byte_pos: "k < dev_pages \<Longrightarrow> unat (byte_pos k) = 4096 * k"
proof -
  assume "k < dev_pages"
  then have "4096 * k < 2 ^ 64" by (simp add: dev_pages_def chunk_pages_def STACKBD_SIZE_G_def)
  then show ?thesis unfolding byte_pos_def unat_of_nat by simp
qed

lemma page_size_word [simp]: "of_nat IS_PAGE_SIZE = (4096 :: u64)"
  by (simp add: IS_PAGE_SIZE_def)

lemma page_no_less [simp]: "p mod chunk_pages < chunk_pages" "p mod chunk_pages < dev_pages"
proof -
  show "p mod chunk_pages < chunk_pages" by (simp add: chunk_pages_def)
  then show "p mod chunk_pages < dev_pages" by (simp add: chunk_pages_def dev_pages_def STACKBD_SIZE_G_def)
qed

lemma page_rq_simps [simp]:
  "rq_write (page_rq wrt p a) = wrt" "rq_len (page_rq wrt p a) = 4096" "rq_addr (page_rq wrt p a) = a"
  "rq_segs (page_rq wrt p a) = [1]" "nr_phys_segments (page_rq wrt p a) = 1"
  by (simp_all add: page_rq_def nr_phys_segments_def)

lemma page_rq_start [simp]: "rq_start (page_rq wrt p a) = byte_pos p"
proof -
  have "push_bit 9 (of_nat (8 * p) :: u64) = of_nat (push_bit 9 (8 * p))" by (simp only: push_bit_of_nat)
  also have "push_bit 9 (8 * p) = 4096 * p" by (simp add: push_bit_eq_mult)
  finally show ?thesis by (simp add: rq_start_def page_rq_def IS_SECT_SHIFT_def byte_pos_def)
qed

text \<open>The chunk of a page, its offset in the chunk, and the bit of the page, as the code computes them.\<close>

lemma page_rq_index:
  assumes "p < dev_pages"
  shows "int_of_ulong (drop_bit ONE_GB_SHIFT (byte_pos p)) = int (p div chunk_pages)"
    "byte_pos p AND ONE_GB_MASK = byte_pos (p mod chunk_pages)"
    "p div chunk_pages < STACKBD_SIZE_G" "rq_page (page_rq wrt p a) = p"
proof -
  note u = unat_byte_pos [OF assms]
  have "unat (drop_bit 30 (byte_pos p)) = (4096 * p) div 2 ^ 30"
    by (simp only: unat_drop_bit_eq u) (simp only: drop_bit_eq_div)
  also have "\<dots> = p div chunk_pages" by (simp add: chunk_pages_def)
  finally have g: "unat (drop_bit 30 (byte_pos p)) = p div chunk_pages" .
  show less: "p div chunk_pages < STACKBD_SIZE_G"
    using assms by (simp add: dev_pages_def less_mult_imp_div_less)
  then have "unat (drop_bit 30 (byte_pos p)) < 2 ^ 31" using g by (simp add: STACKBD_SIZE_G_def)
  then show "int_of_ulong (drop_bit ONE_GB_SHIFT (byte_pos p)) = int (p div chunk_pages)"
    using g by (simp add: int_of_ulong_small ONE_GB_SHIFT_def)
  have "ONE_GB_MASK = mask 30" by (simp add: ONE_GB_MASK_def mask_eq_exp_minus_1)
  then have "byte_pos p AND ONE_GB_MASK = take_bit 30 (byte_pos p)" by (simp only: take_bit_eq_mask)
  then have "unat (byte_pos p AND ONE_GB_MASK) = take_bit 30 (4096 * p)"
    by (simp only: unsigned_take_bit_eq u)
  also have "\<dots> = 4096 * (p mod chunk_pages)"
    using mod_mult_mult1 [of 4096 p 262144] by (simp add: take_bit_eq_mod chunk_pages_def)
  also have "\<dots> = unat (byte_pos (p mod chunk_pages))" by (simp add: unat_byte_pos)
  finally show "byte_pos p AND ONE_GB_MASK = byte_pos (p mod chunk_pages)" by (simp only: word_unat_eq_iff)
  show "rq_page (page_rq wrt p a) = p" using u by (simp add: rq_page_def IS_PAGE_SIZE_def)
qed

lemma page_offset:
  assumes "k < chunk_pages"
  shows "int_of_ulong (byte_pos k div 4096) = int k"
    "nat (int_of_ulong ((4096 :: u64) div 4096)) = 1" "int k < bitmap_pages" "int k + 1 \<le> bitmap_pages"
proof -
  have "k < dev_pages" using assms by (simp add: chunk_pages_def dev_pages_def STACKBD_SIZE_G_def)
  note u = unat_byte_pos [OF this]
  then have first: "first_page (byte_pos k) = int k" by (simp add: first_page_def IS_PAGE_SIZE_def)
  have count: "page_count 4096 = 1" by (simp add: page_count_def IS_PAGE_SIZE_def)
  have "unat (byte_pos k) + unat (4096 :: u64) \<le> ONE_GB"
    using u assms by (simp add: chunk_pages_def ONE_GB_def)
  note group_page_range(1,2) [OF this]
  then show "int_of_ulong (byte_pos k div 4096) = int k"
    "nat (int_of_ulong ((4096 :: u64) div 4096)) = 1"
    by (simp_all only: first count page_size_word)
  show "int k < bitmap_pages" "int k + 1 \<le> bitmap_pages" using assms by (simp_all add: chunk_pages_def bitmap_pages_def)
qed

section \<open>Contexts of a session\<close>

text \<open>The pool of server \<open>c\<close> at connection \<open>k\<close> exists.\<close>

definition pool_at :: "ctx_ref \<Rightarrow> IS_session \<Rightarrow> bool" where
  "pool_at cr s \<longleftrightarrow> (case cr of (k, c, j) \<Rightarrow> k < length (IS_conns s) \<and> c < length (ctx_pools (IS_conns s ! k)))"

lemma set_pool_twice [simp]: "set_pool cr p (set_pool cr q s) = set_pool cr p s"
proof (cases cr)
  case (fields k c j)
  then show ?thesis by (cases "k < length (IS_conns s)") (simp_all add: set_pool_def list_update_beyond)
qed

lemma pool_at_set [simp]: "pool_at cr (set_pool cr' p s) = pool_at cr s"
proof (cases cr; cases cr')
  fix k c j k' c' j'
  assume "cr = (k, c, j)" "cr' = (k', c', j')"
  then show ?thesis by (cases "k' = k") (auto simp: set_pool_def pool_at_def)
qed

lemma set_pool_simps [simp]:
  "cb_list (set_pool cr p s) = cb_list s" "cb_index_map (set_pool cr p s) = cb_index_map s"
  "chunk_map_cb_chunk (set_pool cr p s) = chunk_map_cb_chunk s"
  "unmapped_chunk_list (set_pool cr p s) = unmapped_chunk_list s" "free_chunk_index (set_pool cr p s) = free_chunk_index s"
  "cb_state_list (set_pool cr p s) = cb_state_list s" "cb_num (set_pool cr p s) = cb_num s"
  "rdma_on (set_pool cr p s) = rdma_on s" "write_ops (set_pool cr p s) = write_ops s" "read_ops (set_pool cr p s) = read_ops s"
  "length (IS_conns (set_pool cr p s)) = length (IS_conns s)"
  "upd_rc c f (set_pool cr p s) = set_pool cr p (upd_rc c f s)"
  by (simp_all add: set_pool_def upd_rc_def upd_cb_def split: prod.splits)

lemma pool_at_upd_rc [simp]: "pool_at cr (upd_rc c f s) = pool_at cr s"
  by (simp add: pool_at_def)

lemma ctx_pool_at_set [simp]: "pool_at cr s \<Longrightarrow> ctx_pool_at cr (set_pool cr p s) = Inr p"
  by (auto simp: ctx_pool_at_def set_pool_def pool_at_def)

lemma ctx_at_set [simp]:
  "pool_at (k, c, j) s \<Longrightarrow> j < length (ctx_pool p) \<Longrightarrow> ctx_at (k, c, j) (set_pool (k, c, j) p s) = Inr (ctx_pool p ! j)"
  by (simp add: ctx_at_def)

lemma set_ctx_set:
  "pool_at (k, c, j) s \<Longrightarrow> j < length (ctx_pool p) \<Longrightarrow> sess w = set_pool (k, c, j) p s \<Longrightarrow>
   set_ctx (k, c, j) f w = Inr (w\<lparr>sess := set_pool (k, c, j) (p\<lparr>ctx_pool := (ctx_pool p)[j := f (ctx_pool p ! j)]\<rparr>) s\<rparr>)"
  by (simp add: set_ctx_def)

lemma map_zip_self: "map (\<lambda>(p, x). f p x) (zip (map g xs) xs) = map (\<lambda>x. f (g x) x) xs"
  by (induction xs) simp_all

lemma put_pools_one:
  assumes "k < length conns"
  shows "put_pools (int c) ((map (pool_of (int c)) conns)[k := p]) conns =
    conns[k := (conns ! k)\<lparr>ctx_pools := (ctx_pools (conns ! k))[c := p]\<rparr>]"
proof (rule nth_equalityI)
  fix i
  assume "i < length (put_pools (int c) ((map (pool_of (int c)) conns)[k := p]) conns)"
  then have i: "i < length conns" by (simp add: put_pools_def)
  have same: "(ctx_pools x)[c := pool_of (int c) x] = ctx_pools x" for x by (simp add: pool_of_def list_update_beyond)
  show "put_pools (int c) ((map (pool_of (int c)) conns)[k := p]) conns ! i =
      conns[k := (conns ! k)\<lparr>ctx_pools := (ctx_pools (conns ! k))[c := p]\<rparr>] ! i"
    using i assms by (cases "i = k") (simp_all add: put_pools_def same)
qed (simp add: put_pools_def)

text \<open>The contexts of server \<open>c\<close> are in order and some are free, at every connection.\<close>

definition pools_ready :: "nat \<Rightarrow> IS_session \<Rightarrow> bool" where
  "pools_ready c s \<longleftrightarrow> (\<forall>k < length (IS_conns s). c < length (ctx_pools (IS_conns s ! k)) \<and>
     pool_wf (ctx_pools (IS_conns s ! k) ! c) \<and> free_stack (ctx_pools (IS_conns s ! k) ! c) \<noteq> [])"

lemma take_ctx_hit:
  assumes "pools_ready c s" "k < length (IS_conns s)" "first_conn a = int k"
    "free_stack (ctx_pools (IS_conns s ! k) ! c) = xs @ [j]"
  shows "\<exists>p. take_ctx n (int c) a s = Some (Inr ((k, c, j), set_pool (k, c, j) p s)) \<and> pool_wf p \<and> free_stack p = xs"
proof -
  let ?ps = "map (pool_of (int c)) (IS_conns s)"
  have "?ps ! k = ctx_pools (IS_conns s ! k) ! c" using assms by (simp add: pool_of_def pools_ready_def)
  then have "pool_wf (?ps ! k)" "free_stack (?ps ! k) = xs @ [j]" using assms by (simp_all add: pools_ready_def)
  then obtain p where p: "find_ctx n ?ps (int k) = Some (Inr (int k, j, ?ps[k := p]))" "pool_wf p" "free_stack p = xs"
    using find_ctx_hit [of "int k" ?ps xs j n] assms(2) by auto
  have "take_ctx n (int c) a s = Some (Inr ((k, c, j), s\<lparr>IS_conns := put_pools (int c) (?ps[k := p]) (IS_conns s)\<rparr>))"
    using p(1) assms(3) by (simp add: take_ctx_def bind_ro_def)
  then show ?thesis using p put_pools_one [OF assms(2)] by (intro exI [of _ p]) (simp add: set_pool_def)
qed

lemma return_ctx_set:
  assumes "pool_at (k, c, j) s" "sess w = set_pool (k, c, j) p s" "pool_wf p" "free_stack p = xs" "j < IS_QUEUE_DEPTH" "j \<notin> set xs"
  shows "\<exists>p'. return_ctx (k, c, j) w = Inr (w\<lparr>sess := set_pool (k, c, j) p' s\<rparr>) \<and> pool_wf p' \<and> free_stack p' = xs @ [j] \<and>
     ctx_pool p' = ctx_pool p"
proof -
  obtain p' where p': "IS_insert_ctx p j = Inr p'" "pool_wf p'" "free_stack p' = xs @ [j]"
    using ctx_pool.ins_push [of p j] assms by auto
  have "ctx_pool p' = ctx_pool p"
    using p'(1) by (auto simp: IS_insert_ctx_def bind_res_Inr_iff split: option.splits)
  then show ?thesis using p' assms(1,2) by (intro exI [of _ p']) (simp add: return_ctx_def)
qed

lemma pools_ready_set:
  assumes "pools_ready c s" "pool_wf p" "free_stack p \<noteq> []"
  shows "pools_ready c (set_pool (k, c', j) p s)"
  unfolding pools_ready_def
proof (intro allI impI)
  fix i
  assume "i < length (IS_conns (set_pool (k, c', j) p s))"
  then have i: "i < length (IS_conns s)" by simp
  with assms(1) have "c < length (ctx_pools (IS_conns s ! i))" "pool_wf (ctx_pools (IS_conns s ! i) ! c)"
    "free_stack (ctx_pools (IS_conns s ! i) ! c) \<noteq> []" by (simp_all add: pools_ready_def)
  with i assms(2,3) show "c < length (ctx_pools (IS_conns (set_pool (k, c', j) p s) ! i)) \<and>
      pool_wf (ctx_pools (IS_conns (set_pool (k, c', j) p s) ! i) ! c) \<and>
      free_stack (ctx_pools (IS_conns (set_pool (k, c', j) p s) ! i) ! c) \<noteq> []"
    by (cases "k = i"; cases "c' = c") (simp_all add: set_pool_def)
qed

section \<open>The device between two requests\<close>

text \<open>
  Nothing is pending; the tables agree; the servers that hold chunks have free contexts and work; no two
  chunks of a server share memory; and the remote copy of a page that its bitmap records is the page
  of the disk.
\<close>

definition settled :: "io \<Rightarrow> bool" where
  "settled w \<longleftrightarrow> bio_list w = [] \<and> submitted w = [] \<and> (\<forall>c. sq w c = [] \<and> wcs w c = [])"

abbreviation chunk_at :: "IS_session \<Rightarrow> nat \<Rightarrow> nat \<Rightarrow> remote_chunk_g" where
  "chunk_at s c i \<equiv> chunk_list (rc_at s c) ! i"

definition recorded :: "remote_chunk_g \<Rightarrow> nat \<Rightarrow> bool" where
  "recorded ch q \<longleftrightarrow> (case bitmap_g ch of None \<Rightarrow> False | Some bm \<Rightarrow> IS_bitmap_test bm (int q) = Inr True)"

definition remote_page :: "io \<Rightarrow> nat \<Rightarrow> remote_chunk_g \<Rightarrow> nat \<Rightarrow> page" where
  "remote_page w c ch q = rmem w c (remote_rkey ch) (page_addr (remote_addr ch) q)"

definition apart :: "remote_chunk_g \<Rightarrow> remote_chunk_g \<Rightarrow> bool" where
  "apart a b \<longleftrightarrow> (\<forall>q < chunk_pages. \<forall>q' < chunk_pages.
     (remote_rkey a, page_addr (remote_addr a) q) \<noteq> (remote_rkey b, page_addr (remote_addr b) q'))"

definition sess_ready :: "IS_session \<Rightarrow> bool" where
  "sess_ready s \<longleftrightarrow> map_inv s \<and> length (write_ops s) = STACKBD_SIZE_G \<and> length (read_ops s) = STACKBD_SIZE_G \<and>
     (\<forall>c i g. (c, i, g) \<in> sess_view s \<longrightarrow> pools_ready c s \<and> state (cb_at s c) \<noteq> ERROR \<and>
        (\<forall>i' g'. (c, i', g') \<in> sess_view s \<longrightarrow> i' \<noteq> i \<longrightarrow> apart (chunk_at s c i) (chunk_at s c i')))"

definition coherent :: "io \<Rightarrow> bool" where
  "coherent w \<longleftrightarrow> (\<forall>c i g q. (c, i, g) \<in> sess_view (sess w) \<longrightarrow> q < chunk_pages \<longrightarrow> recorded (chunk_at (sess w) c i) q \<longrightarrow>
     rdma_on (sess w) = DEV_RDMA_ON \<and> remote_page w c (chunk_at (sess w) c i) q = disk w (g * chunk_pages + q))"

definition dev_inv :: "io \<Rightarrow> bool" where
  "dev_inv w \<longleftrightarrow> settled w \<and> bdev_raw w \<and> is_active w \<and> sess_ready (sess w) \<and> coherent w"

lemma sess_viewD:
  assumes "map_inv s" "(c, i, g) \<in> sess_view s"
  shows "c < length (cb_list s)" "i < length (chunk_list (rc_at s c))" "has_bitmap (chunk_at s c i)" "g < STACKBD_SIZE_G"
    "cb_index_map s ! g = int c" "chunk_map_cb_chunk s ! g = int i" "chunk_map (rc_at s c) ! i = int g"
    "length (cb_index_map s) = STACKBD_SIZE_G" "length (chunk_map_cb_chunk s) = STACKBD_SIZE_G"
proof -
  have cv: "(c, i, g) \<in> cb_view s" using map_invD(3) [OF assms(1)] assms(2) by simp
  then show c: "c < length (cb_list s)" and m: "chunk_map (rc_at s c) ! i = int g" by (simp_all add: cb_view_def)
  from cv have "i < length (chunk_map (rc_at s c))" by (simp add: cb_view_def)
  moreover note rc = map_invD(2) [OF assms(1) c]
  ultimately show "i < length (chunk_list (rc_at s c))" "has_bitmap (chunk_at s c i)"
    using m by (auto simp: rc_inv_def rc_sized_def)
  show "length (cb_index_map s) = STACKBD_SIZE_G" "length (chunk_map_cb_chunk s) = STACKBD_SIZE_G"
    using map_invD(1) [OF assms(1)] by (simp_all add: sess_wf_def)
  then show "g < STACKBD_SIZE_G" "cb_index_map s ! g = int c" "chunk_map_cb_chunk s ! g = int i"
    using assms(2) by (simp_all add: sess_view_def)
qed

text \<open>A session chunk is either unmapped or placed.\<close>

lemma chunk_placed:
  assumes "map_inv s" "g < STACKBD_SIZE_G" "cb_index_map s ! g \<noteq> -1"
  obtains c i where "(c, i, g) \<in> sess_view s"
proof -
  have "-1 \<le> cb_index_map s ! g" "-1 \<le> chunk_map_cb_chunk s ! g" "chunk_map_cb_chunk s ! g \<noteq> -1"
    using assms by (auto simp: map_inv_upto_def)
  moreover have "g < length (cb_index_map s)" using assms(1,2) by (simp add: map_inv_upto_def sess_wf_def)
  ultimately have "(nat (cb_index_map s ! g), nat (chunk_map_cb_chunk s ! g), g) \<in> sess_view s"
    using assms(3) by (simp add: sess_view_def)
  then show thesis by (rule that)
qed

section \<open>Where a request goes\<close>

definition bump :: "bool \<Rightarrow> nat \<Rightarrow> IS_session \<Rightarrow> IS_session" where
  "bump wrt g s = (if wrt then s\<lparr>write_ops := (write_ops s)[g := write_ops s ! g + 1]\<rparr>
                   else s\<lparr>read_ops := (read_ops s)[g := read_ops s ! g + 1]\<rparr>)"

lemma bump_simps [simp]:
  "cb_list (bump wrt g s) = cb_list s" "cb_index_map (bump wrt g s) = cb_index_map s"
  "chunk_map_cb_chunk (bump wrt g s) = chunk_map_cb_chunk s" "unmapped_chunk_list (bump wrt g s) = unmapped_chunk_list s"
  "free_chunk_index (bump wrt g s) = free_chunk_index s" "cb_state_list (bump wrt g s) = cb_state_list s"
  "cb_num (bump wrt g s) = cb_num s" "rdma_on (bump wrt g s) = rdma_on s" "IS_conns (bump wrt g s) = IS_conns s"
  "length (write_ops (bump wrt g s)) = length (write_ops s)" "length (read_ops (bump wrt g s)) = length (read_ops s)"
  by (simp_all add: bump_def)

lemma count_op_ok:
  "g < length (write_ops s) \<Longrightarrow> g < length (read_ops s) \<Longrightarrow> count_op wrt (int g) s = Inr (bump wrt g s)"
  by (simp add: count_op_def bump_def)

abbreviation chunk_no :: "nat \<Rightarrow> nat" where "chunk_no p \<equiv> p div chunk_pages"
abbreviation page_no :: "nat \<Rightarrow> nat" where "page_no p \<equiv> p mod chunk_pages"

abbreviation counted_io :: "bool \<Rightarrow> nat \<Rightarrow> io \<Rightarrow> io" where
  "counted_io wrt p w \<equiv> w\<lparr>sess := bump wrt (chunk_no p) (sess w)\<rparr>"

definition disk_bio :: "bool \<Rightarrow> nat \<Rightarrow> nat \<Rightarrow> bio" where
  "disk_bio wrt r p = \<lparr>bio_write = wrt, bio_page = p, bio_len = 1, bio_data = Req_Pages r 0, bi_end_io = Ends_Request r\<rparr>"

lemma IS_mq_request_stackbd_page:
  assumes "reqs w r = Some (page_rq wrt p a)" "p < dev_pages" "bdev_raw w" "is_active w"
  shows "IS_mq_request_stackbd r w = Inr (w\<lparr>bio_list := bio_list w @ [disk_bio wrt r p]\<rparr>)"
  using assms page_rq_index(4) [of p wrt a]
  by (simp add: IS_mq_request_stackbd_def stackbd_make_request2_def get_req_def disk_bio_def)

text \<open>The disk serves the request if its chunk is unmapped, RDMA is off or the page to read is not recorded.\<close>

lemma IS_request_disk:
  assumes w: "sess_ready (sess w)" "bdev_raw w" "is_active w" and rq: "reqs w r = Some (page_rq wrt p a)" "p < dev_pages"
    and no: "\<And>c i. (c, i, chunk_no p) \<in> sess_view (sess w) \<Longrightarrow>
               rdma_on (sess w) \<noteq> DEV_RDMA_ON \<or> \<not> wrt \<and> \<not> recorded (chunk_at (sess w) c i) (page_no p)"
  shows "IS_request n ok r w = Some (Inr (0, (counted_io wrt p w)\<lparr>bio_list := bio_list w @ [disk_bio wrt r p]\<rparr>))"
proof -
  let ?w = "counted_io wrt p w"
  note ix = page_rq_index [OF rq(2)] and off = page_offset [OF page_no_less(1) [of p]]
  have inv: "map_inv (sess w)" and len: "length (write_ops (sess w)) = STACKBD_SIZE_G" "length (read_ops (sess w)) = STACKBD_SIZE_G"
    using w(1) by (simp_all add: sess_ready_def)
  have sizes: "length (cb_index_map (sess w)) = STACKBD_SIZE_G" "length (chunk_map_cb_chunk (sess w)) = STACKBD_SIZE_G"
    using map_invD(1) [OF inv] by (simp_all add: sess_wf_def)
  have disk: "IS_mq_request_stackbd r ?w = Inr (?w\<lparr>bio_list := bio_list w @ [disk_bio wrt r p]\<rparr>)"
    using IS_mq_request_stackbd_page [of ?w r wrt p a] rq w(2,3) by simp
  have count: "count_op wrt (int (chunk_no p)) (sess w) = Inr (bump wrt (chunk_no p) (sess w))"
    using count_op_ok len ix(3) by simp
  show ?thesis
  proof (cases "cb_index_map (sess w) ! chunk_no p = -1")
    case True
    then show ?thesis using rq(1) ix sizes count disk
      by (simp add: IS_request_def get_req_def Let_def bind_ro_def NO_CB_MAPPED_def)
  next
    case False
    then obtain c i where v: "(c, i, chunk_no p) \<in> sess_view (sess w)" using chunk_placed [OF inv ix(3)] by blast
    note vD = sess_viewD [OF inv v]
    from vD(3) obtain bm where bm: "bitmap_g (chunk_at (sess w) c i) = Some bm" "bitmap_wf bm"
      by (auto simp: has_bitmap_def split: option.splits)
    then obtain t where t: "IS_bitmap_test bm (int (page_no p)) = Inr t"
      using chunk_bitmap.test_ok [of bm "int (page_no p)"] off(3) by auto
    show ?thesis using rq(1) ix sizes count disk no [OF v] vD bm(1) t
      by (auto simp: IS_request_def get_req_def Let_def bind_ro_def NO_CB_MAPPED_def off recorded_def)
  qed
qed

lemma IS_request_rdma:
  assumes w: "sess_ready (sess w)" and rq: "reqs w r = Some (page_rq wrt p a)" "p < dev_pages"
    and v: "(c, i, chunk_no p) \<in> sess_view (sess w)"
    and on: "rdma_on (sess w) = DEV_RDMA_ON" "wrt \<or> recorded (chunk_at (sess w) c i) (page_no p)"
  shows "IS_request n ok r w = IS_transfer_chunk n ok (int c) (int i) (chunk_at (sess w) c i) (byte_pos (page_no p)) 4096 wrt r
     (counted_io wrt p w)"
proof -
  note ix = page_rq_index [OF rq(2)] and off = page_offset [OF page_no_less(1) [of p]]
  have inv: "map_inv (sess w)" and len: "length (write_ops (sess w)) = STACKBD_SIZE_G" "length (read_ops (sess w)) = STACKBD_SIZE_G"
    using w(1) by (simp_all add: sess_ready_def)
  note vD = sess_viewD [OF inv v]
  have count: "count_op wrt (int (chunk_no p)) (sess w) = Inr (bump wrt (chunk_no p) (sess w))"
    using count_op_ok len ix(3) by simp
  show ?thesis using rq(1) ix count on vD
    by (auto simp: IS_request_def get_req_def Let_def bind_ro_def NO_CB_MAPPED_def off recorded_def split: option.splits)
qed

section \<open>Transfers over the network\<close>

definition ctx_bio :: "nat \<Rightarrow> ctx_ref \<Rightarrow> bio" where
  "ctx_bio p cr = \<lparr>bio_write = True, bio_page = p, bio_len = 1, bio_data = Ctx_Buf cr, bi_end_io = Returns_Ctx cr\<rparr>"

definition page_wr :: "wr_opcode \<Rightarrow> ctx_ref \<Rightarrow> remote_chunk_g \<Rightarrow> nat \<Rightarrow> send_wr" where
  "page_wr opc cr ch q = \<lparr>wr_opcode = opc, wr_id = cr, wr_rkey = remote_rkey ch,
     wr_addr = remote_addr ch + byte_pos q, wr_len = 4096\<rparr>"

text \<open>The context of a write in flight, and that of a read.\<close>

definition carries_write :: "nat \<Rightarrow> nat \<Rightarrow> nat \<Rightarrow> nat \<Rightarrow> rdma_ctx \<Rightarrow> bool" where
  "carries_write r c i q x \<longleftrightarrow> ctx_req x = Some r \<and> ctx_chunk_ptr x = Some (c, i) \<and> ctx_offset x = byte_pos q \<and> ctx_len x = 4096"

lemma pool_wf_slot: "pool_wf p \<Longrightarrow> length (ctx_pool p) = IS_QUEUE_DEPTH"
  by (auto simp: pool_wf_def split: option.splits)

lemma taken_slot:
  assumes "pools_ready c s" "k < length (IS_conns s)" "free_stack (ctx_pools (IS_conns s ! k) ! c) = xs @ [j]"
  shows "j < IS_QUEUE_DEPTH" "j \<notin> set xs" "pool_at (k, c, j) s"
proof -
  have wf: "pool_wf (ctx_pools (IS_conns s ! k) ! c)" "c < length (ctx_pools (IS_conns s ! k))"
    using assms by (simp_all add: pools_ready_def)
  show "j < IS_QUEUE_DEPTH" "j \<notin> set xs"
    using ctx_pool.free_distinct [OF wf(1)] ctx_pool.free_slots [OF wf(1)] assms(3) by auto
  show "pool_at (k, c, j) s" using wf assms(2) by (simp add: pool_at_def)
qed

lemma IS_transfer_write:
  assumes ctx: "pools_ready c (sess w)" "k < length (IS_conns (sess w))" "first_conn a = int k"
      "free_stack (ctx_pools (IS_conns (sess w) ! k) ! c) = xs @ [j]"
    and w: "rdma_on (sess w) = DEV_RDMA_ON" "bdev_raw w" "is_active w"
    and rq: "reqs w r = Some (page_rq True p a)" "p < dev_pages" "pages w r = [v]"
  shows "\<exists>P. IS_transfer_chunk n True (int c) (int i) ch (byte_pos q) 4096 True r w = Some (Inr (0, w\<lparr>
       sess := set_pool (k, c, j) P (sess w), bufs := (bufs w)((k, c, j) := v # drop 1 (bufs w (k, c, j))),
       bio_list := bio_list w @ [ctx_bio p (k, c, j)], sq := (sq w)(c := sq w c @ [page_wr RDMA_WRITE (k, c, j) ch q])\<rparr>)) \<and>
     pool_wf P \<and> free_stack P = xs \<and> carries_write r c i q (ctx_pool P ! j)"
proof -
  note slot = taken_slot [OF ctx(1,2,4)]
  from take_ctx_hit [OF ctx] obtain P where P: "take_ctx n (int c) a (sess w) = Some (Inr ((k, c, j), set_pool (k, c, j) P (sess w)))"
    "pool_wf P" "free_stack P = xs" by blast
  then have j: "j < length (ctx_pool P)" using slot(1) pool_wf_slot by simp
  let ?x = "\<lambda>x. x\<lparr>ctx_req := Some r, ctx_offset := byte_pos q, ctx_len := 4096,
                ctx_chunk_ptr := Some (c, i), ctx_chunk_index := int i, in_flight := CTX_W_IN_FLIGHT\<rparr>"
  let ?P = "P\<lparr>ctx_pool := (ctx_pool P)[j := ?x (ctx_pool P ! j)]\<rparr>"
  let ?w = "w\<lparr>preempt_count := preempt_count w + 1, sess := set_pool (k, c, j) P (sess w)\<rparr>"
  have "set_ctx (k, c, j) ?x ?w = Inr (?w\<lparr>sess := set_pool (k, c, j) ?P (sess w)\<rparr>)"
    using set_ctx_set [OF slot(3) j, of ?w ?x] by simp
  then have "IS_transfer_chunk n True (int c) (int i) ch (byte_pos q) 4096 True r w = Some (Inr (0, w\<lparr>
       sess := set_pool (k, c, j) ?P (sess w), bufs := (bufs w)((k, c, j) := v # drop 1 (bufs w (k, c, j))),
       bio_list := bio_list w @ [ctx_bio p (k, c, j)], sq := (sq w)(c := sq w c @ [page_wr RDMA_WRITE (k, c, j) ch q])\<rparr>))"
    using P(1) rq w page_rq_index(4) [OF rq(2), of True a]
    by (simp add: IS_transfer_chunk_def Let_def IS_rdma_write_def bind_ro_def get_req_def mem_gather_def MAX_SGL_LEN_def
          stackbd_bio_generate_def stackbd_make_request5_def post_send_def ctx_bio_def page_wr_def)
  then show ?thesis using P j by (intro exI [of _ ?P]) (simp add: carries_write_def)
qed

lemma IS_transfer_read:
  assumes ctx: "pools_ready c (sess w)" "k < length (IS_conns (sess w))" "first_conn a = int k"
      "free_stack (ctx_pools (IS_conns (sess w) ! k) ! c) = xs @ [j]"
    and w: "rdma_on (sess w) = DEV_RDMA_ON" and rq: "reqs w r = Some (page_rq False p a)"
  shows "\<exists>P. IS_transfer_chunk n True (int c) (int i) ch (byte_pos q) 4096 False r w = Some (Inr (0, w\<lparr>
       sess := set_pool (k, c, j) P (sess w), sq := (sq w)(c := sq w c @ [page_wr RDMA_READ (k, c, j) ch q])\<rparr>)) \<and>
     pool_wf P \<and> free_stack P = xs \<and> ctx_req (ctx_pool P ! j) = Some r"
proof -
  note slot = taken_slot [OF ctx(1,2,4)]
  from take_ctx_hit [OF ctx] obtain P where P: "take_ctx n (int c) a (sess w) = Some (Inr ((k, c, j), set_pool (k, c, j) P (sess w)))"
    "pool_wf P" "free_stack P = xs" by blast
  then have j: "j < length (ctx_pool P)" using slot(1) pool_wf_slot by simp
  let ?x = "\<lambda>x. x\<lparr>ctx_req := Some r, ctx_chunk_index := int i, in_flight := CTX_R_IN_FLIGHT\<rparr>"
  let ?P = "P\<lparr>ctx_pool := (ctx_pool P)[j := ?x (ctx_pool P ! j)]\<rparr>"
  let ?w = "w\<lparr>preempt_count := preempt_count w + 1, sess := set_pool (k, c, j) P (sess w)\<rparr>"
  have "set_ctx (k, c, j) ?x ?w = Inr (?w\<lparr>sess := set_pool (k, c, j) ?P (sess w)\<rparr>)"
    using set_ctx_set [OF slot(3) j, of ?w ?x] by simp
  then have "IS_transfer_chunk n True (int c) (int i) ch (byte_pos q) 4096 False r w = Some (Inr (0, w\<lparr>
       sess := set_pool (k, c, j) ?P (sess w), sq := (sq w)(c := sq w c @ [page_wr RDMA_READ (k, c, j) ch q])\<rparr>))"
    using P(1) rq w
    by (simp add: IS_transfer_chunk_def Let_def IS_rdma_read_def bind_ro_def get_req_def post_send_def page_wr_def)
  then show ?thesis using P j by (intro exI [of _ ?P]) simp
qed

section \<open>The phases of a write over the network\<close>

text \<open>
  The write to the disk (progress \<open>a\<close>: queued, handed to the disk, done) and the write over the network
  (progress \<open>b\<close>: posted, executed, completed) go on independently. \<open>bm\<close> is the bitmap after the write.
\<close>

definition mark :: "nat \<Rightarrow> nat \<Rightarrow> u32 list \<Rightarrow> IS_session \<Rightarrow> IS_session" where
  "mark c i bm s = upd_rc c (\<lambda>rc. rc\<lparr>chunk_list := (chunk_list rc)[i := (chunk_at s c i)\<lparr>bitmap_g := Some bm\<rparr>]\<rparr>) s"

definition put_remote :: "nat \<Rightarrow> remote_chunk_g \<Rightarrow> nat \<Rightarrow> page \<Rightarrow> (nat \<Rightarrow> u32 \<Rightarrow> u64 \<Rightarrow> page) \<Rightarrow> nat \<Rightarrow> u32 \<Rightarrow> u64 \<Rightarrow> page" where
  "put_remote c ch q v m = m(c := (m c)(remote_rkey ch := (m c (remote_rkey ch))(page_addr (remote_addr ch) q := v)))"

definition at_phase :: "nat \<Rightarrow> nat \<Rightarrow> 'a list \<Rightarrow> 'a list" where
  "at_phase n m xs = (if n = m then xs else [])"

definition in_pool :: "ctx_ref \<Rightarrow> nat list \<Rightarrow> (rdma_ctx \<Rightarrow> bool) \<Rightarrow> IS_session \<Rightarrow> IS_session \<Rightarrow> bool" where
  "in_pool cr xs ok s s' \<longleftrightarrow> (\<exists>P. s' = set_pool cr P s \<and> pool_wf P \<and> free_stack P = xs \<and> ok (ctx_pool P ! snd (snd cr)))"

definition rest_io :: "io \<Rightarrow> (nat \<Rightarrow> request option) \<times> bool \<times> bool \<times> int" where
  "rest_io w = (reqs w, bdev_raw w, is_active w, preempt_count w)"

lemma rest_io_simps [simp]:
  "rest_io (w\<lparr>sess := a\<rparr>) = rest_io w" "rest_io (w\<lparr>pages := b\<rparr>) = rest_io w" "rest_io (w\<lparr>bufs := c\<rparr>) = rest_io w"
  "rest_io (w\<lparr>bio_list := d\<rparr>) = rest_io w" "rest_io (w\<lparr>submitted := d\<rparr>) = rest_io w" "rest_io (w\<lparr>sq := e\<rparr>) = rest_io w"
  "rest_io (w\<lparr>wcs := f\<rparr>) = rest_io w" "rest_io (w\<lparr>ended := g\<rparr>) = rest_io w" "rest_io (w\<lparr>disk := h\<rparr>) = rest_io w"
  "rest_io (w\<lparr>rmem := l\<rparr>) = rest_io w"
  by (simp_all add: rest_io_def)

definition write_phase :: "io \<Rightarrow> nat \<Rightarrow> nat \<Rightarrow> page \<Rightarrow> ctx_ref \<Rightarrow> nat list \<Rightarrow> nat \<Rightarrow> u32 list \<Rightarrow> nat \<Rightarrow> nat \<Rightarrow> io \<Rightarrow> bool" where
  "write_phase w0 r p v cr xs i bm a b w \<longleftrightarrow>
     (let s = sess w0; c = fst (snd cr); ch = chunk_at s c i; q = page_no p
      in rest_io w = rest_io w0 \<and> pages w = pages w0 \<and>
         in_pool cr (xs @ at_phase a 2 [snd (snd cr)]) (\<lambda>x. b < 2 \<longrightarrow> carries_write r c i q x)
           (if b = 2 then mark c i bm s else s) (sess w) \<and>
         (b = 0 \<or> a < 2 \<longrightarrow> (\<exists>l. bufs w cr = v # l)) \<and>
         bio_list w = at_phase a 0 [ctx_bio p cr] \<and> submitted w = at_phase a 1 [ctx_bio p cr] \<and>
         sq w = (\<lambda>_. [])(c := at_phase b 0 [page_wr RDMA_WRITE cr ch q]) \<and>
         wcs w = (\<lambda>_. [])(c := at_phase b 1 [(WC_SUCCESS, WC_RDMA_WRITE cr)]) \<and>
         ended w = ended w0 @ at_phase b 2 [(r, 0)] \<and> disk w = (if a = 2 then (disk w0)(p := v) else disk w0) \<and>
         rmem w = (if b = 0 then rmem w0 else put_remote c ch q v (rmem w0)))"

lemma at_phase_simps [simp]: "at_phase n n xs = xs" "n \<noteq> m \<Longrightarrow> at_phase n m xs = []"
  by (simp_all add: at_phase_def)

lemma at_phase_empty: "at_phase n m [x] = [] \<longleftrightarrow> n \<noteq> m" "[] = at_phase n m [x] \<longleftrightarrow> n \<noteq> m"
  by (simp_all add: at_phase_def)

lemma page_addr_off: "page_addr (x + byte_pos q) 0 = page_addr x q"
  by (simp add: page_addr_def byte_pos_def IS_PAGE_SIZE_def)

lemma page_count_page [simp]: "page_count 4096 = 1"
  by (simp add: page_count_def IS_PAGE_SIZE_def)

lemma rdma_execute_write:
  "bufs w cr = v # l \<Longrightarrow> rdma_execute c (page_wr RDMA_WRITE cr ch q) w =
     w\<lparr>rmem := put_remote c ch q v (rmem w), wcs := (wcs w)(c := wcs w c @ [(WC_SUCCESS, WC_RDMA_WRITE cr)])\<rparr>"
  by (simp add: rdma_execute_def page_wr_def put_remote_def page_addr_off)

lemma disk_transfer_ctx:
  "bufs w cr = v # l \<Longrightarrow> disk_transfer (ctx_bio p cr) w = w\<lparr>disk := (disk w)(p := v)\<rparr>"
proof -
  assume "bufs w cr = v # l"
  moreover have "(\<lambda>q. if p \<le> q \<and> q < Suc p then [v] ! (q - p) else disk w q) = (disk w)(p := v)"
    by (auto simp: fun_eq_iff)
  ultimately show ?thesis by (simp add: disk_transfer_def ctx_bio_def bio_pages_def cong: if_cong)
qed

lemma write_thread:
  assumes "write_phase w0 r p v cr xs i bm 0 b w"
  shows "write_phase w0 r p v cr xs i bm 1 b (stackbd_threadfn w)"
  using assms by (simp add: write_phase_def Let_def stackbd_threadfn_def stackbd_io_fn_def)

lemma write_net:
  assumes "write_phase w0 r p v cr xs i bm a 0 w"
  shows "write_phase w0 r p v cr xs i bm a 1 (rdma_net (fst (snd cr)) w)"
  using assms by (auto simp: write_phase_def Let_def rdma_net_def rdma_execute_write fun_upd_idem)

lemma return_in_pool:
  assumes "in_pool cr xs ok s (sess w)" "pool_at cr s" "snd (snd cr) < IS_QUEUE_DEPTH" "snd (snd cr) \<notin> set xs"
  shows "\<exists>s'. return_ctx cr w = Inr (w\<lparr>sess := s'\<rparr>) \<and> in_pool cr (xs @ [snd (snd cr)]) ok s s'"
proof -
  obtain k c j where cr: "cr = (k, c, j)" by (cases cr)
  from assms(1) obtain P where P: "sess w = set_pool cr P s" "pool_wf P" "free_stack P = xs" "ok (ctx_pool P ! j)"
    unfolding in_pool_def cr by auto
  obtain P' where P': "return_ctx (k, c, j) w = Inr (w\<lparr>sess := set_pool (k, c, j) P' s\<rparr>)" "pool_wf P'" "free_stack P' = xs @ [j]"
    "ctx_pool P' = ctx_pool P"
    using return_ctx_set [of k c j s w P xs] assms(2,3,4) P unfolding cr by auto
  then have "in_pool cr (xs @ [j]) ok s (set_pool cr P' s)"
    unfolding in_pool_def using P(4) cr by (intro exI [of _ P']) simp
  with P'(1) cr show ?thesis by auto
qed

lemma write_disk:
  assumes "write_phase w0 r p v cr xs i bm 1 b w" "pool_at cr (sess w0)" "snd (snd cr) < IS_QUEUE_DEPTH" "snd (snd cr) \<notin> set xs"
  shows "\<exists>w'. disk_end 0 w = Inr w' \<and> write_phase w0 r p v cr xs i bm 2 b w'"
proof -
  let ?c = "fst (snd cr)" let ?s = "if b = 2 then mark ?c i bm (sess w0) else sess w0"
  let ?w = "w\<lparr>submitted := [], disk := (disk w)(p := v)\<rparr>"
  from assms(1) obtain l where l: "bufs w cr = v # l" and sub: "submitted w = [ctx_bio p cr]"
    by (auto simp: write_phase_def Let_def)
  then have "disk_end 0 w = return_ctx cr ?w"
    using disk_transfer_ctx [of "w\<lparr>submitted := []\<rparr>" cr v l p]
    by (simp add: disk_end_def IS_stackbd_end_io_def) (simp add: ctx_bio_def)
  moreover have "in_pool cr xs (\<lambda>x. b < 2 \<longrightarrow> carries_write r ?c i (page_no p) x) ?s (sess ?w)"
    using assms(1) by (simp add: write_phase_def Let_def)
  moreover have "pool_at cr ?s" using assms(2) by (simp add: mark_def)
  ultimately obtain s' where s': "disk_end 0 w = Inr (?w\<lparr>sess := s'\<rparr>)"
    "in_pool cr (xs @ [snd (snd cr)]) (\<lambda>x. b < 2 \<longrightarrow> carries_write r ?c i (page_no p) x) ?s s'"
    using return_in_pool [of cr xs "\<lambda>x. b < 2 \<longrightarrow> carries_write r ?c i (page_no p) x" ?s ?w] assms(3,4) by auto
  then show ?thesis using assms(1) l by (auto simp: write_phase_def Let_def)
qed

lemma ctx_in_pool:
  assumes "in_pool cr xs ok s s'" "pool_at cr s" "snd (snd cr) < IS_QUEUE_DEPTH"
  shows "\<exists>x. ctx_at cr s' = Inr x \<and> ok x"
proof (cases cr)
  case (fields k c j)
  then show ?thesis using assms pool_wf_slot by (auto simp: in_pool_def)
qed

lemma set_in_pool:
  assumes "in_pool cr xs ok s (sess w)" "pool_at cr s" "snd (snd cr) < IS_QUEUE_DEPTH" "\<And>x. ok x \<Longrightarrow> ok' (f x)"
  shows "\<exists>s''. set_ctx cr f w = Inr (w\<lparr>sess := s''\<rparr>) \<and> in_pool cr xs ok' s s''"
proof -
  obtain k c j where cr: "cr = (k, c, j)" by (cases cr)
  from assms(1) obtain P where P: "sess w = set_pool cr P s" "pool_wf P" "free_stack P = xs" "ok (ctx_pool P ! j)"
    unfolding in_pool_def cr by auto
  then have j: "j < length (ctx_pool P)" using assms(3) pool_wf_slot cr by simp
  let ?P = "P\<lparr>ctx_pool := (ctx_pool P)[j := f (ctx_pool P ! j)]\<rparr>"
  have "set_ctx cr f w = Inr (w\<lparr>sess := set_pool cr ?P s\<rparr>)"
    using set_ctx_set [of k c j s P w f] assms(2) j P(1) unfolding cr by simp
  moreover have "in_pool cr xs ok' s (set_pool cr ?P s)"
    unfolding in_pool_def using P j assms(4) cr by (intro exI [of _ ?P]) simp
  ultimately show ?thesis by blast
qed

lemma in_pool_tables:
  "in_pool cr xs ok s s' \<Longrightarrow> cb_list s' = cb_list s" "in_pool cr xs ok s s' \<Longrightarrow> in_pool cr xs ok (mark c i bm s) (mark c i bm s')"
  by (auto simp: in_pool_def mark_def)

lemma in_pool_mono: "in_pool cr xs ok s s' \<Longrightarrow> (\<And>x. ok x \<Longrightarrow> ok' x) \<Longrightarrow> in_pool cr xs ok' s s'"
  unfolding in_pool_def by blast

lemma poll_one:
  assumes "wcs w = (\<lambda>_. [])(c := [(WC_SUCCESS, opc)])" "state (cb_at (sess w) c) \<noteq> ERROR"
    "handle_wc le True c opc (w\<lparr>wcs := \<lambda>_. []\<rparr>) = Inr (True, w')"
  shows "rdma_cq_event_handler le True True c w = Inr w'"
  using assms by (simp add: rdma_cq_event_handler_def fun_upd_idem)

lemma write_cq:
  assumes ph: "write_phase w0 r p v cr xs i bm a 1 w" and ctx: "pool_at cr (sess w0)" "snd (snd cr) < IS_QUEUE_DEPTH"
    and cb: "c = fst (snd cr)" "state (cb_at (sess w0) c) \<noteq> ERROR"
    and bm: "bitmap_g (chunk_at (sess w0) c i) = Some bm0" "IS_bitmap_group_set bm0 (byte_pos (page_no p)) 4096 = Inr bm"
  shows "\<exists>w'. rdma_cq_event_handler le True True c w = Inr w' \<and> write_phase w0 r p v cr xs i bm a 2 w'"
proof -
  let ?xs = "xs @ at_phase a 2 [snd (snd cr)]" let ?q = "page_no p" let ?u = "w\<lparr>wcs := \<lambda>_. []\<rparr>"
  from ph cb have ip: "in_pool cr ?xs (carries_write r c i ?q) (sess w0) (sess w)"
    by (simp add: write_phase_def Let_def)
  note tab = in_pool_tables(1) [OF ip] and marked = in_pool_tables(2) [OF ip, of c i bm]
  have at: "pool_at cr (mark c i bm (sess w0))" using ctx(1) by (simp add: mark_def)
  obtain x where x: "ctx_at cr (sess w) = Inr x" "carries_write r c i ?q x"
    using ctx_in_pool [OF ip ctx] by blast
  let ?f = "\<lambda>x. x\<lparr>in_flight := CTX_IDLE, ctx_chunk_index := -1, ctx_chunk_ptr := None, ctx_req := None\<rparr>"
  let ?m = "?u\<lparr>sess := mark c i bm (sess w)\<rparr>"
  obtain s' where s': "set_ctx cr ?f ?m = Inr (?m\<lparr>sess := s'\<rparr>)" "in_pool cr ?xs (\<lambda>_. True) (mark c i bm (sess w0)) s'"
    using set_in_pool [of cr ?xs _ _ ?m "\<lambda>_. True" ?f] marked at ctx(2) by auto
  have "client_write_done cr ?u = Inr (end_request r (?m\<lparr>sess := s'\<rparr>))"
    using x s'(1) bm tab by (simp add: client_write_done_def carries_write_def Let_def mark_def)
  then have "rdma_cq_event_handler le True True c w = Inr (end_request r (?m\<lparr>sess := s'\<rparr>))"
    using ph cb tab by (intro poll_one [of w c "WC_RDMA_WRITE cr"]) (simp_all add: write_phase_def Let_def handle_wc_def)
  moreover have "write_phase w0 r p v cr xs i bm a 2 (end_request r (?m\<lparr>sess := s'\<rparr>))"
    using ph s'(2) cb by (simp add: write_phase_def Let_def end_request_def fun_upd_idem)
  ultimately show ?thesis by blast
qed

text \<open>An event that finds nothing to do changes nothing.\<close>

lemma idle_events:
  "bio_list w = [] \<Longrightarrow> stackbd_threadfn w = w" "length (submitted w) \<le> n \<Longrightarrow> disk_end n w = Inr w"
  "sq w c = [] \<Longrightarrow> rdma_net c w = w" "wcs w c = [] \<Longrightarrow> rdma_cq_event_handler le True True c w = Inr w"
  by (simp_all add: stackbd_threadfn_def disk_end_def rdma_net_def rdma_cq_event_handler_def)

lemma run_events_inv:
  assumes "\<And>e w. I w \<Longrightarrow> \<exists>w'. io_event le e w = Inr w' \<and> I w'" "I w"
  shows "\<exists>w'. run_events le es w = Inr w' \<and> I w'"
  using assms(2)
proof (induction es arbitrary: w)
  case (Cons e es)
  then show ?case using assms(1) [of w e] by fastforce
qed simp

lemma run_events_append:
  "run_events le (es @ es') w = bind_res (run_events le es w) (run_events le es')"
proof (induction es arbitrary: w)
  case (Cons e es)
  then show ?case by (cases "io_event le e w") simp_all
qed simp

definition write_run :: "io \<Rightarrow> nat \<Rightarrow> nat \<Rightarrow> page \<Rightarrow> ctx_ref \<Rightarrow> nat list \<Rightarrow> nat \<Rightarrow> u32 list \<Rightarrow> io \<Rightarrow> bool" where
  "write_run w0 r p v cr xs i bm w \<longleftrightarrow> (\<exists>a \<le> 2. \<exists>b \<le> 2. write_phase w0 r p v cr xs i bm a b w)"

lemma write_event:
  assumes run: "write_run w0 r p v cr xs i bm w" and ctx: "pool_at cr (sess w0)" "snd (snd cr) < IS_QUEUE_DEPTH" "snd (snd cr) \<notin> set xs"
    and cb: "c = fst (snd cr)" "state (cb_at (sess w0) c) \<noteq> ERROR"
    and bm: "bitmap_g (chunk_at (sess w0) c i) = Some bm0" "IS_bitmap_group_set bm0 (byte_pos (page_no p)) 4096 = Inr bm"
  shows "\<exists>w'. io_event le e w = Inr w' \<and> write_run w0 r p v cr xs i bm w'"
proof -
  from run obtain a b where ab: "a \<le> 2" "b \<le> 2" and ph: "write_phase w0 r p v cr xs i bm a b w"
    unfolding write_run_def by blast
  have step: "write_run w0 r p v cr xs i bm w'" if "write_phase w0 r p v cr xs i bm a' b' w'" "a' \<le> 2" "b' \<le> 2" for a' b' w'
    using that unfolding write_run_def by blast
  from ph cb have q: "bio_list w = at_phase a 0 [ctx_bio p cr]" "submitted w = at_phase a 1 [ctx_bio p cr]"
    "a \<noteq> 1 \<Longrightarrow> submitted w = []" "d \<noteq> c \<or> b \<noteq> 0 \<Longrightarrow> sq w d = []" "d \<noteq> c \<or> b \<noteq> 1 \<Longrightarrow> wcs w d = []" for d
    by (auto simp: write_phase_def Let_def)
  show ?thesis
  proof (cases e)
    case Thread
    then show ?thesis using write_thread [of w0 r p v cr xs i bm b w] ph step ab q(1) run idle_events(1)
      by (cases "a = 0") auto
  next
    case (Disk n)
    show ?thesis
    proof (cases "a = 1 \<and> n = 0")
      case True
      then show ?thesis using write_disk [of w0 r p v cr xs i bm b w] ph ctx step ab(2) Disk by auto
    next
      case False
      then have "length (submitted w) \<le> n" using q(2,3) by (cases "a = 1") simp_all
      then show ?thesis using idle_events(2) run Disk by auto
    qed
  next
    case (Net d)
    then show ?thesis using write_net [of w0 r p v cr xs i bm a w] ph step ab(1) q(4) [of d] run idle_events(3) [of w d] cb(1)
      by (cases "d = c \<and> b = 0") auto
  next
    case (Cq d)
    then show ?thesis using write_cq [OF _ ctx(1,2) cb bm, of r v xs a w le] ph step ab(1) q(5) [of d] run idle_events(4) [of w d le]
      by (cases "d = c \<and> b = 1") auto
  qed
qed

section \<open>The phases of a read over the network\<close>

definition read_phase :: "io \<Rightarrow> nat \<Rightarrow> nat \<Rightarrow> page \<Rightarrow> ctx_ref \<Rightarrow> nat list \<Rightarrow> nat \<Rightarrow> nat \<Rightarrow> io \<Rightarrow> bool" where
  "read_phase w0 r p v cr xs i b w \<longleftrightarrow>
     (let c = fst (snd cr)
      in rest_io w = rest_io w0 \<and> bio_list w = [] \<and> submitted w = [] \<and> disk w = disk w0 \<and> rmem w = rmem w0 \<and>
         in_pool cr (xs @ at_phase b 2 [snd (snd cr)]) (\<lambda>x. b < 2 \<longrightarrow> ctx_req x = Some r) (sess w0) (sess w) \<and>
         (b = 1 \<longrightarrow> (\<exists>l. bufs w cr = v # l)) \<and> pages w = (if b = 2 then (pages w0)(r := [v]) else pages w0) \<and>
         sq w = (\<lambda>_. [])(c := at_phase b 0 [page_wr RDMA_READ cr (chunk_at (sess w0) c i) (page_no p)]) \<and>
         wcs w = (\<lambda>_. [])(c := at_phase b 1 [(WC_SUCCESS, WC_RDMA_READ cr)]) \<and>
         ended w = ended w0 @ at_phase b 2 [(r, 0)])"

definition read_run :: "io \<Rightarrow> nat \<Rightarrow> nat \<Rightarrow> page \<Rightarrow> ctx_ref \<Rightarrow> nat list \<Rightarrow> nat \<Rightarrow> io \<Rightarrow> bool" where
  "read_run w0 r p v cr xs i w \<longleftrightarrow> (\<exists>b \<le> 2. read_phase w0 r p v cr xs i b w)"

lemma rdma_execute_read:
  "rdma_execute c (page_wr RDMA_READ cr ch q) w =
     w\<lparr>bufs := (bufs w)(cr := remote_page w c ch q # drop 1 (bufs w cr)),
       wcs := (wcs w)(c := wcs w c @ [(WC_SUCCESS, WC_RDMA_READ cr)])\<rparr>"
  by (simp add: rdma_execute_def page_wr_def page_addr_off remote_page_def)

lemma read_net:
  assumes "read_phase w0 r p v cr xs i 0 w" "c = fst (snd cr)" "v = remote_page w0 c (chunk_at (sess w0) c i) (page_no p)"
  shows "read_phase w0 r p v cr xs i 1 (rdma_net c w)"
  using assms by (auto simp: read_phase_def Let_def rdma_net_def rdma_execute_read fun_upd_idem remote_page_def)

lemma read_cq:
  assumes ph: "read_phase w0 r p v cr xs i 1 w" and cb: "c = fst (snd cr)" "state (cb_at (sess w0) c) \<noteq> ERROR"
    and ctx: "pool_at cr (sess w0)" "snd (snd cr) < IS_QUEUE_DEPTH" "snd (snd cr) \<notin> set xs" and pg: "pages w0 r = [u]"
  shows "\<exists>w'. rdma_cq_event_handler le True True c w = Inr w' \<and> read_phase w0 r p v cr xs i 2 w'"
proof -
  let ?u = "w\<lparr>wcs := \<lambda>_. []\<rparr>"
  from ph have ip: "in_pool cr xs (\<lambda>x. ctx_req x = Some r) (sess w0) (sess ?u)" by (simp add: read_phase_def Let_def)
  from ph obtain l where l: "bufs w cr = v # l" and p: "pages w = pages w0" by (auto simp: read_phase_def Let_def)
  obtain x where x: "ctx_at cr (sess w) = Inr x" "ctx_req x = Some r" using ctx_in_pool [OF ip ctx(1,2)] by auto
  let ?f = "\<lambda>x. x\<lparr>in_flight := CTX_IDLE, ctx_chunk_index := -1, ctx_req := None\<rparr>"
  obtain s' where s': "set_ctx cr ?f ?u = Inr (?u\<lparr>sess := s'\<rparr>)" "in_pool cr xs (\<lambda>_. True) (sess w0) s'"
    using set_in_pool [OF ip ctx(1,2), of "\<lambda>_. True" ?f] by auto
  let ?v = "?u\<lparr>sess := s', pages := (pages w0)(r := [v])\<rparr>"
  obtain s'' where s'': "return_ctx cr ?v = Inr (?v\<lparr>sess := s''\<rparr>)" "in_pool cr (xs @ [snd (snd cr)]) (\<lambda>_. True) (sess w0) s''"
    using return_in_pool [of cr xs "\<lambda>_. True" "sess w0" ?v] ctx s'(2) by auto
  have "client_read_done cr ?u = Inr (end_request r (?v\<lparr>sess := s''\<rparr>))"
    using x s'(1) s''(1) l p pg by (simp add: client_read_done_def)
  then have "rdma_cq_event_handler le True True c w = Inr (end_request r (?v\<lparr>sess := s''\<rparr>))"
    using ph cb in_pool_tables(1) [OF ip]
    by (intro poll_one [of w c "WC_RDMA_READ cr"]) (simp_all add: read_phase_def Let_def handle_wc_def)
  moreover have "read_phase w0 r p v cr xs i 2 (end_request r (?v\<lparr>sess := s''\<rparr>))"
    using ph s''(2) cb(1) by (simp add: read_phase_def Let_def end_request_def fun_upd_idem)
  ultimately show ?thesis by blast
qed

lemma read_event:
  assumes run: "read_run w0 r p v cr xs i w" and cb: "c = fst (snd cr)" "state (cb_at (sess w0) c) \<noteq> ERROR"
    and ctx: "pool_at cr (sess w0)" "snd (snd cr) < IS_QUEUE_DEPTH" "snd (snd cr) \<notin> set xs" and pg: "pages w0 r = [u]"
    and v: "v = remote_page w0 c (chunk_at (sess w0) c i) (page_no p)"
  shows "\<exists>w'. io_event le e w = Inr w' \<and> read_run w0 r p v cr xs i w'"
proof -
  from run obtain b where b: "b \<le> 2" and ph: "read_phase w0 r p v cr xs i b w" unfolding read_run_def by blast
  have step: "read_run w0 r p v cr xs i w'" if "read_phase w0 r p v cr xs i b' w'" "b' \<le> 2" for b' w'
    using that unfolding read_run_def by blast
  from ph cb have q: "bio_list w = []" "submitted w = []" "d \<noteq> c \<or> b \<noteq> 0 \<Longrightarrow> sq w d = []" "d \<noteq> c \<or> b \<noteq> 1 \<Longrightarrow> wcs w d = []" for d
    by (auto simp: read_phase_def Let_def)
  show ?thesis
  proof (cases e)
    case (Net d)
    then show ?thesis using read_net [of w0 r p v cr xs i w c] ph step q(3) [of d] run idle_events(3) [of w d] cb(1) v
      by (cases "d = c \<and> b = 0") auto
  next
    case (Cq d)
    then show ?thesis using read_cq [OF _ cb ctx pg, of p v i w le] ph step q(4) [of d] run idle_events(4) [of w d le]
      by (cases "d = c \<and> b = 1") auto
  qed (use run q idle_events in auto)
qed

section \<open>The phases of a request on the disk\<close>

definition disk_phase :: "io \<Rightarrow> bool \<Rightarrow> nat \<Rightarrow> nat \<Rightarrow> page \<Rightarrow> nat \<Rightarrow> io \<Rightarrow> bool" where
  "disk_phase w0 wrt r p v a w \<longleftrightarrow>
     rest_io w = rest_io w0 \<and> sess w = sess w0 \<and> bufs w = bufs w0 \<and> rmem w = rmem w0 \<and> sq w = (\<lambda>_. []) \<and> wcs w = (\<lambda>_. []) \<and>
     bio_list w = at_phase a 0 [disk_bio wrt r p] \<and> submitted w = at_phase a 1 [disk_bio wrt r p] \<and>
     ended w = ended w0 @ at_phase a 2 [(r, 0)] \<and> disk w = (if a = 2 \<and> wrt then (disk w0)(p := v) else disk w0) \<and>
     pages w = (if a = 2 \<and> \<not> wrt then (pages w0)(r := [disk w0 p]) else pages w0)"

definition disk_run :: "io \<Rightarrow> bool \<Rightarrow> nat \<Rightarrow> nat \<Rightarrow> page \<Rightarrow> io \<Rightarrow> bool" where
  "disk_run w0 wrt r p v w \<longleftrightarrow> (\<exists>a \<le> 2. disk_phase w0 wrt r p v a w)"

lemma disk_transfer_req:
  "pages w r = [v] \<Longrightarrow> disk_transfer (disk_bio wrt r p) w =
     (if wrt then w\<lparr>disk := (disk w)(p := v)\<rparr> else w\<lparr>pages := (pages w)(r := [disk w p])\<rparr>)"
proof -
  assume "pages w r = [v]"
  moreover have "(\<lambda>q. if p \<le> q \<and> q < Suc p then [v] ! (q - p) else disk w q) = (disk w)(p := v)"
    by (auto simp: fun_eq_iff)
  ultimately show ?thesis by (simp add: disk_transfer_def disk_bio_def bio_pages_def cong: if_cong)
qed

lemma disk_end_req:
  assumes "disk_phase w0 wrt r p v 1 w" "pages w0 r = [v]"
  shows "\<exists>w'. disk_end 0 w = Inr w' \<and> disk_phase w0 wrt r p v 2 w'"
proof -
  have "disk_end 0 w = Inr (end_request r (disk_transfer (disk_bio wrt r p) (w\<lparr>submitted := []\<rparr>)))"
    using assms(1) by (simp add: disk_end_def disk_phase_def IS_stackbd_end_io_def) (simp add: disk_bio_def)
  moreover have "pages (w\<lparr>submitted := []\<rparr>) r = [v]" using assms by (simp add: disk_phase_def)
  ultimately show ?thesis
    using assms(1) by (simp add: disk_transfer_req disk_phase_def end_request_def)
qed

lemma disk_event:
  assumes run: "disk_run w0 wrt r p v w" and pg: "pages w0 r = [v]"
  shows "\<exists>w'. io_event le e w = Inr w' \<and> disk_run w0 wrt r p v w'"
proof -
  from run obtain a where a: "a \<le> 2" and ph: "disk_phase w0 wrt r p v a w" unfolding disk_run_def by blast
  have step: "disk_run w0 wrt r p v w'" if "disk_phase w0 wrt r p v a' w'" "a' \<le> 2" for a' w'
    using that unfolding disk_run_def by blast
  from ph have q: "a \<noteq> 0 \<Longrightarrow> bio_list w = []" "a \<noteq> 1 \<Longrightarrow> submitted w = []" "submitted w = at_phase a 1 [disk_bio wrt r p]"
    "sq w d = []" "wcs w d = []" for d
    by (auto simp: disk_phase_def)
  show ?thesis
  proof (cases e)
    case Thread
    have "disk_phase w0 wrt r p v 1 (stackbd_threadfn w)" if "a = 0"
      using ph that by (simp add: disk_phase_def stackbd_threadfn_def stackbd_io_fn_def)
    then show ?thesis using step q(1) run idle_events(1) Thread by (cases "a = 0") auto
  next
    case (Disk n)
    show ?thesis
    proof (cases "a = 1 \<and> n = 0")
      case True
      then show ?thesis using disk_end_req [OF _ pg, of wrt p w] ph step Disk by auto
    next
      case False
      then have "length (submitted w) \<le> n" using q(2,3) by (cases "a = 1") simp_all
      then show ?thesis using idle_events(2) run Disk by auto
    qed
  qed (use run q idle_events in auto)
qed

section \<open>What a request leaves of the session\<close>

lemma sess_ready_cong:
  assumes "map_inv t = map_inv s" "sess_view t = sess_view s" "length (write_ops t) = length (write_ops s)"
    "length (read_ops t) = length (read_ops s)" "\<And>c. pools_ready c s \<Longrightarrow> pools_ready c t"
    "\<And>c i g. (c, i, g) \<in> sess_view s \<Longrightarrow> state (cb_at t c) = state (cb_at s c) \<and>
       remote_rkey (chunk_at t c i) = remote_rkey (chunk_at s c i) \<and> remote_addr (chunk_at t c i) = remote_addr (chunk_at s c i)"
    "sess_ready s"
  shows "sess_ready t"
proof -
  have "apart (chunk_at t c i) (chunk_at t c i') = apart (chunk_at s c i) (chunk_at s c i')"
    if "(c, i, g) \<in> sess_view s" "(c, i', g') \<in> sess_view s" for c i g i' g'
    using assms(6) [OF that(1)] assms(6) [OF that(2)] by (simp add: apart_def)
  then show ?thesis using assms unfolding sess_ready_def by metis
qed

lemma bump_keeps:
  "map_inv (bump wrt g s) = map_inv s" "sess_view (bump wrt g s) = sess_view s" "pools_ready c (bump wrt g s) = pools_ready c s"
  "sess_ready s \<Longrightarrow> sess_ready (bump wrt g s)"
proof -
  show inv: "map_inv (bump wrt g s) = map_inv s" by (rule map_inv_cong) simp_all
  show v: "sess_view (bump wrt g s) = sess_view s" by (simp add: sess_view_def)
  show p: "pools_ready c (bump wrt g s) = pools_ready c s" for c by (simp add: pools_ready_def)
  show "sess_ready s \<Longrightarrow> sess_ready (bump wrt g s)"
    by (rule sess_ready_cong [of _ s]) (simp_all add: inv v p)
qed

lemma in_pool_keeps:
  assumes "in_pool cr xs ok s t" "xs \<noteq> []"
  shows "sess_view t = sess_view s" "rdma_on t = rdma_on s" "cb_list t = cb_list s" "length (IS_conns t) = length (IS_conns s)"
    "sess_ready s \<Longrightarrow> sess_ready t"
proof -
  obtain k c j where cr: "cr = (k, c, j)" by (cases cr)
  from assms(1) obtain P where P: "t = set_pool (k, c, j) P s" "pool_wf P" "free_stack P = xs" unfolding in_pool_def cr by blast
  show view: "sess_view t = sess_view s" by (simp add: P(1) sess_view_def)
  show "rdma_on t = rdma_on s" "cb_list t = cb_list s" "length (IS_conns t) = length (IS_conns s)" by (simp_all add: P(1))
  have "map_inv t = map_inv s" by (rule map_inv_cong) (simp_all add: P(1))
  moreover have "pools_ready d s \<Longrightarrow> pools_ready d t" for d using pools_ready_set P assms(2) by simp
  ultimately show "sess_ready s \<Longrightarrow> sess_ready t"
    by (intro sess_ready_cong [of t s]) (simp_all add: view, simp_all add: P(1))
qed

lemma mark_at:
  assumes "map_inv s" "(c, i, g) \<in> sess_view s"
  shows "rc_at (mark c i bm s) c = (rc_at s c)\<lparr>chunk_list := (chunk_list (rc_at s c))[i := (chunk_at s c i)\<lparr>bitmap_g := Some bm\<rparr>]\<rparr>"
    "chunk_at (mark c i bm s) c' i' = (if c' = c \<and> i' = i then (chunk_at s c i)\<lparr>bitmap_g := Some bm\<rparr> else chunk_at s c' i')"
    "state (cb_at (mark c i bm s) c') = state (cb_at s c')" "cb_index (cb_at (mark c i bm s) c') = cb_index (cb_at s c')"
  using sess_viewD [OF assms] by (cases "c' = c"; cases "i' = i"; simp add: mark_def)+

lemma mark_keeps:
  assumes inv: "map_inv s" and v: "(c, i, g) \<in> sess_view s" and bm: "bitmap_wf bm"
  shows "map_inv (mark c i bm s)" "sess_view (mark c i bm s) = sess_view s" "rdma_on (mark c i bm s) = rdma_on s"
    "sess_ready s \<Longrightarrow> sess_ready (mark c i bm s)"
proof -
  let ?t = "mark c i bm s"
  note D = sess_viewD [OF inv v] and at = mark_at [OF inv v]
  show view: "sess_view ?t = sess_view s" and "rdma_on ?t = rdma_on s" by (simp_all add: mark_def sess_view_def)
  have rc: "chunk_map (rc_at ?t d) = chunk_map (rc_at s d)" for d
    using D(1) by (cases "d = c") (simp_all add: mark_def)
  then have cv: "cb_view ?t = cb_view s" by (simp add: cb_view_def mark_def)
  have "rc_inv (rc_at ?t d)" if d: "d < length (cb_list s)" for d
  proof (cases "d = c")
    case True
    have "rc_inv (rc_at s c)" using map_invD(2) [OF inv D(1)] .
    then have "rc_inv (rc_at ?t c)" using D(2) bm
      by (simp add: at(1)) (simp add: rc_inv_def rc_sized_def has_bitmap_def nth_list_update)
    with True show ?thesis by simp
  next
    case False
    then show ?thesis using map_invD(2) [OF inv d] by (simp add: mark_def)
  qed
  then have "\<forall>d < length (cb_list ?t). rc_inv (rc_at ?t d)" by (simp add: mark_def)
  moreover have "sess_wf ?t = sess_wf s" using at(4) by (simp add: sess_wf_def mark_def)
  ultimately show inv': "map_inv ?t" using inv cv view unfolding map_inv_upto_def by (simp add: mark_def)
  show "sess_ready s \<Longrightarrow> sess_ready ?t"
  proof (rule sess_ready_cong [of ?t s])
    show "pools_ready d s \<Longrightarrow> pools_ready d ?t" for d by (simp add: pools_ready_def mark_def)
  qed (use inv inv' view in \<open>simp_all add: at\<close>, simp_all add: mark_def upd_rc_def upd_cb_def)
qed

section \<open>One request\<close>

lemma page_split: "p = chunk_no p * chunk_pages + page_no p"
  by simp

lemma page_addr_inj:
  assumes "q < chunk_pages" "q' < chunk_pages" "page_addr x q = page_addr x q'"
  shows "q = q'"
proof -
  have "chunk_pages \<le> dev_pages" by (simp add: dev_pages_def STACKBD_SIZE_G_def)
  then have "q < dev_pages" "q' < dev_pages" using assms(1,2) by linarith+
  moreover have "page_addr x k = x + byte_pos k" for k by (simp only: page_addr_def byte_pos_def IS_PAGE_SIZE_def)
  then have "byte_pos q = byte_pos q'" using assms(3) by (simp only: add_left_cancel)
  ultimately have "4096 * q = 4096 * q'" by (metis unat_byte_pos)
  then show ?thesis by simp
qed

text \<open>The memory of the servers after page \<open>q\<close> of a placed chunk was written.\<close>

lemma remote_page_put:
  assumes s: "sess_ready s" and v: "(c, i, g) \<in> sess_view s" "(c', i', g') \<in> sess_view s" and q: "q < chunk_pages" "q' < chunk_pages"
    and m: "rmem w' = put_remote c (chunk_at s c i) q x (rmem w)"
  shows "remote_page w' c' (chunk_at s c' i') q' =
    (if (c', i', q') = (c, i, q) then x else remote_page w c' (chunk_at s c' i') q')"
proof (cases "(c', i', q') = (c, i, q)")
  case True
  then show ?thesis using m by (simp add: remote_page_def put_remote_def)
next
  case False
  let ?a = "chunk_at s c i" and ?b = "chunk_at s c' i'"
  have "c' \<noteq> c \<or> remote_rkey ?b \<noteq> remote_rkey ?a \<or> page_addr (remote_addr ?b) q' \<noteq> page_addr (remote_addr ?a) q"
  proof (cases "c' = c \<and> i' \<noteq> i")
    case True
    with s v have "apart ?a ?b" unfolding sess_ready_def by blast
    with q show ?thesis by (metis apart_def prod.inject)
  next
    case False
    with \<open>(c', i', q') \<noteq> (c, i, q)\<close> show ?thesis using page_addr_inj [OF q] by metis
  qed
  then have "rmem w' c' (remote_rkey ?b) (page_addr (remote_addr ?b) q') = rmem w c' (remote_rkey ?b) (page_addr (remote_addr ?b) q')"
    unfolding m put_remote_def by (metis fun_upd_apply)
  with False show ?thesis by (simp only: remote_page_def if_False)
qed

lemma same_chunk:
  assumes "map_inv s" "(c, i, g) \<in> sess_view s" "(c', i', g) \<in> sess_view s"
  shows "c' = c" "i' = i"
  using assms(2,3) by (simp_all add: sess_view_def)

lemma same_slot:
  assumes "map_inv s" "(c, i, g) \<in> sess_view s" "(c, i, g') \<in> sess_view s"
  shows "g' = g"
  using sess_viewD(7) [OF assms(1,2)] sess_viewD(7) [OF assms(1,3)] by simp

lemma group_set_page: "q < chunk_pages \<Longrightarrow> IS_bitmap_group_set bm (byte_pos q) 4096 = IS_bitmap_set bm (int q)"
proof -
  assume "q < chunk_pages"
  note off = page_offset [OF this]
  have "IS_bitmap_group_set bm (byte_pos q) 4096 = for_res (\<lambda>k bm. IS_bitmap_set bm (int q + int k)) [0..<1] bm"
    unfolding IS_bitmap_group_set_def Let_def page_size_word off(1,2) ..
  also have "\<dots> = IS_bitmap_set bm (int q)" by (cases "IS_bitmap_set bm (int q)") simp_all
  finally show ?thesis .
qed

lemma recorded_mark:
  assumes "bitmap_g ch = Some bm0" "bitmap_wf bm0" "q < chunk_pages"
  obtains bm where "IS_bitmap_group_set bm0 (byte_pos q) 4096 = Inr bm" "bitmap_wf bm"
    "\<And>q'. q' < chunk_pages \<Longrightarrow> recorded (ch\<lparr>bitmap_g := Some bm\<rparr>) q' = (q' = q \<or> recorded ch q')"
proof -
  obtain bm where bm: "IS_bitmap_set bm0 (int q) = Inr bm" "bitmap_wf bm"
    "\<And>j. 0 \<le> j \<Longrightarrow> j < bitmap_pages \<Longrightarrow> IS_bitmap_test bm j = (if j = int q then Inr True else IS_bitmap_test bm0 j)"
    using chunk_bitmap.set_ok [of bm0 "int q"] assms(2) page_offset(3) [OF assms(3)] by auto
  have "recorded (ch\<lparr>bitmap_g := Some bm\<rparr>) q' = (q' = q \<or> recorded ch q')" if "q' < chunk_pages" for q'
    using bm(3) [of "int q'"] page_offset(3) [OF that] assms(1) by (simp add: recorded_def)
  with bm(1,2) show thesis using that group_set_page [OF assms(3)] by simp
qed

text \<open>
  The device as an array of pages: a write stores the page of the request, a read fills it.
\<close>

definition array_step :: "(nat \<Rightarrow> request option) \<Rightarrow> nat \<Rightarrow> (nat \<Rightarrow> page) \<times> (nat \<Rightarrow> page list) \<Rightarrow> (nat \<Rightarrow> page) \<times> (nat \<Rightarrow> page list)" where
  "array_step rqs r = (\<lambda>(d, pg). case rqs r of None \<Rightarrow> (d, pg) | Some rq \<Rightarrow>
     if rq_write rq then (d(rq_page rq := hd (pg r)), pg) else (d, pg(r := [d (rq_page rq)])))"

definition device :: "io \<Rightarrow> (nat \<Rightarrow> page) \<times> (nat \<Rightarrow> page list)" where
  "device w = (disk w, pages w)"

definition served :: "nat \<Rightarrow> io \<Rightarrow> io \<Rightarrow> bool" where
  "served r w w' \<longleftrightarrow> dev_inv w' \<and> device w' = array_step (reqs w) r (device w) \<and> ended w' = ended w @ [(r, 0)] \<and>
     rest_io w' = rest_io w \<and> length (IS_conns (sess w')) = length (IS_conns (sess w))"

text \<open>A request for one page whose buffer picks an existing connection.\<close>

definition page_request :: "io \<Rightarrow> nat \<Rightarrow> bool" where
  "page_request w r \<longleftrightarrow> (\<exists>wrt p a v. reqs w r = Some (page_rq wrt p a) \<and> p < dev_pages \<and> pages w r = [v] \<and>
     first_conn a < int (length (IS_conns (sess w))))"

lemma array_step_page:
  "reqs w r = Some (page_rq wrt p a) \<Longrightarrow> p < dev_pages \<Longrightarrow> pages w r = [v] \<Longrightarrow> array_step (reqs w) r (device w) =
     (if wrt then (disk w)(p := v) else disk w, if wrt then pages w else (pages w)(r := [disk w p]))"
  by (simp add: array_step_def device_def page_rq_index(4))

lemma rest_ioD: "rest_io w' = rest_io w \<Longrightarrow> bdev_raw w' = bdev_raw w \<and> is_active w' = is_active w \<and> reqs w' = reqs w"
  by (simp add: rest_io_def)

lemma dev_invD:
  assumes "dev_inv w"
  shows "settled w" "bdev_raw w" "is_active w" "sess_ready (sess w)" "coherent w" "map_inv (sess w)"
  using assms by (simp_all add: dev_inv_def sess_ready_def)

lemma disk_served:
  assumes w: "dev_inv w" and rq: "reqs w r = Some (page_rq wrt p a)" "p < dev_pages" "pages w r = [v]"
    and no: "\<And>c i. (c, i, chunk_no p) \<in> sess_view (sess w) \<Longrightarrow>
               rdma_on (sess w) \<noteq> DEV_RDMA_ON \<or> \<not> wrt \<and> \<not> recorded (chunk_at (sess w) c i) (page_no p)"
    and ph: "disk_phase (counted_io wrt p w) wrt r p v 2 w'"
  shows "served r w w'"
proof -
  note D = dev_invD [OF w]
  let ?s = "bump wrt (chunk_no p) (sess w)"
  from ph have s: "sess w' = ?s" and m: "rmem w' = rmem w" and d: "disk w' = (if wrt then (disk w)(p := v) else disk w)"
    and r: "rest_io w' = rest_io w" by (simp_all add: disk_phase_def)
  have "coherent w'" unfolding coherent_def
  proof (intro allI impI)
    fix c i g q
    assume "(c, i, g) \<in> sess_view (sess w')" "q < chunk_pages" "recorded (chunk_at (sess w') c i) q"
    then have a: "(c, i, g) \<in> sess_view (sess w)" "q < chunk_pages" "recorded (chunk_at (sess w) c i) q"
      by (simp_all add: s bump_keeps)
    with D(5) have c: "rdma_on (sess w) = DEV_RDMA_ON" "remote_page w c (chunk_at (sess w) c i) q = disk w (g * chunk_pages + q)"
      unfolding coherent_def by blast+
    have "g * chunk_pages + q \<noteq> p" if wrt
    proof
      assume "g * chunk_pages + q = p"
      then have "g = chunk_no p" using a(2) by auto
      with a(1) no c(1) that show False by auto
    qed
    with c show "rdma_on (sess w') = DEV_RDMA_ON \<and> remote_page w' c (chunk_at (sess w') c i) q = disk w' (g * chunk_pages + q)"
      by (auto simp: s d m remote_page_def)
  qed
  then have "dev_inv w'" using ph D rest_ioD [OF r] bump_keeps(4) [of "sess w" wrt "chunk_no p"]
    by (simp add: dev_inv_def s settled_def disk_phase_def)
  then show ?thesis using ph r s rq
    by (simp add: served_def array_step_page [OF rq]) (simp add: disk_phase_def device_def)
qed

lemma read_served:
  assumes w: "dev_inv w" and rq: "reqs w r = Some (page_rq False p a)" "p < dev_pages" "pages w r = [v]"
    and v: "(c, i, chunk_no p) \<in> sess_view (sess w)" "recorded (chunk_at (sess w) c i) (page_no p)" "c = fst (snd cr)"
    and ph: "read_phase (counted_io False p w) r p (remote_page w c (chunk_at (sess w) c i) (page_no p)) cr xs i 2 w'"
  shows "served r w w'"
proof -
  note D = dev_invD [OF w]
  let ?s = "bump False (chunk_no p) (sess w)"
  from ph have ip: "in_pool cr (xs @ [snd (snd cr)]) (\<lambda>_. True) ?s (sess w')" and m: "rmem w' = rmem w" "disk w' = disk w"
    and r: "rest_io w' = rest_io w" by (simp_all add: read_phase_def Let_def)
  note keep = in_pool_keeps [OF ip]
  have val: "remote_page w c (chunk_at (sess w) c i) (page_no p) = disk w p"
    using D(5) v(1,2) by (simp add: coherent_def)
  have "coherent w'" using D(5) m by (simp add: coherent_def keep bump_keeps remote_page_def)
  then have "dev_inv w'" using ph D rest_ioD [OF r] keep(5) bump_keeps(4) [of "sess w" False "chunk_no p"]
    by (auto simp: dev_inv_def settled_def read_phase_def Let_def)
  then show ?thesis using ph r rq keep(4) val
    by (simp add: served_def array_step_page [OF rq]) (simp add: read_phase_def Let_def device_def)
qed

lemma write_served:
  assumes w: "dev_inv w" and rq: "reqs w r = Some (page_rq True p a)" "p < dev_pages" "pages w r = [x]"
    and v: "(c, i, chunk_no p) \<in> sess_view (sess w)" "rdma_on (sess w) = DEV_RDMA_ON" "c = fst (snd cr)"
    and bm: "bitmap_wf bm" "\<And>q'. q' < chunk_pages \<Longrightarrow>
      recorded ((chunk_at (sess w) c i)\<lparr>bitmap_g := Some bm\<rparr>) q' = (q' = page_no p \<or> recorded (chunk_at (sess w) c i) q')"
    and ph: "write_phase (counted_io True p w) r p x cr xs i bm 2 2 w'"
  shows "served r w w'"
proof -
  note D = dev_invD [OF w]
  let ?s = "bump True (chunk_no p) (sess w)" let ?t = "mark c i bm ?s"
  have ready: "sess_ready ?s" "map_inv ?s" "(c, i, chunk_no p) \<in> sess_view ?s" using D(4,6) v(1) by (simp_all add: bump_keeps)
  note mk = mark_keeps [OF ready(2,3) bm(1)] and at = mark_at(2) [OF ready(2,3)]
  from ph v(3) have ip: "in_pool cr (xs @ [snd (snd cr)]) (\<lambda>_. True) ?t (sess w')" and d: "disk w' = (disk w)(p := x)"
    and m: "rmem w' = put_remote c (chunk_at (sess w) c i) (page_no p) x (rmem w)" and r: "rest_io w' = rest_io w"
    by (simp_all add: write_phase_def Let_def)
  note keep = in_pool_keeps [OF ip]
  have "coherent w'" unfolding coherent_def
  proof (intro allI impI)
    fix c' i' g' q
    assume "(c', i', g') \<in> sess_view (sess w')" "q < chunk_pages" and rec: "recorded (chunk_at (sess w') c' i') q"
    then have a: "(c', i', g') \<in> sess_view (sess w)" "q < chunk_pages" by (simp_all add: keep mk bump_keeps)
    have same: "(c', i', q) = (c, i, page_no p) \<longleftrightarrow> g' * chunk_pages + q = p"
    proof
      assume "(c', i', q) = (c, i, page_no p)"
      with same_slot [OF D(6) v(1)] a(1) have "g' = chunk_no p" "q = page_no p" by auto
      then show "g' * chunk_pages + q = p" by simp
    next
      assume eq: "g' * chunk_pages + q = p"
      then have "g' = chunk_no p" "q = page_no p" using a(2) by auto
      with same_chunk [OF D(6) v(1)] a(1) show "(c', i', q) = (c, i, page_no p)" by auto
    qed
    have "remote_page w' c' (chunk_at (sess w') c' i') q = remote_page w' c' (chunk_at (sess w) c' i') q"
      by (simp add: keep(3) at remote_page_def)
    also note remote_page_put [OF D(4) v(1) a(1) page_no_less(1) a(2) m]
    finally have rp: "remote_page w' c' (chunk_at (sess w') c' i') q =
        (if (c', i', q) = (c, i, page_no p) then x else remote_page w c' (chunk_at (sess w) c' i') q)" .
    have "recorded (chunk_at (sess w) c' i') q" if "(c', i', q) \<noteq> (c, i, page_no p)"
      using rec that bm(2) [OF a(2)] by (auto simp: keep(3) at split: if_splits)
    then have "remote_page w' c' (chunk_at (sess w') c' i') q = disk w' (g' * chunk_pages + q)"
      using D(5) a same rp by (auto simp: coherent_def d)
    then show "rdma_on (sess w') = DEV_RDMA_ON \<and> remote_page w' c' (chunk_at (sess w') c' i') q = disk w' (g' * chunk_pages + q)"
      using v(2) by (simp add: keep mk)
  qed
  then have "dev_inv w'" using ph D rest_ioD [OF r] keep(5) mk(4) ready(1) by (auto simp: dev_inv_def settled_def write_phase_def Let_def)
  then show ?thesis using ph r rq keep(4)
    by (simp add: served_def array_step_page [OF rq]) (simp add: write_phase_def Let_def device_def mark_def)
qed

text \<open>Every schedule runs without an error, whatever the order; if it leaves nothing pending the result is
  good; and there is such a schedule.\<close>

definition every_schedule :: "bool \<Rightarrow> (io \<Rightarrow> bool) \<Rightarrow> io \<Rightarrow> bool" where
  "every_schedule le good w \<longleftrightarrow> (\<forall>es. \<exists>w'. run_events le es w = Inr w' \<and> (settled w' \<longrightarrow> good w')) \<and>
     (\<exists>es w'. run_events le es w = Inr w' \<and> settled w')"

lemma every_scheduleI:
  assumes "I w" "\<And>e w. I w \<Longrightarrow> \<exists>w'. io_event le e w = Inr w' \<and> I w'" "\<And>w. I w \<Longrightarrow> settled w \<Longrightarrow> good w"
    "run_events le es w = Inr w'" "settled w'"
  shows "every_schedule le good w"
  using run_events_inv [of I le w] assms unfolding every_schedule_def by blast

lemma settled_empty: "settled w \<Longrightarrow> sq w = (\<lambda>_. []) \<and> wcs w = (\<lambda>_. []) \<and> bio_list w = [] \<and> submitted w = []"
  by (auto simp: settled_def)

lemma phase_done:
  "disk_phase w0 wrt r p v a w \<Longrightarrow> a \<le> 2 \<Longrightarrow> settled w \<Longrightarrow> a = 2"
  "read_phase w0 r p v cr xs i b w \<Longrightarrow> b \<le> 2 \<Longrightarrow> settled w \<Longrightarrow> b = 2"
  "write_phase w0 r p v cr xs i bm a b w \<Longrightarrow> a \<le> 2 \<Longrightarrow> b \<le> 2 \<Longrightarrow> settled w \<Longrightarrow> a = 2 \<and> b = 2"
proof -
  have two: "n = 2" if "n \<le> 2" "n \<noteq> 0" "n \<noteq> 1" for n :: nat using that by linarith
  have sq: "settled w \<Longrightarrow> sq w c = []" "settled w \<Longrightarrow> wcs w c = []" "settled w \<Longrightarrow> bio_list w = []" "settled w \<Longrightarrow> submitted w = []" for c
    by (simp_all add: settled_def)
  show "disk_phase w0 wrt r p v a w \<Longrightarrow> a \<le> 2 \<Longrightarrow> settled w \<Longrightarrow> a = 2"
    using sq(3,4) by (intro two) (auto simp: disk_phase_def at_phase_empty)
  show "read_phase w0 r p v cr xs i b w \<Longrightarrow> b \<le> 2 \<Longrightarrow> settled w \<Longrightarrow> b = 2"
    using sq(1,2) [of "fst (snd cr)"] by (intro two) (auto simp: read_phase_def Let_def at_phase_empty)
  show "write_phase w0 r p v cr xs i bm a b w \<Longrightarrow> a \<le> 2 \<Longrightarrow> b \<le> 2 \<Longrightarrow> settled w \<Longrightarrow> a = 2 \<and> b = 2"
    using sq(1,2) [of "fst (snd cr)"] sq(3,4) by (intro conjI two) (auto simp: write_phase_def Let_def at_phase_empty)
qed

lemma free_slot:
  assumes "pools_ready c s" "k < length (IS_conns s)"
  obtains xs j where "free_stack (ctx_pools (IS_conns s ! k) ! c) = xs @ [j]"
proof -
  have "free_stack (ctx_pools (IS_conns s ! k) ! c) \<noteq> []" using assms by (simp add: pools_ready_def)
  then show thesis using that by (metis rev_exhaust)
qed

lemma disk_schedule:
  assumes w: "dev_inv w" and rq: "reqs w r = Some (page_rq wrt p a)" "p < dev_pages" "pages w r = [v]"
    and no: "\<And>c i. (c, i, chunk_no p) \<in> sess_view (sess w) \<Longrightarrow>
               rdma_on (sess w) \<noteq> DEV_RDMA_ON \<or> \<not> wrt \<and> \<not> recorded (chunk_at (sess w) c i) (page_no p)"
  shows "\<exists>w1. IS_request n True r w = Some (Inr (0, w1)) \<and> every_schedule le (served r w) w1"
proof -
  note D = dev_invD [OF w]
  let ?w0 = "counted_io wrt p w" let ?w1 = "?w0\<lparr>bio_list := [disk_bio wrt r p]\<rparr>"
  have "IS_request n True r w = Some (Inr (0, ?w1))"
    using IS_request_disk [OF D(4,2,3) rq(1,2) no] settled_empty [OF D(1)] by simp
  moreover have ph: "disk_phase ?w0 wrt r p v 0 ?w1" using settled_empty [OF D(1)] by (simp add: disk_phase_def)
  then have "disk_phase ?w0 wrt r p v 1 (stackbd_threadfn ?w1)"
    by (simp add: disk_phase_def stackbd_threadfn_def stackbd_io_fn_def)
  then obtain w2 where w2: "disk_end 0 (stackbd_threadfn ?w1) = Inr w2" "disk_phase ?w0 wrt r p v 2 w2"
    using disk_end_req [of ?w0 wrt r p v] rq(3) by auto
  have "every_schedule le (served r w) ?w1"
  proof (rule every_scheduleI [of "disk_run ?w0 wrt r p v"])
    show "disk_run ?w0 wrt r p v ?w1" unfolding disk_run_def using ph by blast
    show "\<exists>u'. io_event le e u = Inr u' \<and> disk_run ?w0 wrt r p v u'" if "disk_run ?w0 wrt r p v u" for e u
      using disk_event [OF that] rq(3) by simp
    show "served r w u" if "disk_run ?w0 wrt r p v u" "settled u" for u
      using that phase_done(1) disk_served [OF w rq no, of u] unfolding disk_run_def by blast
    show "run_events le [Thread, Disk 0] ?w1 = Inr w2" "settled w2" using w2 by (simp_all add: disk_phase_def settled_def)
  qed
  ultimately show ?thesis by blast
qed

text \<open>How a transfer over the network begins.\<close>

lemma read_start:
  assumes w: "sess_ready (sess w)" "settled w" and rq: "reqs w r = Some (page_rq False p a)" "p < dev_pages"
    and v: "(c, i, chunk_no p) \<in> sess_view (sess w)" "rdma_on (sess w) = DEV_RDMA_ON" "recorded (chunk_at (sess w) c i) (page_no p)"
    and k: "first_conn a = int k" "k < length (IS_conns (sess w))"
  obtains w1 xs j where "IS_request n True r w = Some (Inr (0, w1))" "read_phase (counted_io False p w) r p x (k, c, j) xs i 0 w1"
    "pool_at (k, c, j) (sess (counted_io False p w))" "j < IS_QUEUE_DEPTH" "j \<notin> set xs"
    "state (cb_at (sess (counted_io False p w)) c) \<noteq> ERROR"
proof -
  let ?w0 = "counted_io False p w" let ?ch = "chunk_at (sess w) c i"
  from w(1) v(1) have pr: "pools_ready c (sess ?w0)" and st: "state (cb_at (sess ?w0) c) \<noteq> ERROR"
    by (auto simp: sess_ready_def bump_keeps)
  have k': "k < length (IS_conns (sess ?w0))" using k(2) by simp
  obtain xs j where xs: "free_stack (ctx_pools (IS_conns (sess ?w0) ! k) ! c) = xs @ [j]" using free_slot [OF pr k'] .
  obtain P where P: "IS_request n True r w = Some (Inr (0, ?w0\<lparr>sess := set_pool (k, c, j) P (sess ?w0),
      sq := (sq w)(c := sq w c @ [page_wr RDMA_READ (k, c, j) ?ch (page_no p)])\<rparr>))" "pool_wf P" "free_stack P = xs" "ctx_req (ctx_pool P ! j) = Some r"
    using IS_transfer_read [OF pr k' k(1) xs, of r p n i ?ch "page_no p"] IS_request_rdma [OF w(1) rq v(1,2), of n True] v(2,3) rq(1)
    by auto
  let ?w1 = "?w0\<lparr>sess := set_pool (k, c, j) P (sess ?w0), sq := (sq w)(c := sq w c @ [page_wr RDMA_READ (k, c, j) ?ch (page_no p)])\<rparr>"
  have "in_pool (k, c, j) xs (\<lambda>x. ctx_req x = Some r) (sess ?w0) (sess ?w1)" unfolding in_pool_def using P by auto
  then have ph: "read_phase ?w0 r p x (k, c, j) xs i 0 ?w1"
    using settled_empty [OF w(2)] by (simp add: read_phase_def fun_upd_idem)
  show thesis using that [OF P(1) ph _ _ _ st] taken_slot [OF pr k' xs] by simp
qed

lemma write_start:
  assumes w: "sess_ready (sess w)" "settled w" "bdev_raw w" "is_active w"
    and rq: "reqs w r = Some (page_rq True p a)" "p < dev_pages" "pages w r = [x]"
    and v: "(c, i, chunk_no p) \<in> sess_view (sess w)" "rdma_on (sess w) = DEV_RDMA_ON"
    and k: "first_conn a = int k" "k < length (IS_conns (sess w))"
  obtains w1 xs j where "IS_request n True r w = Some (Inr (0, w1))" "\<forall>bm. write_phase (counted_io True p w) r p x (k, c, j) xs i bm 0 0 w1"
    "pool_at (k, c, j) (sess (counted_io True p w))" "j < IS_QUEUE_DEPTH" "j \<notin> set xs"
    "state (cb_at (sess (counted_io True p w)) c) \<noteq> ERROR"
proof -
  let ?w0 = "counted_io True p w" let ?ch = "chunk_at (sess w) c i" let ?q = "page_no p"
  from w(1) v(1) have pr: "pools_ready c (sess ?w0)" and st: "state (cb_at (sess ?w0) c) \<noteq> ERROR"
    by (auto simp: sess_ready_def bump_keeps)
  have k': "k < length (IS_conns (sess ?w0))" using k(2) by simp
  obtain xs j where xs: "free_stack (ctx_pools (IS_conns (sess ?w0) ! k) ! c) = xs @ [j]" using free_slot [OF pr k'] .
  let ?cr = "(k, c, j)"
  obtain P where P: "IS_request n True r w = Some (Inr (0, ?w0\<lparr>sess := set_pool ?cr P (sess ?w0),
      bufs := (bufs w)(?cr := x # drop 1 (bufs w ?cr)), bio_list := bio_list w @ [ctx_bio p ?cr],
      sq := (sq w)(c := sq w c @ [page_wr RDMA_WRITE ?cr ?ch ?q])\<rparr>))" "pool_wf P" "free_stack P = xs" "carries_write r c i ?q (ctx_pool P ! j)"
    using IS_transfer_write [OF pr k' k(1) xs, of r p x n i ?ch ?q] IS_request_rdma [OF w(1) rq(1,2) v, of n True] v(2) rq w(3,4)
    by auto
  let ?w1 = "?w0\<lparr>sess := set_pool ?cr P (sess ?w0), bufs := (bufs w)(?cr := x # drop 1 (bufs w ?cr)),
      bio_list := bio_list w @ [ctx_bio p ?cr], sq := (sq w)(c := sq w c @ [page_wr RDMA_WRITE ?cr ?ch ?q])\<rparr>"
  have "in_pool ?cr xs (carries_write r c i ?q) (sess ?w0) (sess ?w1)" unfolding in_pool_def using P by auto
  then have ph: "write_phase ?w0 r p x ?cr xs i bm 0 0 ?w1" for bm
    using settled_empty [OF w(2)] by (simp add: write_phase_def fun_upd_idem)
  then have "\<forall>bm. write_phase ?w0 r p x ?cr xs i bm 0 0 ?w1" by blast
  then show thesis using that [OF P(1) _ _ _ _ st] taken_slot [OF pr k' xs] by simp
qed

lemma read_schedule:
  assumes w: "dev_inv w" and rq: "reqs w r = Some (page_rq False p a)" "p < dev_pages" "pages w r = [v]"
    and v: "(c, i, chunk_no p) \<in> sess_view (sess w)" "recorded (chunk_at (sess w) c i) (page_no p)"
    and k: "first_conn a = int k" "k < length (IS_conns (sess w))"
  shows "\<exists>w1. IS_request n True r w = Some (Inr (0, w1)) \<and> every_schedule le (served r w) w1"
proof -
  note D = dev_invD [OF w]
  let ?w0 = "counted_io False p w" let ?x = "remote_page w c (chunk_at (sess w) c i) (page_no p)"
  from D(5) v have on: "rdma_on (sess w) = DEV_RDMA_ON" unfolding coherent_def using page_no_less(1) by blast
  obtain w1 xs j where w1: "IS_request n True r w = Some (Inr (0, w1))" and ph: "read_phase ?w0 r p ?x (k, c, j) xs i 0 w1"
    and slot: "pool_at (k, c, j) (sess ?w0)" "j < IS_QUEUE_DEPTH" "j \<notin> set xs" and st: "state (cb_at (sess ?w0) c) \<noteq> ERROR"
    using read_start [OF D(4,1) rq(1,2) v(1) on v(2) k] .
  let ?cr = "(k, c, j)"
  have "read_phase ?w0 r p ?x ?cr xs i 1 (rdma_net c w1)" using read_net [OF ph, of c] by (simp add: remote_page_def)
  then obtain w2 where w2: "rdma_cq_event_handler le True True c (rdma_net c w1) = Inr w2" "read_phase ?w0 r p ?x ?cr xs i 2 w2"
    using read_cq [of ?w0 r p ?x ?cr xs i _ c v le] st slot rq(3) by auto
  have "every_schedule le (served r w) w1"
  proof (rule every_scheduleI [of "read_run ?w0 r p ?x ?cr xs i"])
    show "read_run ?w0 r p ?x ?cr xs i w1" unfolding read_run_def using ph by blast
    show "\<exists>u'. io_event le e u = Inr u' \<and> read_run ?w0 r p ?x ?cr xs i u'" if "read_run ?w0 r p ?x ?cr xs i u" for e u
      by (rule read_event [OF that _ st]) (use slot rq(3) in \<open>simp_all add: remote_page_def\<close>)
    show "served r w u" if "read_run ?w0 r p ?x ?cr xs i u" "settled u" for u
      using that phase_done(2) read_served [OF w rq v, of ?cr xs u] unfolding read_run_def by fastforce
    show "run_events le [Net c, Cq c] w1 = Inr w2" "settled w2" using w2 by (simp_all add: read_phase_def settled_def)
  qed
  with w1 show ?thesis by blast
qed

lemma write_schedule:
  assumes w: "dev_inv w" and rq: "reqs w r = Some (page_rq True p a)" "p < dev_pages" "pages w r = [x]"
    and v: "(c, i, chunk_no p) \<in> sess_view (sess w)" "rdma_on (sess w) = DEV_RDMA_ON"
    and k: "first_conn a = int k" "k < length (IS_conns (sess w))"
  shows "\<exists>w1. IS_request n True r w = Some (Inr (0, w1)) \<and> every_schedule le (served r w) w1"
proof -
  note D = dev_invD [OF w]
  let ?w0 = "counted_io True p w" let ?ch = "chunk_at (sess w) c i" let ?q = "page_no p"
  obtain w1 xs j where w1: "IS_request n True r w = Some (Inr (0, w1))" and ph: "\<forall>bm. write_phase ?w0 r p x (k, c, j) xs i bm 0 0 w1"
    and slot: "pool_at (k, c, j) (sess ?w0)" "j < IS_QUEUE_DEPTH" "j \<notin> set xs" and st: "state (cb_at (sess ?w0) c) \<noteq> ERROR"
    using write_start [OF D(4,1,2,3) rq v k, where n = n] .
  let ?cr = "(k, c, j)"
  obtain bm0 where bm0: "bitmap_g ?ch = Some bm0" "bitmap_wf bm0"
    using sess_viewD(3) [OF D(6) v(1)] by (auto simp: has_bitmap_def split: option.splits)
  obtain bm where bm: "IS_bitmap_group_set bm0 (byte_pos ?q) 4096 = Inr bm" "bitmap_wf bm"
    "\<And>q'. q' < chunk_pages \<Longrightarrow> recorded (?ch\<lparr>bitmap_g := Some bm\<rparr>) q' = (q' = ?q \<or> recorded ?ch q')"
    using recorded_mark [OF bm0 page_no_less(1)] by blast
  from write_disk [OF write_thread [OF ph [rule_format]]] slot obtain w2 where w2: "disk_end 0 (stackbd_threadfn w1) = Inr w2"
    "write_phase ?w0 r p x ?cr xs i bm 2 0 w2" by fastforce
  from write_cq [OF write_net [OF w2(2)], of c bm0 le] slot st bm0 bm obtain w3 where w3:
    "rdma_cq_event_handler le True True c (rdma_net c w2) = Inr w3" "write_phase ?w0 r p x ?cr xs i bm 2 2 w3" by auto
  have "every_schedule le (served r w) w1"
  proof (rule every_scheduleI [of "write_run ?w0 r p x ?cr xs i bm"])
    show "write_run ?w0 r p x ?cr xs i bm w1" unfolding write_run_def using ph by blast
    show "\<exists>u'. io_event le e u = Inr u' \<and> write_run ?w0 r p x ?cr xs i bm u'" if "write_run ?w0 r p x ?cr xs i bm u" for e u
      by (rule write_event [OF that slot(1) _ _ _ st]) (use slot bm0 bm in simp_all)
    show "served r w u" if "write_run ?w0 r p x ?cr xs i bm u" "settled u" for u
      using that phase_done(3) write_served [OF w rq v _ bm(2,3), of ?cr xs u] unfolding write_run_def by fastforce
    show "run_events le [Thread, Disk 0, Net c, Cq c] w1 = Inr w3" "settled w3"
      using w2 w3 by (simp_all add: write_phase_def settled_def)
  qed
  with w1 show ?thesis by blast
qed

end
