(* ===== verification/Block_Device.thy ===== *)
theory Block_Device
  imports Request_Inv
begin

text \<open>
  The block device as the swap layer sees it. For requests of one page, one after the other, it is an
  array of pages, whatever the order in which the network and the disk do their parts. The ways to
  lose this are in \<open>Request_Hazards\<close>.
\<close>

section \<open>Requests one after the other\<close>

lemma IS_queue_rq_ok: "IS_request n ok r w = Some (Inr (0, w1)) \<Longrightarrow> IS_queue_rq n ok r w = Some (Inr w1)"
  by (simp add: IS_queue_rq_def bind_ro_def)

lemma every_scheduleD:
  assumes "every_schedule le good w" "run_events le es w = Inr w'" "settled w'"
  shows "good w'"
proof -
  from assms(1) obtain u where "run_events le es w = Inr u" "settled u \<longrightarrow> good u" unfolding every_schedule_def by blast
  with assms(2,3) show ?thesis by simp
qed

lemma request_ok:
  assumes w: "dev_inv w" and r: "page_request w r"
  shows "\<exists>w1. IS_queue_rq n True r w = Some (Inr w1) \<and> every_schedule le (served r w) w1"
proof -
  from r obtain wrt p a v where rq: "reqs w r = Some (page_rq wrt p a)" "p < dev_pages" "pages w r = [v]"
    and a: "first_conn a < int (length (IS_conns (sess w)))" unfolding page_request_def by blast
  obtain k where k: "first_conn a = int k" "k < length (IS_conns (sess w))"
    using a by (metis first_conn_def of_nat_less_iff uint_nonnegative zero_le_imp_eq_int)
  have "\<exists>w1. IS_request n True r w = Some (Inr (0, w1)) \<and> every_schedule le (served r w) w1"
  proof (cases "\<exists>c i. (c, i, chunk_no p) \<in> sess_view (sess w) \<and> rdma_on (sess w) = DEV_RDMA_ON \<and>
      (wrt \<or> recorded (chunk_at (sess w) c i) (page_no p))")
    case True
    then obtain c i where v: "(c, i, chunk_no p) \<in> sess_view (sess w)" "rdma_on (sess w) = DEV_RDMA_ON"
      "wrt \<or> recorded (chunk_at (sess w) c i) (page_no p)" by blast
    show ?thesis
    proof (cases wrt)
      case True
      then show ?thesis using write_schedule [OF w _ rq(2,3) v(1,2) k] rq(1) by simp
    next
      case False
      then show ?thesis using read_schedule [OF w _ rq(2,3) v(1) _ k] rq(1) v(3) by simp
    qed
  next
    case False
    then show ?thesis using disk_schedule [OF w rq] by blast
  qed
  then show ?thesis using IS_queue_rq_ok by blast
qed

text \<open>A client that waits until nothing is pending before it sends the next request.\<close>

inductive serves :: "int \<Rightarrow> bool \<Rightarrow> io \<Rightarrow> nat list \<Rightarrow> io \<Rightarrow> bool" for n le where
  serves_nil: "serves n le w [] w"
| serves_cons: "IS_queue_rq n True r w = Some (Inr w1) \<Longrightarrow> run_events le es w1 = Inr w2 \<Longrightarrow> settled w2 \<Longrightarrow>
    serves n le w2 rs w' \<Longrightarrow> serves n le w (r # rs) w'"

inductive_cases serves_nilE: "serves n le w [] w'"
inductive_cases serves_consE: "serves n le w (r # rs) w'"

definition page_requests :: "io \<Rightarrow> nat list \<Rightarrow> bool" where
  "page_requests w rs \<longleftrightarrow> list_all (page_request w) rs"

lemma served_requests:
  assumes "served r w w'" "page_requests w rs" "page_request w r"
  shows "page_requests w' rs"
proof -
  from assms(1) have reqs: "reqs w' = reqs w" "length (IS_conns (sess w')) = length (IS_conns (sess w))"
    and dev: "device w' = array_step (reqs w) r (device w)"
    using rest_ioD [of w' w] by (simp_all add: served_def)
  from assms(3) obtain wrt p a v where rq: "reqs w r = Some (page_rq wrt p a)" "p < dev_pages" "pages w r = [v]"
    unfolding page_request_def by blast
  have "pages w' = (if wrt then pages w else (pages w)(r := [disk w p]))"
    using dev array_step_page [OF rq] by (simp add: device_def)
  then have "\<exists>v'. pages w' x = [v']" if "\<exists>v'. pages w x = [v']" for x using that rq(3) by auto
  then have "page_request w' x" if "page_request w x" for x
    using that unfolding page_request_def reqs by metis
  with assms(2) show ?thesis by (auto simp: page_requests_def list_all_iff)
qed

lemma serves_array:
  assumes "serves n le w rs w'" "dev_inv w" "page_requests w rs"
  shows "dev_inv w' \<and> device w' = fold (array_step (reqs w)) rs (device w) \<and> ended w' = ended w @ map (\<lambda>r. (r, 0)) rs"
  using assms
proof (induction rule: serves.induct)
  case (serves_cons r w w1 es w2 rs w')
  then have "page_request w r" "page_requests w rs" by (simp_all add: page_requests_def)
  then obtain u where "IS_queue_rq n True r w = Some (Inr u)" "every_schedule le (served r w) u"
    using request_ok serves_cons.prems(1) by blast
  with serves_cons.hyps(1) have "every_schedule le (served r w) w1" by simp
  then have s: "served r w w2" using serves_cons.hyps(2,3) by (rule every_scheduleD)
  then have "dev_inv w2" "rest_io w2 = rest_io w" by (simp_all add: served_def)
  note rest_ioD [OF this(2)]
  with \<open>dev_inv w2\<close> s serves_cons.IH served_requests [OF s \<open>page_requests w rs\<close> \<open>page_request w r\<close>] show ?case
    by (simp add: served_def)
qed simp

lemma serves_total:
  assumes "dev_inv w" "page_requests w rs"
  shows "\<exists>w'. serves n le w rs w'"
  using assms
proof (induction rs arbitrary: w)
  case Nil
  then show ?case using serves_nil by blast
next
  case (Cons r rs)
  then have r: "page_request w r" "page_requests w rs" by (simp_all add: page_requests_def)
  then obtain w1 where w1: "IS_queue_rq n True r w = Some (Inr w1)" "every_schedule le (served r w) w1"
    using request_ok Cons.prems(1) by blast
  then obtain es w2 where w2: "run_events le es w1 = Inr w2" "settled w2" unfolding every_schedule_def by blast
  with w1(2) have s: "served r w w2" by (rule every_scheduleD)
  then have "dev_inv w2" by (simp add: served_def)
  with Cons.IH served_requests [OF s r(2,1)] w1(1) w2 show ?case using serves_cons by blast
qed

text \<open>
  C1: the block device refines an array of pages. For any sequence of requests for single pages, each
  given to \<open>IS_queue_rq\<close> when nothing is pending, there is a run, and after every run, whatever the
  order of the thread of the disk, the disk, the network and the completion handler, every request has
  ended with status 0 in its turn, the contents of the device and the pages of the requests are those
  of the array on which the writes stored and the reads fetched their page, and the device is again in order.
\<close>

theorem device_refines_array:
  assumes "dev_inv w" "page_requests w rs"
  shows "(\<exists>w'. serves n le w rs w') \<and>
    (\<forall>w'. serves n le w rs w' \<longrightarrow> dev_inv w' \<and> device w' = fold (array_step (reqs w)) rs (device w) \<and>
       ended w' = ended w @ map (\<lambda>r. (r, 0)) rs)"
  using serves_total [OF assms] serves_array [OF _ assms] by blast

text \<open>
  C2: no order of events breaks a request. Once \<open>IS_queue_rq\<close> has taken a request for a single page, every
  sequence of steps of the disk thread, the disk, the network and the completion handler, complete or not,
  runs without an invalid access; whenever it leaves nothing pending the request has been served; and
  such a sequence exists.
\<close>

theorem request_every_schedule:
  assumes "dev_inv w" "page_request w r"
  shows "\<exists>w1. IS_queue_rq n True r w = Some (Inr w1) \<and>
    (\<forall>es. \<exists>w2. run_events le es w1 = Inr w2 \<and> (settled w2 \<longrightarrow> served r w w2)) \<and>
    (\<exists>es w2. run_events le es w1 = Inr w2 \<and> settled w2)"
  using request_ok [OF assms] unfolding every_schedule_def by blast

section \<open>A device with one chunk\<close>

text \<open>
  Session chunk 5 is chunk 3 of the only server, with bitmap \<open>bm\<close>; disk and server hold zero pages. The
  requests go to page 7 of that chunk and to page 8.
\<close>

definition demo_dev :: "u32 list \<Rightarrow> IS_session" where
  "demo_dev bm = mark 0 3 bm (demo_stop\<lparr>IS_conns := [\<lparr>cpu_id = 0, ctx_pools = [full_pool]\<rparr>], rdma_on := DEV_RDMA_ON\<rparr>)"

definition demo_page :: nat where "demo_page = 5 * chunk_pages + 7"

definition demo_reqs :: "nat \<Rightarrow> request option" where
  "demo_reqs r = (if r = 0 then Some (page_rq True demo_page 0x8000) else if r = 1 then Some (page_rq True (Suc demo_page) 0x9000)
                  else if r = 2 then Some (page_rq False demo_page 0xa000) else None)"

definition demo_io :: "u32 list \<Rightarrow> io" where
  "demo_io bm = \<lparr>sess = demo_dev bm, reqs = demo_reqs, pages = \<lambda>r. [10 + r], bufs = \<lambda>_. [0], bdev_raw = True, is_active = True,
     bio_list = [], submitted = [], sq = \<lambda>_. [], wcs = \<lambda>_. [], ended = [], preempt_count = 0, disk = \<lambda>_. 0, rmem = \<lambda>_ _ _. 0\<rparr>"

lemma demo_stop_maps:
  "cb_index_map demo_stop = (replicate STACKBD_SIZE_G (-1))[5 := 0]"
  "chunk_map_cb_chunk demo_stop = (replicate STACKBD_SIZE_G (-1))[5 := 3]"
  "write_ops demo_stop = replicate STACKBD_SIZE_G 0" "read_ops demo_stop = replicate STACKBD_SIZE_G 0"
  by (simp_all add: demo_stop_def IS_ctx_dma_setup_def counted_def placed_def demo_connected_cb upd_rc_def upd_cb_def)
    (simp_all add: demo_connected_def demo_session_def IS_session_create_def Let_def upd_cb_def)

lemma demo_dev_ready:
  assumes "bitmap_wf bm"
  shows "sess_view (demo_dev bm) = {(0, 3, 5)}" "sess_ready (demo_dev bm)" "rdma_on (demo_dev bm) = DEV_RDMA_ON"
    "length (IS_conns (demo_dev bm)) = 1" "bitmap_g (chunk_at (demo_dev bm) 0 3) = Some bm"
proof -
  let ?s = "demo_stop\<lparr>IS_conns := [\<lparr>cpu_id = 0, ctx_pools = [full_pool]\<rparr>], rdma_on := DEV_RDMA_ON\<rparr>"
  have inv: "map_inv ?s" using demo_stop_inv by (subst map_inv_cong [of _ demo_stop]) simp_all
  have view: "sess_view ?s = {(0, 3, 5)}"
    by (auto simp: sess_view_def demo_stop_maps STACKBD_SIZE_G_def nth_list_update split: if_splits)
  then have v: "(0, 3, 5) \<in> sess_view ?s" by simp
  have "pools_ready 0 ?s" by (simp add: pools_ready_def IS_QUEUE_DEPTH_def)
  then have "sess_ready ?s"
    using inv demo_stop_rc(4) by (auto simp: sess_ready_def view demo_stop_maps)
  note mk = mark_keeps [OF inv v assms]
  show "sess_view (demo_dev bm) = {(0, 3, 5)}" "sess_ready (demo_dev bm)" "rdma_on (demo_dev bm) = DEV_RDMA_ON"
    using mk view \<open>sess_ready ?s\<close> by (simp_all add: demo_dev_def)
  show "length (IS_conns (demo_dev bm)) = 1" by (simp add: demo_dev_def mark_def)
  show "bitmap_g (chunk_at (demo_dev bm) 0 3) = Some bm" using mark_at(2) [OF inv v, of bm 0 3] by (simp add: demo_dev_def)
qed

lemma all_recorded:
  assumes "bitmap_g ch = Some (replicate BITMAP_INT_SIZE 0xffffffff)" "q < chunk_pages"
  shows "recorded ch q"
proof -
  let ?bm = "replicate BITMAP_INT_SIZE 0xffffffff :: u32 list"
  have "bitmap_wf ?bm" by (simp add: bitmap_wf_def)
  note r = IS_bitmap_test_eq [OF this _ page_offset(3) [OF assms(2)]] page_word_in_range [OF this _ page_offset(3) [OF assms(2)]]
  then have "?bm ! nat (int q div 32) = 0xffffffff" by (simp add: nat_less_iff)
  moreover have "(0xffffffff :: u32) = mask 32" by (simp add: mask_eq_exp_minus_1)
  then have "bit (0xffffffff :: u32) (nat (int q mod 32))"
    using page_bit_less [of "int q"] by (simp only: bit_mask_iff possible_bit_word) simp
  ultimately have "bit (?bm ! nat (int q div 32)) (nat (int q mod 32))" by simp
  with r(1) assms(1) show ?thesis by (simp add: recorded_def)
qed

lemma demo_io_inv: "bitmap_wf bm \<Longrightarrow> dev_inv (demo_io bm)"
  using demo_dev_ready [of bm]
  by (simp add: dev_inv_def demo_io_def settled_def coherent_def remote_page_def)

lemma demo_page_less: "demo_page < dev_pages" "Suc demo_page < dev_pages" "chunk_no demo_page = 5" "chunk_no (Suc demo_page) = 5"
  "page_no demo_page = 7" "page_no (Suc demo_page) = 8"
  by (simp_all add: demo_page_def dev_pages_def chunk_pages_def STACKBD_SIZE_G_def)

lemma demo_first_conn: "first_conn 0x8000 = 0" "first_conn 0x9000 = 0" "first_conn 0xa000 = 0"
  by (simp_all add: first_conn_def QUEUE_NUM_MASK_def)

lemma demo_requests:
  assumes "bitmap_wf bm" "r < 3"
  shows "page_request (demo_io bm) r"
proof -
  have "first_conn a < int (length (IS_conns (sess (demo_io bm))))" if "first_conn a = 0" for a
    using that demo_dev_ready(4) [OF assms(1)] by (simp add: demo_io_def)
  moreover have "r = 0 \<or> r = 1 \<or> r = 2" using assms(2) by linarith
  ultimately show ?thesis unfolding page_request_def
    using demo_page_less(1,2) demo_first_conn by (fastforce simp: demo_io_def demo_reqs_def)
qed

theorem device_refines_array_witness:
  "\<exists>w'. serves 1 True (demo_io (replicate BITMAP_INT_SIZE 0)) [2, 0, 2] w' \<and> disk w' demo_page = 10 \<and> pages w' 2 = [10] \<and>
     ended w' = [(2, 0), (0, 0), (2, 0)]"
proof -
  let ?w = "demo_io (replicate BITMAP_INT_SIZE 0)"
  have pre: "dev_inv ?w" "page_requests ?w [2, 0, 2]" by (simp_all add: demo_io_inv demo_requests page_requests_def)
  have page: "rq_page (page_rq wrt demo_page a) = demo_page" for wrt a using page_rq_index(4) [OF demo_page_less(1)] .
  have "fold (array_step (reqs ?w)) [2, 0, 2] (device ?w) = ((disk ?w)(demo_page := 10), (pages ?w)(2 := [10]))"
    by (simp add: array_step_def device_def demo_io_def demo_reqs_def page)
  then show ?thesis using device_refines_array [OF pre, of 1 True] by (auto simp: device_def demo_io_def)
qed

theorem request_every_schedule_witness:
  "\<exists>w1 w2. IS_queue_rq 1 True 0 (demo_io (replicate BITMAP_INT_SIZE 0)) = Some (Inr w1) \<and>
     run_events True [Cq 0, Thread, Net 0, Disk 3, Cq 0] w1 = Inr w2"
  using request_every_schedule [of "demo_io (replicate BITMAP_INT_SIZE 0)" 0 1 True] demo_io_inv demo_requests
  by (meson bitmap_wf_replicate zero_less_numeral)

end
