(* ===== verification/Request_Hazards.thy ===== *)
theory Request_Hazards
  imports Block_Device
begin

text \<open>
  Where the request path fails: a write that goes to the disk while RDMA is off leaves the remote copy
  of its page recorded; a context that the disk gives back before the network has used it is taken by
  the next write; a work request that cannot be posted costs a context and leaves preemption disabled.
\<close>

section \<open>Reads and writes without the whole invariant\<close>

lemma disk_serves:
  assumes w: "sess_ready (sess w)" "settled w" "bdev_raw w" "is_active w"
    and rq: "reqs w r = Some (page_rq wrt p a)" "p < dev_pages" "pages w r = [v]"
    and no: "\<And>c i. (c, i, chunk_no p) \<in> sess_view (sess w) \<Longrightarrow>
               rdma_on (sess w) \<noteq> DEV_RDMA_ON \<or> \<not> wrt \<and> \<not> recorded (chunk_at (sess w) c i) (page_no p)"
  shows "\<exists>w1 w2. IS_queue_rq n True r w = Some (Inr w1) \<and> run_events le [Thread, Disk 0] w1 = Inr w2 \<and>
     disk_phase (counted_io wrt p w) wrt r p v 2 w2"
proof -
  let ?w0 = "counted_io wrt p w" let ?w1 = "?w0\<lparr>bio_list := [disk_bio wrt r p]\<rparr>"
  have "IS_request n True r w = Some (Inr (0, ?w1))"
    using IS_request_disk [OF w(1,3,4) rq(1,2) no] settled_empty [OF w(2)] by simp
  moreover have "disk_phase ?w0 wrt r p v 1 (stackbd_threadfn ?w1)"
    using settled_empty [OF w(2)] by (simp add: disk_phase_def stackbd_threadfn_def stackbd_io_fn_def)
  then obtain w2 where "disk_end 0 (stackbd_threadfn ?w1) = Inr w2" "disk_phase ?w0 wrt r p v 2 w2"
    using disk_end_req [of ?w0 wrt r p v] rq(3) by auto
  ultimately show ?thesis using IS_queue_rq_ok by fastforce
qed

lemma read_returns:
  assumes w: "sess_ready (sess w)" "settled w" and rq: "reqs w r = Some (page_rq False p a)" "p < dev_pages" "pages w r = [u]"
    and v: "(c, i, chunk_no p) \<in> sess_view (sess w)" "rdma_on (sess w) = DEV_RDMA_ON" "recorded (chunk_at (sess w) c i) (page_no p)"
    and k: "first_conn a = int k" "k < length (IS_conns (sess w))"
  shows "\<exists>w1 w2. IS_queue_rq n True r w = Some (Inr w1) \<and> run_events le [Net c, Cq c] w1 = Inr w2 \<and> settled w2 \<and>
     pages w2 = (pages w)(r := [remote_page w c (chunk_at (sess w) c i) (page_no p)]) \<and> disk w2 = disk w \<and> ended w2 = ended w @ [(r, 0)]"
proof -
  let ?w0 = "counted_io False p w" let ?x = "remote_page w c (chunk_at (sess w) c i) (page_no p)"
  obtain w1 xs j where w1: "IS_request n True r w = Some (Inr (0, w1))" and ph: "read_phase ?w0 r p ?x (k, c, j) xs i 0 w1"
    and slot: "pool_at (k, c, j) (sess ?w0)" "j < IS_QUEUE_DEPTH" "j \<notin> set xs" and st: "state (cb_at (sess ?w0) c) \<noteq> ERROR"
    using read_start [OF w rq(1,2) v k] .
  have "read_phase ?w0 r p ?x (k, c, j) xs i 1 (rdma_net c w1)" using read_net [OF ph, of c] by (simp add: remote_page_def)
  then obtain w2 where w2: "rdma_cq_event_handler le True True c (rdma_net c w1) = Inr w2" "read_phase ?w0 r p ?x (k, c, j) xs i 2 w2"
    using read_cq [of ?w0 r p ?x "(k, c, j)" xs i _ c u le] st slot rq(3) by auto
  moreover have "settled w2" using w2(2) by (simp add: read_phase_def settled_def)
  ultimately show ?thesis using IS_queue_rq_ok [OF w1] by (simp add: read_phase_def)
qed

section \<open>Writes while RDMA is off\<close>

definition set_rdma :: "int \<Rightarrow> io \<Rightarrow> io" where
  "set_rdma x w = w\<lparr>sess := (sess w)\<lparr>rdma_on := x\<rparr>\<rparr>"

lemma set_rdma_simps [simp]:
  "reqs (set_rdma x w) = reqs w" "pages (set_rdma x w) = pages w" "bdev_raw (set_rdma x w) = bdev_raw w"
  "is_active (set_rdma x w) = is_active w" "disk (set_rdma x w) = disk w" "rmem (set_rdma x w) = rmem w"
  "ended (set_rdma x w) = ended w" "settled (set_rdma x w) = settled w"
  "sess (set_rdma x w) = (sess w)\<lparr>rdma_on := x\<rparr>"
  by (simp_all add: set_rdma_def settled_def)

lemma rdma_on_ready: "sess_ready s \<Longrightarrow> sess_ready (s\<lparr>rdma_on := x\<rparr>)" "sess_view (s\<lparr>rdma_on := x\<rparr>) = sess_view s"
proof -
  show v: "sess_view (s\<lparr>rdma_on := x\<rparr>) = sess_view s" by (simp add: sess_view_def)
  have "map_inv (s\<lparr>rdma_on := x\<rparr>) = map_inv s" by (rule map_inv_cong) simp_all
  then show "sess_ready s \<Longrightarrow> sess_ready (s\<lparr>rdma_on := x\<rparr>)"
    by (intro sess_ready_cong [of "s\<lparr>rdma_on := x\<rparr>" s]) (simp_all add: v pools_ready_def)
qed

text \<open>
  C28: a write while RDMA is off is lost to later reads. \<open>IS_disconnect_handler\<close> turns RDMA off for the
  whole session while it takes away the chunks of one server. A write to a page of another server goes to the
  disk only and ends with status 0, and the bitmap goes on to record the remote copy; when RDMA is on
  again a read of the page gets the remote copy, the page as it was before the write.
\<close>

theorem write_while_rdma_off_lost:
  assumes w: "dev_inv w" and v: "(c, i, chunk_no p) \<in> sess_view (sess w)" "recorded (chunk_at (sess w) c i) (page_no p)"
    and p: "p < dev_pages" and r: "reqs w r = Some (page_rq True p a)" "pages w r = [x]"
    and r': "reqs w r' = Some (page_rq False p a')" "pages w r' = [y]" "first_conn a' < int (length (IS_conns (sess w)))"
  shows "\<exists>w1 w2 w3 w4. IS_queue_rq n True r (set_rdma DEV_RDMA_OFF w) = Some (Inr w1) \<and> run_events le [Thread, Disk 0] w1 = Inr w2 \<and>
     IS_queue_rq n True r' (set_rdma DEV_RDMA_ON w2) = Some (Inr w3) \<and> run_events le [Net c, Cq c] w3 = Inr w4 \<and>
     ended w4 = ended w @ [(r, 0), (r', 0)] \<and> disk w4 p = x \<and> pages w4 r' = [disk w p]"
proof -
  note D = dev_invD [OF w]
  let ?o = "set_rdma DEV_RDMA_OFF w"
  have o: "sess_ready (sess ?o)" "settled ?o" "bdev_raw ?o" "is_active ?o" "rdma_on (sess ?o) \<noteq> DEV_RDMA_ON"
    using D rdma_on_ready by (simp_all add: is_consts)
  obtain w1 w2 where w12: "IS_queue_rq n True r ?o = Some (Inr w1)" "run_events le [Thread, Disk 0] w1 = Inr w2"
    and ph: "disk_phase (counted_io True p ?o) True r p x 2 w2"
    using disk_serves [OF o(1-4), of r True p a x n le] r p o(5) by auto
  let ?u = "set_rdma DEV_RDMA_ON w2"
  from ph have s: "sess w2 = bump True (chunk_no p) (sess ?o)" and u: "rmem w2 = rmem w" "disk w2 = (disk w)(p := x)"
    "pages w2 = pages w" "ended w2 = ended w @ [(r, 0)]" "reqs w2 = reqs w"
    using rest_ioD [of w2 ?o] by (simp_all add: disk_phase_def)
  have ready: "sess_ready (sess ?u)" and view: "sess_view (sess ?u) = sess_view (sess w)"
    using D(4) s by (simp_all add: rdma_on_ready bump_keeps)
  have ch: "chunk_at (sess ?u) c i = chunk_at (sess w) c i" and n: "length (IS_conns (sess ?u)) = length (IS_conns (sess w))"
    by (simp_all add: s)
  have "settled w2" using ph by (simp add: disk_phase_def settled_def)
  then have "settled ?u" by simp
  obtain k where k: "first_conn a' = int k" "k < length (IS_conns (sess ?u))"
    using r'(3) n by (metis first_conn_def of_nat_less_iff uint_nonnegative zero_le_imp_eq_int)
  obtain w3 w4 where w34: "IS_queue_rq n True r' ?u = Some (Inr w3)" "run_events le [Net c, Cq c] w3 = Inr w4"
    "pages w4 = (pages ?u)(r' := [remote_page ?u c (chunk_at (sess ?u) c i) (page_no p)])" "disk w4 = disk ?u" "ended w4 = ended ?u @ [(r', 0)]"
    using read_returns [OF ready \<open>settled ?u\<close> _ p _ _ _ _ k, of r' y c i n le] r' u v view ch by auto
  have "remote_page ?u c (chunk_at (sess ?u) c i) (page_no p) = disk w p"
    using D(5) v ch u(1) by (simp add: coherent_def remote_page_def)
  with w12 w34 u show ?thesis by auto
qed

theorem write_while_rdma_off_lost_witness:
  "\<exists>w1 w2 w3 w4. IS_queue_rq 1 True 0 (set_rdma DEV_RDMA_OFF (demo_io (replicate BITMAP_INT_SIZE 0xffffffff))) = Some (Inr w1) \<and>
     run_events True [Thread, Disk 0] w1 = Inr w2 \<and> IS_queue_rq 1 True 2 (set_rdma DEV_RDMA_ON w2) = Some (Inr w3) \<and>
     run_events True [Net 0, Cq 0] w3 = Inr w4 \<and> disk w4 demo_page = 10 \<and> pages w4 2 = [0]"
proof -
  let ?bm = "replicate BITMAP_INT_SIZE 0xffffffff :: u32 list" let ?w = "demo_io ?bm"
  have bm: "bitmap_wf ?bm" by (simp add: bitmap_wf_def)
  note dev = demo_dev_ready [OF bm]
  have "recorded (chunk_at (sess ?w) 0 3) (page_no demo_page)"
    using all_recorded [OF _ page_no_less(1)] dev(5) by (simp add: demo_io_def)
  moreover have "(0, 3, chunk_no demo_page) \<in> sess_view (sess ?w)" using dev(1) by (simp add: demo_io_def demo_page_less)
  moreover have "first_conn 0xa000 < int (length (IS_conns (sess ?w)))" using dev(4) by (simp add: demo_io_def demo_first_conn)
  moreover have "reqs ?w 0 = Some (page_rq True demo_page 0x8000)" "reqs ?w 2 = Some (page_rq False demo_page 0xa000)"
    "pages ?w 0 = [10]" "pages ?w 2 = [12]" "disk ?w demo_page = 0"
    by (simp_all add: demo_io_def demo_reqs_def)
  ultimately show ?thesis
    using write_while_rdma_off_lost [OF demo_io_inv [OF bm] _ _ demo_page_less(1), of 0 3 0 "0x8000" 10 2 "0xa000" 12 1 True] by auto
qed

section \<open>A context that comes back too early\<close>

lemma in_pool_at: "in_pool cr xs ok s s' \<Longrightarrow> pool_at cr s' = pool_at cr s"
  by (auto simp: in_pool_def)

text \<open>Two write completions of one context: the first ends the request the context carries now, the second finds nothing.\<close>

lemma two_completions:
  assumes sq: "sess w = set_pool (k, c, j) P s" "pool_at (k, c, j) s" "pool_wf P" "j < IS_QUEUE_DEPTH" "carries_write r c i q (ctx_pool P ! j)"
    and bm: "bitmap_g (chunk_at s c i) = Some bm0" "IS_bitmap_group_set bm0 (byte_pos q) 4096 = Inr bm"
    and cq: "wcs w = (\<lambda>_. [])(c := [(WC_SUCCESS, WC_RDMA_WRITE (k, c, j)), (WC_SUCCESS, WC_RDMA_WRITE (k, c, j))])"
      "state (cb_at s c) \<noteq> ERROR"
  shows "\<exists>P'. rdma_cq_event_handler le True True c w = Inr (w\<lparr>sess := set_pool (k, c, j) P' (mark c i bm s), wcs := \<lambda>_. [],
     ended := ended w @ [(r, 0)]\<rparr>) \<and> pool_wf P' \<and> free_stack P' = free_stack P"
proof -
  let ?cr = "(k, c, j)" let ?c2 = "[(WC_SUCCESS, WC_RDMA_WRITE ?cr)]"
  let ?f = "\<lambda>x. x\<lparr>in_flight := CTX_IDLE, ctx_chunk_index := -1, ctx_chunk_ptr := None, ctx_req := None\<rparr>"
  let ?P = "P\<lparr>ctx_pool := (ctx_pool P)[j := ?f (ctx_pool P ! j)]\<rparr>" let ?m = "mark c i bm s"
  have j: "j < length (ctx_pool P)" using assms(3,4) pool_wf_slot by simp
  have at: "pool_at ?cr ?m" using sq(2) by (simp add: mark_def)
  let ?u = "w\<lparr>wcs := (\<lambda>_. [])(c := ?c2)\<rparr>" let ?u' = "?u\<lparr>sess := set_pool ?cr ?P ?m, ended := ended w @ [(r, 0)]\<rparr>"
  have marked: "mark c i bm (set_pool ?cr P s) = set_pool ?cr P ?m" by (simp add: mark_def)
  have "set_ctx ?cr ?f (?u\<lparr>sess := set_pool ?cr P ?m\<rparr>) = Inr (?u\<lparr>sess := set_pool ?cr ?P ?m\<rparr>)"
    using set_ctx_set [OF at j, of "?u\<lparr>sess := set_pool ?cr P ?m\<rparr>" ?f] by simp
  then have one: "client_write_done ?cr ?u = Inr ?u'"
    using sq j bm marked by (simp add: client_write_done_def carries_write_def Let_def mark_def end_request_def)
  have "client_write_done ?cr (?u'\<lparr>wcs := \<lambda>_. []\<rparr>) = Inr (?u'\<lparr>wcs := \<lambda>_. []\<rparr>)"
    using at j by (simp add: client_write_done_def)
  then have "rdma_cq_event_handler le True True c w = Inr (?u'\<lparr>wcs := \<lambda>_. []\<rparr>)"
    using cq sq(1) one by (simp add: rdma_cq_event_handler_def handle_wc_def fun_upd_idem)
  moreover have "pool_wf ?P" "free_stack ?P = free_stack P" using assms(3) by simp_all
  ultimately show ?thesis by (intro exI [of _ ?P]) simp
qed

text \<open>
  The two work requests of a context taken twice, the two completions, and the disk. \<open>s\<close> is the session
  when the second write was queued, \<open>q\<close> and \<open>q'\<close> the pages of the first and of the second write.
\<close>

lemma reused_run:
  assumes s: "sess w = set_pool (k, c, j) P s" "pool_at (k, c, j) s" "pool_wf P" "free_stack P = xs" "j < IS_QUEUE_DEPTH" "j \<notin> set xs"
      "carries_write r c i q' (ctx_pool P ! j)" "state (cb_at s c) \<noteq> ERROR"
    and bm: "bitmap_g (chunk_at s c i) = Some bm0" "IS_bitmap_group_set bm0 (byte_pos q') 4096 = Inr bm"
    and q: "sq w = (\<lambda>_. [])(c := [page_wr RDMA_WRITE (k, c, j) ch q, page_wr RDMA_WRITE (k, c, j) ch q'])" "wcs w = (\<lambda>_. [])"
      "bio_list w = [ctx_bio p (k, c, j)]" "submitted w = []" "bufs w (k, c, j) = x # l"
  shows "\<exists>w' s'. run_events le [Net c, Net c, Cq c, Thread, Disk 0] w = Inr w' \<and> settled w' \<and> sess w' = s' \<and>
     in_pool (k, c, j) (xs @ [j]) (\<lambda>_. True) (mark c i bm s) s' \<and> rmem w' = put_remote c ch q' x (put_remote c ch q x (rmem w)) \<and>
     disk w' = (disk w)(p := x) \<and> ended w' = ended w @ [(r, 0)] \<and> rest_io w' = rest_io w \<and> pages w' = pages w"
proof -
  let ?cr = "(k, c, j)" let ?wr = "\<lambda>q. page_wr RDMA_WRITE ?cr ch q" let ?wc = "(WC_SUCCESS, WC_RDMA_WRITE ?cr)"
  let ?n1 = "w\<lparr>sq := (\<lambda>_. [])(c := [?wr q']), wcs := (\<lambda>_. [])(c := [?wc]), rmem := put_remote c ch q x (rmem w)\<rparr>"
  let ?n2 = "w\<lparr>sq := \<lambda>_. [], wcs := (\<lambda>_. [])(c := [?wc, ?wc]), rmem := put_remote c ch q' x (put_remote c ch q x (rmem w))\<rparr>"
  have n1: "rdma_net c w = ?n1" using q by (simp add: rdma_net_def rdma_execute_write)
  have n2: "rdma_net c ?n1 = ?n2" using q(5) by (simp add: rdma_net_def rdma_execute_write fun_upd_idem)
  obtain P' where P': "rdma_cq_event_handler le True True c ?n2 = Inr (?n2\<lparr>sess := set_pool ?cr P' (mark c i bm s), wcs := \<lambda>_. [],
      ended := ended w @ [(r, 0)]\<rparr>)" "pool_wf P'" "free_stack P' = xs"
    using two_completions [of ?n2 k c j P s r i q' bm0 bm le] s bm by auto
  let ?n3 = "?n2\<lparr>sess := set_pool ?cr P' (mark c i bm s), wcs := \<lambda>_. [], ended := ended w @ [(r, 0)]\<rparr>"
  have n4: "stackbd_threadfn ?n3 = ?n3\<lparr>bio_list := [], submitted := [ctx_bio p ?cr]\<rparr>"
    using q(3,4) by (simp add: stackbd_threadfn_def stackbd_io_fn_def)
  let ?n4 = "?n3\<lparr>bio_list := [], submitted := [ctx_bio p ?cr]\<rparr>" let ?n5 = "?n3\<lparr>bio_list := [], submitted := [], disk := (disk w)(p := x)\<rparr>"
  have "disk_end 0 ?n4 = return_ctx ?cr ?n5"
    using disk_transfer_ctx [of "?n3\<lparr>bio_list := [], submitted := []\<rparr>" ?cr x l p] q(5)
    by (simp add: disk_end_def IS_stackbd_end_io_def) (simp add: ctx_bio_def)
  moreover have "in_pool ?cr xs (\<lambda>_. True) (mark c i bm s) (sess ?n5)" unfolding in_pool_def using P' by auto
  then obtain s' where "return_ctx ?cr ?n5 = Inr (?n5\<lparr>sess := s'\<rparr>)" "in_pool ?cr (xs @ [j]) (\<lambda>_. True) (mark c i bm s) s'"
    using return_in_pool [of ?cr xs "\<lambda>_. True" "mark c i bm s" ?n5] s(2,5,6) by (auto simp: mark_def)
  ultimately have "run_events le [Net c, Net c, Cq c, Thread, Disk 0] w = Inr (?n5\<lparr>sess := s'\<rparr>)"
    "in_pool ?cr (xs @ [j]) (\<lambda>_. True) (mark c i bm s) s'"
    using n1 n2 P'(1) n4 by simp_all
  then show ?thesis by (intro exI [of _ "?n5\<lparr>sess := s'\<rparr>"] exI [of _ s']) (simp add: settled_def)
qed

text \<open>The second write takes the context that the disk has given back.\<close>

lemma second_write:
  assumes ready: "sess_ready s0" and ip: "in_pool (k, c, j) (xs @ [j]) ok s0 (sess w)" and v: "(c, i, chunk_no p) \<in> sess_view s0"
    and at: "pool_at (k, c, j) s0" and w: "rdma_on s0 = DEV_RDMA_ON" "bdev_raw w" "is_active w"
    and rq: "reqs w r = Some (page_rq True p a)" "p < dev_pages" "pages w r = [x]" and k: "first_conn a = int k"
  shows "\<exists>P. IS_queue_rq n True r w = Some (Inr ((counted_io True p w)\<lparr>sess := set_pool (k, c, j) P (bump True (chunk_no p) (sess w)),
       bufs := (bufs w)((k, c, j) := x # drop 1 (bufs w (k, c, j))), bio_list := bio_list w @ [ctx_bio p (k, c, j)],
       sq := (sq w)(c := sq w c @ [page_wr RDMA_WRITE (k, c, j) (chunk_at s0 c i) (page_no p)])\<rparr>)) \<and>
     pool_wf P \<and> free_stack P = xs \<and> carries_write r c i (page_no p) (ctx_pool P ! j)"
proof -
  note keep = in_pool_keeps [OF ip]
  let ?w0 = "counted_io True p w"
  from ip obtain Q where Q: "sess w = set_pool (k, c, j) Q s0" "free_stack Q = xs @ [j]" unfolding in_pool_def by auto
  have conns: "k < length (IS_conns (sess ?w0))" "free_stack (ctx_pools (IS_conns (sess ?w0) ! k) ! c) = xs @ [j]"
    using at Q by (simp_all add: pool_at_def set_pool_def)
  have ready': "sess_ready (sess w)" and view: "(c, i, chunk_no p) \<in> sess_view (sess w)" and ch: "chunk_at (sess w) c i = chunk_at s0 c i"
    using keep ready v by simp_all
  have pr: "pools_ready c (sess ?w0)" using ready' view by (auto simp: sess_ready_def bump_keeps)
  have on: "rdma_on (sess w) = DEV_RDMA_ON" using keep w(1) by simp
  from IS_transfer_write [OF pr conns(1) k conns(2), of r p x n i "chunk_at s0 c i" "page_no p"] w rq on
  obtain P where P: "IS_transfer_chunk n True (int c) (int i) (chunk_at s0 c i) (byte_pos (page_no p)) 4096 True r ?w0 =
      Some (Inr (0, ?w0\<lparr>sess := set_pool (k, c, j) P (bump True (chunk_no p) (sess w)),
       bufs := (bufs w)((k, c, j) := x # drop 1 (bufs w (k, c, j))), bio_list := bio_list w @ [ctx_bio p (k, c, j)],
       sq := (sq w)(c := sq w c @ [page_wr RDMA_WRITE (k, c, j) (chunk_at s0 c i) (page_no p)])\<rparr>))"
    "pool_wf P" "free_stack P = xs" "carries_write r c i (page_no p) (ctx_pool P ! j)" by auto
  then show ?thesis using IS_request_rdma [OF ready' rq(1,2) view on, of n True] ch IS_queue_rq_ok by auto
qed

text \<open>Two writes to one chunk with the end of the first disk write between them: both work requests use the same context.\<close>

lemma two_writes:
  assumes w: "dev_inv w" and v: "(c, i, chunk_no p) \<in> sess_view (sess w)" and on: "rdma_on (sess w) = DEV_RDMA_ON"
    and p: "p < dev_pages" "p' < dev_pages" "chunk_no p' = chunk_no p"
    and r: "reqs w r = Some (page_rq True p a)" "pages w r = [x]" "first_conn a = int k" "k < length (IS_conns (sess w))"
    and r': "reqs w r' = Some (page_rq True p' a')" "pages w r' = [x']" "first_conn a' = int k"
  obtains w1 w2 w3 j xs P s where "IS_queue_rq n True r w = Some (Inr w1)" "run_events le [Thread, Disk 0] w1 = Inr w2"
    "IS_queue_rq n True r' w2 = Some (Inr w3)" "sess w3 = set_pool (k, c, j) P s" "pool_at (k, c, j) s" "pool_wf P" "free_stack P = xs"
    "j < IS_QUEUE_DEPTH" "j \<notin> set xs" "carries_write r' c i (page_no p') (ctx_pool P ! j)"
    "sess_ready s" "sess_view s = sess_view (sess w)" "cb_list s = cb_list (sess w)" "rdma_on s = DEV_RDMA_ON" "length (IS_conns s) = length (IS_conns (sess w))"
    "sq w3 = (\<lambda>_. [])(c := [page_wr RDMA_WRITE (k, c, j) (chunk_at (sess w) c i) (page_no p),
                            page_wr RDMA_WRITE (k, c, j) (chunk_at (sess w) c i) (page_no p')])"
    "wcs w3 = (\<lambda>_. [])" "bio_list w3 = [ctx_bio p' (k, c, j)]" "submitted w3 = []" "hd (bufs w3 (k, c, j)) = x'" "bufs w3 (k, c, j) \<noteq> []"
    "ended w3 = ended w" "disk w3 = (disk w)(p := x)" "rmem w3 = rmem w" "pages w3 = pages w" "rest_io w3 = rest_io w"
proof -
  note D = dev_invD [OF w]
  let ?ch = "chunk_at (sess w) c i" let ?s0 = "bump True (chunk_no p) (sess w)" let ?w0 = "counted_io True p w"
  obtain w1 xs j where w1: "IS_request n True r w = Some (Inr (0, w1))" and ph: "\<forall>bm. write_phase ?w0 r p x (k, c, j) xs i bm 0 0 w1"
    and slot: "pool_at (k, c, j) (sess ?w0)" "j < IS_QUEUE_DEPTH" "j \<notin> set xs" and st: "state (cb_at (sess ?w0) c) \<noteq> ERROR"
    using write_start [OF D(4,1,2,3) r(1) p(1) r(2) v on r(3,4), where n = n] .
  let ?cr = "(k, c, j)"
  obtain w2 where w2: "disk_end 0 (stackbd_threadfn w1) = Inr w2" and ph2: "write_phase ?w0 r p x ?cr xs i [] 2 0 w2"
    using write_disk [OF write_thread [OF ph [rule_format]]] slot by fastforce
  from ph2 have ip: "in_pool ?cr (xs @ [j]) (carries_write r c i (page_no p)) ?s0 (sess w2)"
    and sq2: "sq w2 = (\<lambda>_. [])(c := [page_wr RDMA_WRITE ?cr ?ch (page_no p)])"
    and io2: "wcs w2 = (\<lambda>_. [])" "bio_list w2 = []" "submitted w2 = []" "ended w2 = ended w" "disk w2 = (disk w)(p := x)" "rmem w2 = rmem w"
      "pages w2 = pages w" "rest_io w2 = rest_io w"
    by (simp_all add: write_phase_def Let_def fun_upd_idem)
  have ready: "sess_ready ?s0" "(c, i, chunk_no p') \<in> sess_view ?s0" using D(4) v p(3) by (simp_all add: bump_keeps)
  let ?s = "bump True (chunk_no p') (sess w2)"
  note keep = in_pool_keeps [OF ip]
  have s: "sess_ready ?s" "sess_view ?s = sess_view (sess w)" "cb_list ?s = cb_list (sess w)" "rdma_on ?s = DEV_RDMA_ON"
    "length (IS_conns ?s) = length (IS_conns (sess w))" "pool_at ?cr ?s"
    using keep ready(1) on slot(1) in_pool_at [OF ip] by (simp_all add: bump_keeps pool_at_def)
  have q: "IS_queue_rq n True r w = Some (Inr w1)" "run_events le [Thread, Disk 0] w1 = Inr w2" using IS_queue_rq_ok [OF w1] w2 by simp_all
  obtain P w3 where "IS_queue_rq n True r' w2 = Some (Inr w3)" "sess w3 = set_pool ?cr P ?s" "pool_wf P" "free_stack P = xs"
    "carries_write r' c i (page_no p') (ctx_pool P ! j)" "bufs w3 ?cr = x' # drop 1 (bufs w2 ?cr)" "bio_list w3 = [ctx_bio p' ?cr]" "submitted w3 = []"
    "sq w3 = (\<lambda>_. [])(c := [page_wr RDMA_WRITE ?cr ?ch (page_no p), page_wr RDMA_WRITE ?cr ?ch (page_no p')])" "wcs w3 = (\<lambda>_. [])"
    "ended w3 = ended w" "disk w3 = (disk w)(p := x)" "rmem w3 = rmem w" "pages w3 = pages w" "rest_io w3 = rest_io w"
    using second_write [OF ready(1) ip ready(2), of r' a' x' n] slot(1) on D(2,3) rest_ioD [OF io2(8)] r' p(2) sq2 io2 by auto
  then show thesis using that [OF q, of w3 j P ?s xs] s slot(2,3) by simp
qed

text \<open>
  C27: a context that comes back too early corrupts data. A write uses one context for the disk and for the
  network, and the end of its disk write returns the context. If that happens before the network has executed
  the work request, the next write takes the same context and overwrites its buffer. Then the network stores
  the page of the second write at the place of the first as well; the second request ends and the first never
  does, though nothing is pending; and a later read of the first page, if it was recorded before,
  returns the page of the second write while the disk holds that of the first.
\<close>

theorem context_reused_early:
  assumes w: "dev_inv w" and v: "(c, i, chunk_no p) \<in> sess_view (sess w)" "recorded (chunk_at (sess w) c i) (page_no p)"
    and p: "p < dev_pages" "p' < dev_pages" "chunk_no p' = chunk_no p" "p' \<noteq> p"
    and r: "reqs w r = Some (page_rq True p a)" "pages w r = [x]" "first_conn a < int (length (IS_conns (sess w)))"
    and r': "reqs w r' = Some (page_rq True p' a')" "pages w r' = [x']" "first_conn a' = first_conn a"
    and r'': "reqs w r'' = Some (page_rq False p a'')" "pages w r'' = [y]" "first_conn a'' < int (length (IS_conns (sess w)))"
  shows "\<exists>w1 w2 w3 w4 w5 w6. IS_queue_rq n True r w = Some (Inr w1) \<and> run_events le [Thread, Disk 0] w1 = Inr w2 \<and>
     IS_queue_rq n True r' w2 = Some (Inr w3) \<and> run_events le [Net c, Net c, Cq c, Thread, Disk 0] w3 = Inr w4 \<and>
     settled w4 \<and> ended w4 = ended w @ [(r', 0)] \<and> disk w4 p = x \<and>
     IS_queue_rq n True r'' w4 = Some (Inr w5) \<and> run_events le [Net c, Cq c] w5 = Inr w6 \<and> pages w6 r'' = [x']"
proof -
  note D = dev_invD [OF w]
  let ?ch = "chunk_at (sess w) c i" let ?q = "page_no p" let ?q' = "page_no p'"
  from D(5) v have on: "rdma_on (sess w) = DEV_RDMA_ON" unfolding coherent_def using page_no_less(1) by blast
  have neq: "?q' \<noteq> ?q" using p(3,4) by (metis div_mult_mod_eq)
  obtain k where k: "first_conn a = int k" "k < length (IS_conns (sess w))"
    using r(3) by (metis first_conn_def of_nat_less_iff uint_nonnegative zero_le_imp_eq_int)
  then have k3: "first_conn a' = int k" using r'(3) by simp
  obtain w1 w2 w3 j xs P s where w123: "IS_queue_rq n True r w = Some (Inr w1)" "run_events le [Thread, Disk 0] w1 = Inr w2"
    "IS_queue_rq n True r' w2 = Some (Inr w3)"
    and P: "sess w3 = set_pool (k, c, j) P s" "pool_at (k, c, j) s" "pool_wf P" "free_stack P = xs"
      "j < IS_QUEUE_DEPTH" "j \<notin> set xs" "carries_write r' c i ?q' (ctx_pool P ! j)"
    and s: "sess_ready s" "sess_view s = sess_view (sess w)" "cb_list s = cb_list (sess w)" "rdma_on s = DEV_RDMA_ON" "length (IS_conns s) = length (IS_conns (sess w))"
    and io3: "sq w3 = (\<lambda>_. [])(c := [page_wr RDMA_WRITE (k, c, j) ?ch ?q, page_wr RDMA_WRITE (k, c, j) ?ch ?q'])"
      "wcs w3 = (\<lambda>_. [])" "bio_list w3 = [ctx_bio p' (k, c, j)]" "submitted w3 = []" "hd (bufs w3 (k, c, j)) = x'" "bufs w3 (k, c, j) \<noteq> []"
      "ended w3 = ended w" "disk w3 = (disk w)(p := x)" "rmem w3 = rmem w" "pages w3 = pages w" "rest_io w3 = rest_io w"
    using two_writes [OF w v(1) on p(1-3) r(1,2) k r'(1,2) k3, where n = n and le = le] .
  obtain bm0 where bm0: "bitmap_g ?ch = Some bm0" "bitmap_wf bm0"
    using sess_viewD(3) [OF D(6) v(1)] by (auto simp: has_bitmap_def split: option.splits)
  obtain bm where bm: "IS_bitmap_group_set bm0 (byte_pos ?q') 4096 = Inr bm" "bitmap_wf bm"
    "\<And>q. q < chunk_pages \<Longrightarrow> recorded (?ch\<lparr>bitmap_g := Some bm\<rparr>) q = (q = ?q' \<or> recorded ?ch q)"
    using recorded_mark [OF bm0 page_no_less(1)] by blast
  have vs: "(c, i, chunk_no p) \<in> sess_view s" "map_inv s" "state (cb_at s c) \<noteq> ERROR"
    using s(1,2) v(1) by (auto simp: sess_ready_def)
  note mk = mark_keeps [OF vs(2,1) bm(2)]
  obtain w4 where w4: "run_events le [Net c, Net c, Cq c, Thread, Disk 0] w3 = Inr w4" "settled w4"
    "in_pool (k, c, j) (xs @ [j]) (\<lambda>_. True) (mark c i bm s) (sess w4)"
    "rmem w4 = put_remote c ?ch ?q' x' (put_remote c ?ch ?q x' (rmem w))" "disk w4 = (disk w)(p := x, p' := x')"
    "ended w4 = ended w @ [(r', 0)]" "rest_io w4 = rest_io w" "pages w4 = pages w"
    using reused_run [OF P vs(3), of bm0 bm ?ch ?q p' x' "tl (bufs w3 (k, c, j))" le] s(3) bm0 bm(1) io3 by auto
  note keep = in_pool_keeps [OF w4(3)]
  have s4: "sess_ready (sess w4)" "(c, i, chunk_no p) \<in> sess_view (sess w4)" "rdma_on (sess w4) = DEV_RDMA_ON"
    "length (IS_conns (sess w4)) = length (IS_conns (sess w))" "chunk_at (sess w4) c i = ?ch\<lparr>bitmap_g := Some bm\<rparr>"
    using keep mk s vs(1) mark_at(2) [OF vs(2,1), of bm c i] by (simp_all add: mark_def)
  let ?m = "w\<lparr>rmem := put_remote c ?ch ?q x' (rmem w)\<rparr>"
  have "remote_page w4 c (chunk_at (sess w4) c i) ?q = remote_page w4 c ?ch ?q" by (simp add: s4(5) remote_page_def)
  also have "\<dots> = remote_page ?m c ?ch ?q"
    using remote_page_put [OF D(4) v(1) v(1) page_no_less(1) page_no_less(1), of w4 p' x' ?m p] w4(4) neq by simp
  also have "\<dots> = x'" by (simp add: remote_page_def put_remote_def)
  finally have x': "remote_page w4 c (chunk_at (sess w4) c i) ?q = x'" .
  obtain k'' where k'': "first_conn a'' = int k''" "k'' < length (IS_conns (sess w4))"
    using r''(3) s4(4) by (metis first_conn_def of_nat_less_iff uint_nonnegative zero_le_imp_eq_int)
  have "recorded (chunk_at (sess w4) c i) ?q" using bm(3) [OF page_no_less(1)] v(2) s4(5) by simp
  then obtain w5 w6 where "IS_queue_rq n True r'' w4 = Some (Inr w5)" "run_events le [Net c, Cq c] w5 = Inr w6"
    "pages w6 = (pages w4)(r'' := [x'])"
    using read_returns [OF s4(1) w4(2) _ p(1) _ s4(2,3) _ k'', of r'' y n le] r''(1,2) w4(7,8) rest_ioD [OF w4(7)] x' by auto
  with w123 w4 p(4) show ?thesis by (intro exI conjI) (assumption | simp)+
qed

theorem context_reused_early_witness:
  "\<exists>w1 w2 w3 w4 w5 w6. IS_queue_rq 1 True 0 (demo_io (replicate BITMAP_INT_SIZE 0xffffffff)) = Some (Inr w1) \<and>
     run_events True [Thread, Disk 0] w1 = Inr w2 \<and> IS_queue_rq 1 True 1 w2 = Some (Inr w3) \<and>
     run_events True [Net 0, Net 0, Cq 0, Thread, Disk 0] w3 = Inr w4 \<and> settled w4 \<and> ended w4 = [(1, 0)] \<and> disk w4 demo_page = 10 \<and>
     IS_queue_rq 1 True 2 w4 = Some (Inr w5) \<and> run_events True [Net 0, Cq 0] w5 = Inr w6 \<and> pages w6 2 = [11]"
proof -
  let ?bm = "replicate BITMAP_INT_SIZE 0xffffffff :: u32 list" let ?w = "demo_io ?bm"
  have bm: "bitmap_wf ?bm" by (simp add: bitmap_wf_def)
  note dev = demo_dev_ready [OF bm]
  have h: "recorded (chunk_at (sess ?w) 0 3) (page_no demo_page)" "(0, 3, chunk_no demo_page) \<in> sess_view (sess ?w)"
    using all_recorded [OF _ page_no_less(1)] dev(1,5) by (simp_all add: demo_io_def demo_page_less(3))
  have c: "first_conn 0x8000 < int (length (IS_conns (sess ?w)))" "first_conn 0xa000 < int (length (IS_conns (sess ?w)))"
    "first_conn 0x9000 = first_conn 0x8000"
    using dev(4) by (simp_all add: demo_io_def demo_first_conn)
  have q: "reqs ?w 0 = Some (page_rq True demo_page 0x8000)" "reqs ?w 1 = Some (page_rq True (Suc demo_page) 0x9000)"
    "reqs ?w 2 = Some (page_rq False demo_page 0xa000)" "pages ?w 0 = [10]" "pages ?w 1 = [11]" "pages ?w 2 = [12]" "ended ?w = []"
    by (simp_all add: demo_io_def demo_reqs_def)
  have p: "chunk_no (Suc demo_page) = chunk_no demo_page" "Suc demo_page \<noteq> demo_page" by (simp_all add: demo_page_less)
  show ?thesis
    using context_reused_early [OF demo_io_inv [OF bm] h(2,1) demo_page_less(1,2) p q(1,4) c(1) q(2,5) c(3) q(3,6) c(2), of 1 True] q(7) by simp
qed

section \<open>A work request that cannot be posted\<close>

text \<open>
  C40: when \<open>ib_post_send\<close> fails for a read, \<open>IS_queue_rq\<close> reports the error and the request ends with \<open>-EIO\<close>;
  but nothing returns the context, so that its pool has one context less though nothing is pending, and
  the error path of \<open>IS_transfer_chunk\<close> leaves preemption disabled once more than before.
\<close>

theorem failed_post_leaks:
  assumes w: "dev_inv w" and rq: "reqs w r = Some (page_rq False p a)" "p < dev_pages"
    and v: "(c, i, chunk_no p) \<in> sess_view (sess w)" "recorded (chunk_at (sess w) c i) (page_no p)"
    and k: "first_conn a = int k" "k < length (IS_conns (sess w))"
  shows "\<exists>w1. IS_queue_rq n False r w = Some (Inr w1) \<and> settled w1 \<and> ended w1 = ended w @ [(r, -5)] \<and>
     preempt_count w1 = preempt_count w + 1 \<and>
     length (free_stack (ctx_pools (IS_conns (sess w) ! k) ! c)) = Suc (length (free_stack (ctx_pools (IS_conns (sess w1) ! k) ! c)))"
proof -
  note D = dev_invD [OF w]
  let ?w0 = "counted_io False p w" let ?ch = "chunk_at (sess w) c i"
  from D(5) v have on: "rdma_on (sess w) = DEV_RDMA_ON" unfolding coherent_def using page_no_less(1) by blast
  from D(4) v(1) have pr: "pools_ready c (sess ?w0)" by (auto simp: sess_ready_def bump_keeps)
  have k': "k < length (IS_conns (sess ?w0))" using k(2) by simp
  obtain xs j where xs: "free_stack (ctx_pools (IS_conns (sess ?w0) ! k) ! c) = xs @ [j]" using free_slot [OF pr k'] .
  note slot = taken_slot [OF pr k' xs]
  from take_ctx_hit [OF pr k' k(1) xs] obtain P where P: "take_ctx n (int c) a (sess ?w0) = Some (Inr ((k, c, j), set_pool (k, c, j) P (sess ?w0)))"
    "pool_wf P" "free_stack P = xs" by blast
  then have j: "j < length (ctx_pool P)" using slot(1) pool_wf_slot by simp
  let ?x = "\<lambda>x. x\<lparr>ctx_req := Some r, ctx_chunk_index := int i, in_flight := CTX_R_IN_FLIGHT\<rparr>"
  let ?P = "P\<lparr>ctx_pool := (ctx_pool P)[j := ?x (ctx_pool P ! j)]\<rparr>"
  let ?w = "?w0\<lparr>preempt_count := preempt_count w + 1, sess := set_pool (k, c, j) P (sess ?w0)\<rparr>"
  let ?w1 = "w\<lparr>preempt_count := preempt_count w + 1, sess := set_pool (k, c, j) ?P (sess ?w0), ended := ended w @ [(r, -5)]\<rparr>"
  have "set_ctx (k, c, j) ?x ?w = Inr (?w\<lparr>sess := set_pool (k, c, j) ?P (sess ?w0)\<rparr>)"
    using set_ctx_set [OF slot(3) j, of ?w ?x] by simp
  then have "IS_queue_rq n False r w = Some (Inr ?w1)"
    using P(1) rq on IS_request_rdma [OF D(4) rq v(1) on, of n False] v(2)
    by (simp add: IS_queue_rq_def IS_transfer_chunk_def Let_def IS_rdma_read_def bind_ro_def get_req_def post_send_def)
  moreover have "ctx_pools (IS_conns (sess ?w1) ! k) ! c = ?P" using slot(3) k(2) by (simp add: set_pool_def pool_at_def)
  then have "length (free_stack (ctx_pools (IS_conns (sess w) ! k) ! c)) = Suc (length (free_stack (ctx_pools (IS_conns (sess ?w1) ! k) ! c)))"
    using xs P(3) by simp
  moreover have "settled ?w1" using D(1) by (simp add: settled_def)
  ultimately show ?thesis by (intro exI [of _ ?w1]) simp
qed

theorem failed_post_leaks_witness:
  "\<exists>w1. IS_queue_rq 1 False 2 (demo_io (replicate BITMAP_INT_SIZE 0xffffffff)) = Some (Inr w1) \<and> ended w1 = [(2, -5)] \<and> preempt_count w1 = 1 \<and>
     length (free_stack (ctx_pools (IS_conns (sess w1) ! 0) ! 0)) = 255"
proof -
  let ?bm = "replicate BITMAP_INT_SIZE 0xffffffff :: u32 list" let ?w = "demo_io ?bm"
  have bm: "bitmap_wf ?bm" by (simp add: bitmap_wf_def)
  note dev = demo_dev_ready [OF bm]
  have h: "recorded (chunk_at (sess ?w) 0 3) (page_no demo_page)" "(0, 3, chunk_no demo_page) \<in> sess_view (sess ?w)"
    using all_recorded [OF _ page_no_less(1)] dev(1,5) by (simp_all add: demo_io_def demo_page_less(3))
  have q: "reqs ?w 2 = Some (page_rq False demo_page 0xa000)" "first_conn 0xa000 = int 0" "0 < length (IS_conns (sess ?w))"
    using dev(4) by (simp_all add: demo_io_def demo_reqs_def demo_first_conn)
  have "length (free_stack (ctx_pools (IS_conns (sess ?w) ! 0) ! 0)) = 256" "ended ?w = []" "preempt_count ?w = 0"
    by (simp_all add: demo_io_def demo_dev_def mark_def IS_QUEUE_DEPTH_def)
  then show ?thesis
    using failed_post_leaks [OF demo_io_inv [OF bm] q(1) demo_page_less(1) h(2,1) q(2,3), of 1] by auto
qed

end
