(* ===== verification/Protocol.thy ===== *)
theory Protocol
  imports Failover Daemon_Evict
begin

text \<open>
  The two programs together: the handlers of the daemon answer the questions of the block device. The
  tables of the two sides stay in step, the key and the address that the block device keeps for a chunk
  are those under which the daemon registered it, and the daemons meet the contract that the eviction
  and the failover of the block device assume of the servers.
\<close>

section \<open>The daemons as the network of the block device\<close>

definition first_msg :: "(sent \<times> daemon) res \<Rightarrow> IS_rdma_info option" where
  "first_msg r = (case r of Inr ((_, m) # _, _) \<Rightarrow> Some m | _ \<Rightarrow> None)"

text \<open>The first contact in a round of questions: the connection is established, or a query arrives.\<close>

definition greet :: "bool \<Rightarrow> ibv \<Rightarrow> nat \<Rightarrow> nat \<Rightarrow> IS_session \<Rightarrow> daemon \<Rightarrow> (sent \<times> daemon) res" where
  "greet le v cid c s d =
     (if cb_state_list s ! c = CB_IDLE then on_event v cid Established d
      else on_completion le v cid True (Wc_Recv ((send_buf (cb_at s c))\<lparr>mtype := QUERY\<rparr>)) d)"

text \<open>
  The answers of the daemons \<open>ds\<close> during one call of \<open>IS_single_chunk_map\<close> in session \<open>s\<close>; \<open>ids c\<close> is the
  connection of the session at daemon \<open>c\<close>. A request to bind reaches a daemon that was greeted before.
\<close>

definition daemon_net :: "bool \<Rightarrow> ibv \<Rightarrow> (nat \<Rightarrow> nat) \<Rightarrow> (nat \<Rightarrow> daemon) \<Rightarrow> IS_session \<Rightarrow> net" where
  "daemon_net le v ids ds s =
     \<lparr>verbs_of = \<lambda>_. verbs_good, id_ok = \<lambda>_. True, repost_ret = \<lambda>_. 0,
      hello = \<lambda>c. first_msg (on_event v (ids c) Established (ds c)),
      reply = \<lambda>c q. first_msg (
        if mtype q = QUERY then on_completion le v (ids c) True (Wc_Recv q) (ds c)
        else bind_res (greet le v (ids c) c s (ds c)) (\<lambda>(_, d). on_completion le v (ids c) True (Wc_Recv q) d)),
      random = of_nat, rdma_buf_ok = \<lambda>_ _. True\<rparr>"

text \<open>The daemons after those of \<open>cs\<close> were greeted.\<close>

definition greeted :: "bool \<Rightarrow> ibv \<Rightarrow> (nat \<Rightarrow> nat) \<Rightarrow> nat list \<Rightarrow> IS_session \<Rightarrow> (nat \<Rightarrow> daemon) \<Rightarrow> nat \<Rightarrow> daemon" where
  "greeted le v ids cs s ds c =
     (if c \<in> set cs then case greet le v (ids c) c s (ds c) of Inr (_, d) \<Rightarrow> d | Inl _ \<Rightarrow> ds c else ds c)"

section \<open>One daemon\<close>

text \<open>The client in slot \<open>k\<close> has its connection, with a receive posted; it is connected if \<open>up\<close>.\<close>

definition client_ready :: "nat \<Rightarrow> nat \<Rightarrow> bool \<Rightarrow> daemon \<Rightarrow> bool" where
  "client_ready cid k up d \<longleftrightarrow> daemon_inv d \<and>
     (\<exists>conn. heap d cid = Some conn \<and> conn_index conn = Some (int k) \<and> posted conn \<noteq> 0 \<and> (up \<longrightarrow> connected conn))"

abbreviation spare_at :: "daemon \<Rightarrow> nat set" where
  "spare_at d \<equiv> spare (abs_mem (rdma_remote d))"

abbreviation lent_to :: "daemon \<Rightarrow> nat \<Rightarrow> nat option" where
  "lent_to d \<equiv> lent (abs_mem (rdma_remote d))"

lemma query_frame:
  assumes "on_completion le v cid True (Wc_Recv m) d = Inr (out, d')" "mtype m = QUERY" "heap d cid = Some conn" "posted conn \<noteq> 0"
  shows "\<exists>conn'. heap d' cid = Some conn' \<and> connected conn' = connected conn \<and> posted conn' = posted conn \<and> conn_index conn' = conn_index conn"
  using assms
  by (auto simp: on_completion_def Let_def handler_defs send_free_mem_size_def bind_res_Inr_iff split: if_splits)

lemma lend_first_frame:
  "lend_first le v is (conn, r) = Inr (conn', r') \<Longrightarrow>
     connected conn' = connected conn \<and> posted conn' = posted conn \<and> conn_index conn' = conn_index conn"
  by (induction "is") (auto simp: lend_chunk_def bind_res_Inr_iff split: if_splits option.splits)

lemma bind_frame:
  assumes "on_completion le v cid True (Wc_Recv m) d = Inr (out, d')" "mtype m = BIND_SINGLE" "heap d cid = Some conn" "posted conn \<noteq> 0"
  shows "\<exists>conn'. heap d' cid = Some conn' \<and> connected conn' = connected conn \<and> posted conn' = posted conn \<and> conn_index conn' = conn_index conn"
  using assms on_completion_bind(2)[OF assms(3,4,2), of le v]
  by (auto simp: handler_defs send_single_mr_def clear_keys_def Daemon_Inv.bound_def received_def bind_res_Inr_iff
      split: if_splits option.splits dest!: lend_first_frame)

lemma greet_ok:
  assumes "client_ready cid k (cb_state_list s ! c \<noteq> CB_IDLE) d" "ibv_good v"
  shows "\<exists>m d'. greet le v cid c s d = Inr ([(cid, m)], d') \<and> free_size_msg m \<and> size_gb m = int (card (spare_at d)) \<and>
     client_ready cid k True d' \<and> rdma_remote d' = rdma_remote d"
proof -
  obtain conn where d: "daemon_inv d" and conn: "heap d cid = Some conn" "conn_index conn = Some (int k)" "posted conn \<noteq> 0"
    "cb_state_list s ! c \<noteq> CB_IDLE \<longrightarrow> connected conn" using assms(1) by (auto simp: client_ready_def)
  show ?thesis
  proof (cases "cb_state_list s ! c = CB_IDLE")
    case True
    obtain m d' where m: "on_event v cid Established d = Inr ([(cid, m)], d')" "daemon_inv d'" "rdma_remote d' = rdma_remote d"
      "mtype m = FREE_SIZE" "size_gb m = int (card (spare_at d))" "heap d' = (heap d)(cid := Some (conn\<lparr>connected := True, send_msg := m\<rparr>))"
      using established_ok [OF d conn(1) assms(2)] by blast
    have "msg_wf m" using daemon_inv_conn_of(3)[OF m(2), of cid _ k] m(6) conn(2) by (simp add: conn_inv_def)
    with True m conn show ?thesis by (auto simp: greet_def free_size_msg_def client_ready_def)
  next
    case False
    let ?q = "(send_buf (cb_at s c))\<lparr>mtype := QUERY\<rparr>"
    obtain d' where d': "on_completion le v cid True (Wc_Recv ?q) d = Inr ([(cid, free_size_of d conn)], d')" "daemon_inv d'"
      "rdma_remote d' = rdma_remote d"
      using query_ok [OF d conn(1) _ conn(3) assms(2), of ?q le] False conn(4) by auto
    have "conn_inv (rdma_remote d) k conn" "mem_inv (rdma_remote d)" using daemon_inv_conn_of [OF d conn(1,2)] by simp_all
    then have "free_size_msg (free_size_of d conn)" "size_gb (free_size_of d conn) = int (card (spare_at d))"
      using spare_count [of "rdma_remote d"] by (simp_all add: free_size_msg_def free_size_of_def conn_inv_def msg_wf_def)
    moreover have "client_ready cid k True d'"
      using query_frame [OF d'(1) _ conn(1,3)] d'(2) conn(2-4) False by (auto simp: client_ready_def)
    ultimately show ?thesis using False d' by (auto simp: greet_def)
  qed
qed

lemma spare_not_lent: "i \<in> spare_at d \<Longrightarrow> lent_to d i = None \<and> i < MAX_MR_SIZE_GB"
  by (simp add: spare_def, simp add: abs_mem_def MAX_sizes)

text \<open>A request for one chunk: the lowest spare chunk is lent, and the offer names it alone.\<close>

lemma offer_ok_daemon:
  assumes ready: "client_ready cid k True d" and v: "ibv_good v" and q: "mtype q = BIND_SINGLE" and ne: "spare_at d \<noteq> {}"
    and i: "i = Min (spare_at d)"
  shows "\<exists>m d' addr key. on_completion le v cid True (Wc_Recv q) d = Inr ([(cid, m)], d') \<and> client_ready cid k True d' \<and>
     abs_mem (rdma_remote d') = lend_one k (abs_mem (rdma_remote d)) \<and> mtype m = INFO_SINGLE \<and> msg_wf m \<and> size_gb m = size_gb q \<and>
     offered_slot m = Some i \<and> reg_mr v i = Some (addr, key) \<and> ntohl le (rkey m ! i) = key \<and> buf m ! i = daemon_htonll le addr"
proof -
  obtain conn where d: "daemon_inv d" and conn: "heap d cid = Some conn" "conn_index conn = Some (int k)" "connected conn" "posted conn \<noteq> 0"
    using ready by (auto simp: client_ready_def)
  obtain m d' where m: "on_completion le v cid True (Wc_Recv q) d = Inr ([(cid, m)], d')" "daemon_inv d'"
    "abs_mem (rdma_remote d') = lend_one k (abs_mem (rdma_remote d))" "mtype m = INFO_SINGLE" "size_gb m = size_gb q"
    "offers le v (abs_mem (rdma_remote d)) (abs_mem (rdma_remote d')) (zero_msg INFO_SINGLE) m"
    using bind_single_ok [OF d conn v q ne, of le] by blast
  have "i \<in> spare_at d" unfolding i using ne by (intro Min_in) simp_all
  then have i': "i < MAX_MR_SIZE_GB" "lent_to d i = None" using spare_not_lent by simp_all
  have new: "lent_to d' j \<noteq> lent_to d j \<longleftrightarrow> j = i" for j using m(3) i'(2) by (auto simp: lend_one_def i)
  obtain addr key where key: "reg_mr v i = Some (addr, key)" "key \<noteq> 0" using v unfolding ibv_good_def by blast
  have off: "rkey m ! i = htonl le key" "buf m ! i = daemon_htonll le addr" "\<And>j. j < MAX_MR_SIZE_GB \<Longrightarrow> j \<noteq> i \<Longrightarrow> rkey m ! j = 0" "msg_wf m"
    using m(6) i'(1) key(1) new by (auto simp: offers_def zero_msg_def split: if_splits)
  have "htonl le key \<noteq> 0" using key(2) ntohl_htonl [of le key] by (metis bswap32_zero ntohl_def)
  then have "offered_slot m = Some i"
    unfolding offered_slot_def find_Some_iff using off(1,3) i'(1) by (intro exI [of _ i]) auto
  moreover have "client_ready cid k True d'"
    using bind_frame [OF m(1) q conn(1,4)] m(2) conn by (auto simp: client_ready_def)
  ultimately show ?thesis using m key off by (intro exI [of _ m] exI [of _ d'] exI [of _ addr] exI [of _ key]) (simp add: ntohl_htonl)
qed

section \<open>Tables in step\<close>

text \<open>Every available server has lent to the session exactly the chunks that the session has mapped on it.\<close>

definition linked :: "(nat \<Rightarrow> nat) \<Rightarrow> (nat \<Rightarrow> nat) \<Rightarrow> (nat \<Rightarrow> daemon) \<Rightarrow> IS_session \<Rightarrow> bool" where
  "linked ids slots ds s \<longleftrightarrow> (\<forall>c < length (cb_list s). cb_state_list s ! c < CB_EVICTING \<longrightarrow>
     client_ready (ids c) (slots c) (cb_state_list s ! c \<noteq> CB_IDLE) (ds c) \<and>
     (\<forall>i < MAX_MR_SIZE_GB. lent_to (ds c) i = Some (slots c) \<longleftrightarrow> (\<exists>g. (c, i, g) \<in> sess_view s)))"

lemma linkedD:
  assumes "linked ids slots ds s" "c < length (cb_list s)" "cb_state_list s ! c < CB_EVICTING"
  shows "client_ready (ids c) (slots c) (cb_state_list s ! c \<noteq> CB_IDLE) (ds c)"
    "i < MAX_MR_SIZE_GB \<Longrightarrow> lent_to (ds c) i = Some (slots c) \<longleftrightarrow> (\<exists>g. (c, i, g) \<in> sess_view s)"
  using assms by (simp_all add: linked_def)

lemma first_msg_simps [simp]: "first_msg (Inr ((a, m) # l, d)) = Some m" by (simp add: first_msg_def)

lemma daemon_net_told:
  assumes "linked ids slots ds s" "ibv_good v" "c < length (cb_list s)" "cb_state_list s ! c < CB_EVICTING"
  shows "told (daemon_net le v ids ds s) s c = int (card (spare_at (ds c)))" "server_answers (daemon_net le v ids ds s) s c"
proof -
  note ready = linkedD(1)[OF assms(1,3,4)]
  show "told (daemon_net le v ids ds s) s c = int (card (spare_at (ds c)))"
    using greet_ok [OF ready assms(2), of le] by (auto simp: told_def daemon_net_def greet_def split: if_splits)
  show "server_answers (daemon_net le v ids ds s) s c"
  proof (cases "cb_state_list s ! c = CB_IDLE")
    case True
    then show ?thesis using greet_ok [OF ready assms(2), of le] by (auto simp: server_answers_def daemon_net_def greet_def)
  next
    case False
    have "\<exists>m. first_msg (on_completion le v (ids c) True (Wc_Recv q) (ds c)) = Some m \<and> free_size_msg m" if q: "mtype q = QUERY" for q
    proof -
      let ?s = "upd_cb c (\<lambda>cb. cb\<lparr>send_buf := q\<rparr>) s"
      have "(send_buf (cb_at ?s c))\<lparr>mtype := QUERY\<rparr> = q" using assms(3) q by simp
      then show ?thesis using greet_ok [of "ids c" "slots c" ?s c "ds c" v le] ready assms(2) False by (auto simp: greet_def)
    qed
    with False show ?thesis by (simp add: server_answers_def daemon_net_def)
  qed
qed

lemma greeted_ok:
  assumes "linked ids slots ds s" "ibv_good v" "c < length (cb_list s)" "cb_state_list s ! c < CB_EVICTING" "c \<in> set cs"
  shows "client_ready (ids c) (slots c) True (greeted le v ids cs s ds c)" "rdma_remote (greeted le v ids cs s ds c) = rdma_remote (ds c)"
    "mtype q \<noteq> QUERY \<Longrightarrow> reply (daemon_net le v ids ds s) c q =
       first_msg (on_completion le v (ids c) True (Wc_Recv q) (greeted le v ids cs s ds c))"
proof -
  from greet_ok [OF linkedD(1)[OF assms(1,3,4)] assms(2), of le] assms(5)
  show "client_ready (ids c) (slots c) True (greeted le v ids cs s ds c)" "rdma_remote (greeted le v ids cs s ds c) = rdma_remote (ds c)"
    "mtype q \<noteq> QUERY \<Longrightarrow> reply (daemon_net le v ids ds s) c q =
       first_msg (on_completion le v (ids c) True (Wc_Recv q) (greeted le v ids cs s ds c))"
    by (auto simp: greeted_def daemon_net_def)
qed

text \<open>The daemons keep the contract of servers.\<close>

lemma daemons_answer: "linked ids slots ds s \<Longrightarrow> ibv_good v \<Longrightarrow> servers_answer (daemon_net le v ids ds s) s"
  using daemon_net_told(2) by (simp add: servers_answer_def)

lemma not_idle: "st \<noteq> CB_IDLE \<Longrightarrow> CB_IDLE < st"
  by (cases st) (simp_all add: cb_state_order)

lemma view_slot:
  assumes "map_inv_upto L s" "c < length (cb_list s)" "rc_sized (rc_at s c) MAX_MR_SIZE_GB" "i < MAX_MR_SIZE_GB"
  shows "chunk_map (rc_at s c) ! i = -1 \<longleftrightarrow> (\<nexists>g. (c, i, g) \<in> sess_view s)"
proof -
  have "-1 \<le> chunk_map (rc_at s c) ! i" using map_invD(2)[OF assms(1,2)] assms(3,4) by (simp add: rc_inv_def rc_sized_def)
  then have "chunk_map (rc_at s c) ! i = -1 \<longleftrightarrow> (\<nexists>g. chunk_map (rc_at s c) ! i = int g)"
    using zero_le_imp_eq_int [of "chunk_map (rc_at s c) ! i"] by force
  then show ?thesis using map_invD(3)[OF assms(1), symmetric] assms(2-4) by (simp add: cb_view_def rc_sized_def)
qed

lemma daemons_bind:
  assumes "linked ids slots ds s" "ibv_good v" "map_inv_upto L s" "peers_ok s"
  shows "servers_bind (daemon_net le v ids ds s) g s"
  unfolding servers_bind_def
proof (intro allI impI)
  fix c and q :: IS_rdma_info
  assume c: "c < length (cb_list s)" "cb_state_list s ! c < CB_EVICTING" and told: "0 < told (daemon_net le v ids ds s) s c"
    and q: "mtype q = BIND_SINGLE \<and> size_gb q = int g"
  let ?d = "greeted le v ids [c] s ds c" let ?i = "Min (spare_at (ds c))"
  have mem: "c \<in> set [c]" by simp
  note gr = greeted_ok(1,2)[OF assms(1,2) c mem, of le] greeted_ok(3)[OF assms(1,2) c mem, of q le]
  have ne: "spare_at ?d \<noteq> {}" using told daemon_net_told(1)[OF assms(1,2) c] gr(2) by auto
  have sp: "spare_at ?d = spare_at (ds c)" using gr(2) by simp
  obtain m d' where m: "on_completion le v (ids c) True (Wc_Recv q) ?d = Inr ([(ids c, m)], d')" "mtype m = INFO_SINGLE" "msg_wf m"
    "size_gb m = size_gb q" "offered_slot m = Some ?i"
    using offer_ok_daemon [OF gr(1) assms(2) _ ne, of q ?i le] q gr(2) by auto
  have "?i \<in> spare_at (ds c)" using ne sp by (intro Min_in) simp_all
  then have i: "?i < MAX_MR_SIZE_GB" "lent_to (ds c) ?i = None" using spare_not_lent by simp_all
  then have "\<nexists>g. (c, ?i, g) \<in> sess_view s" using linkedD(2)[OF assms(1) c i(1)] by simp
  moreover have "rc_sized (rc_at s c) MAX_MR_SIZE_GB" if "cb_state_list s ! c \<noteq> CB_IDLE"
    using assms(4) c not_idle [OF that] by (simp add: peers_ok_def)
  ultimately have "cb_state_list s ! c = CB_IDLE \<or> chunk_map (rc_at s c) ! ?i = -1"
    using view_slot [OF assms(3) c(1) _ i(1)] by blast
  with m i q gr(3) show "\<exists>m i. reply (daemon_net le v ids ds s) c q = Some m \<and> mtype m = INFO_SINGLE \<and> msg_wf m \<and> size_gb m = int g \<and>
      offered_slot m = Some i \<and> i < MAX_MR_SIZE_GB \<and> (cb_state_list s ! c = CB_IDLE \<or> chunk_map (rc_at s c) ! i = -1)"
    by (intro exI [of _ m] exI [of _ ?i]) simp
qed

section \<open>Mapping a chunk, end to end\<close>

lemma linked_step:
  assumes link: "linked ids slots ds s" and len: "length (cb_list s') = length (cb_list s)"
    and rest: "\<And>d. d < length (cb_list s) \<Longrightarrow> d \<notin> set cs \<Longrightarrow> untouched s s' d" and cs: "\<And>c. c \<in> set cs \<Longrightarrow> cb_state_list s ! c < CB_EVICTING"
    and ds': "\<And>c. c \<in> set cs \<Longrightarrow> client_ready (ids c) (slots c) True (ds' c)" "\<And>c. c \<notin> set cs \<Longrightarrow> ds' c = ds c"
    and lent: "\<And>c i. c < length (cb_list s) \<Longrightarrow> cb_state_list s ! c < CB_EVICTING \<Longrightarrow> i < MAX_MR_SIZE_GB \<Longrightarrow>
        lent_to (ds' c) i = Some (slots c) \<longleftrightarrow> (\<exists>g. (c, i, g) \<in> sess_view s')"
  shows "linked ids slots ds' s'"
  unfolding linked_def
proof (intro allI impI conjI)
  fix c
  assume c: "c < length (cb_list s')" "cb_state_list s' ! c < CB_EVICTING"
  have avail: "cb_state_list s ! c < CB_EVICTING" using rest [of c] cs [of c] c len by (cases "c \<in> set cs") (auto simp: untouched_def)
  show "client_ready (ids c) (slots c) (cb_state_list s' ! c \<noteq> CB_IDLE) (ds' c)"
  proof (cases "c \<in> set cs")
    case True
    then show ?thesis using ds'(1)[of c] by (simp add: client_ready_def) blast
  next
    case False
    then show ?thesis using linkedD(1)[OF link _ avail] rest [of c] ds'(2)[of c] c len by (simp add: untouched_def)
  qed
  show "lent_to (ds' c) i = Some (slots c) \<longleftrightarrow> (\<exists>g. (c, i, g) \<in> sess_view s')" if "i < MAX_MR_SIZE_GB" for i
    using lent [OF _ avail that] c len by simp
qed

text \<open>What the chosen daemon does, and what the session keeps of its offer.\<close>

definition lends_chunk ::
  "bool \<Rightarrow> ibv \<Rightarrow> (nat \<Rightarrow> nat) \<Rightarrow> (nat \<Rightarrow> nat) \<Rightarrow> nat \<Rightarrow> nat \<Rightarrow> nat \<Rightarrow> daemon \<Rightarrow> daemon \<Rightarrow> IS_session \<Rightarrow> bool" where
  "lends_chunk le v ids slots g c i d d' s' \<longleftrightarrow>
     (\<exists>q m. mtype q = BIND_SINGLE \<and> size_gb q = int g \<and> on_completion le v (ids c) True (Wc_Recv q) d = Inr ([(ids c, m)], d')) \<and>
     spare_at d \<noteq> {} \<and> i = Min (spare_at d) \<and> abs_mem (rdma_remote d') = (abs_mem (rdma_remote d))\<lparr>lent := (lent_to d)(i := Some (slots c))\<rparr> \<and>
     (\<exists>addr key. reg_mr v i = Some (addr, key) \<and> remote_rkey (chunk_list (rc_at s' c) ! i) = key \<and>
        (le \<longrightarrow> remote_addr (chunk_list (rc_at s' c) ! i) = addr))"

lemma chosen_daemon_lends:
  assumes link: "linked ids slots ds s" "ibv_good v" and c: "c < length (cb_list s)" "cb_state_list s ! c < CB_EVICTING" "c \<in> set cs"
    and told: "0 < told (daemon_net le v ids ds s) s c" and b: "binds_with (daemon_net le v ids ds s) g c i q m" "took_offer le m c i s'"
  shows "\<exists>d'. client_ready (ids c) (slots c) True d' \<and> lends_chunk le v ids slots g c i (greeted le v ids cs s ds c) d' s'"
proof -
  let ?d = "greeted le v ids cs s ds c"
  note gr = greeted_ok(1,2)[OF link c, of le] greeted_ok(3)[OF link c, of q le]
  have q: "mtype q = BIND_SINGLE" "size_gb q = int g" "reply (daemon_net le v ids ds s) c q = Some m" "offered_slot m = Some i"
    using b(1) by (simp_all add: binds_with_def)
  have ne: "spare_at ?d \<noteq> {}" using told daemon_net_told(1)[OF link c(1,2)] gr(2) by auto
  obtain m' d' addr key where m': "on_completion le v (ids c) True (Wc_Recv q) ?d = Inr ([(ids c, m')], d')" "client_ready (ids c) (slots c) True d'"
    "abs_mem (rdma_remote d') = lend_one (slots c) (abs_mem (rdma_remote ?d))" "offered_slot m' = Some (Min (spare_at ?d))"
    "reg_mr v (Min (spare_at ?d)) = Some (addr, key)" "ntohl le (rkey m' ! Min (spare_at ?d)) = key" "buf m' ! Min (spare_at ?d) = daemon_htonll le addr"
    using offer_ok_daemon [OF gr(1) link(2) q(1) ne refl, of le] by blast
  have "m' = m" using gr(3) q m'(1) by simp
  then have i: "i = Min (spare_at ?d)" using q(4) m'(4) by simp
  have "ntohll le (daemon_htonll le addr) = addr" if "le" using that by (simp add: ntohll_eq daemon_htonll_eq ntohl_htonl)
  then have "remote_rkey (chunk_list (rc_at s' c) ! i) = key" "le \<longrightarrow> remote_addr (chunk_list (rc_at s' c) ! i) = addr"
    using b(2) m'(6,7) unfolding \<open>m' = m\<close> i [symmetric] by (simp_all add: took_offer_def)
  then show ?thesis using m'(1-3,5) q(1,2) i ne by (intro exI [of _ d']) (auto simp: lends_chunk_def lend_one_def)
qed

text \<open>
  C3: mapping a chunk with the daemon's own code at the other end. The session and the daemons being in
  step, \<open>IS_single_chunk_map\<close> returns, its answers computed by the handlers of the daemons, and both
  sides are in step again. If one of the servers asked has a spare chunk, the session chunk is mapped on
  a server with most spare chunks: the daemon there handled the request and lent its lowest spare chunk to
  the client's slot, nothing else of its table changed, and the session keeps for this chunk the key (and, on
  little-endian hosts, the address) under which the daemon registered it; the other daemons have only
  been asked. Otherwise the call returns -1 and no daemon has lent anything.
\<close>

theorem chunk_map_end_to_end:
  assumes "map_inv s" "peers_ok s" "linked ids slots ds s" "chunk_free g s" "ibv_good v" "NUM_CB = length (cb_list s)"
  shows "\<exists>cs r s' ds'. IS_single_chunk_map le (daemon_net le v ids ds s) m NUM_CB (int g) s = Some (Inr (r, s')) \<and>
     map_inv s' \<and> peers_ok s' \<and> linked ids slots ds' s' \<and>
     length cs = min (avail_cb NUM_CB (cb_state_list s)) m \<and> distinct cs \<and> (\<forall>c \<in> set cs. c < NUM_CB \<and> cb_state_list s ! c < CB_EVICTING) \<and>
     (if \<exists>c \<in> set cs. spare_at (ds c) \<noteq> {}
      then r = int g \<and> (\<exists>c \<in> set cs. \<exists>i. sess_view s' = insert (c, i, g) (sess_view s) \<and>
        lends_chunk le v ids slots g c i (greeted le v ids cs s ds c) (ds' c) s' \<and>
        (\<forall>d \<in> set cs. card (spare_at (ds d)) \<le> card (spare_at (ds c))) \<and> (\<forall>d. d \<noteq> c \<longrightarrow> ds' d = greeted le v ids cs s ds d))
      else r = -1 \<and> sess_view s' = sess_view s \<and> ds' = greeted le v ids cs s ds)"
proof -
  let ?nt = "daemon_net le v ids ds s" have none: "g \<notin> {}" by simp
  obtain cs r s' where run: "IS_single_chunk_map le ?nt m NUM_CB (int g) s = Some (Inr (r, s'))" "map_inv s'" "peers_ok s'" "keeps_rest g s s'"
    "length cs = min (avail_cb NUM_CB (cb_state_list s)) m" "distinct cs" "\<forall>c \<in> set cs. c < NUM_CB \<and> cb_state_list s ! c < CB_EVICTING"
    and rest: "\<forall>d < length (cb_list s). d \<notin> set cs \<longrightarrow> untouched s s' d"
    and res: "r = -1 \<and> sess_view s' = sess_view s \<and> (\<forall>c \<in> set cs. told ?nt s c = 0) \<or> r = int g \<and> rdma_on s' = DEV_RDMA_ON \<and>
      (\<exists>c i q m. chosen_server ?nt cs s c \<and> sess_view s' = insert (c, i, g) (sess_view s) \<and> binds_with ?nt g c i q m \<and> took_offer le m c i s')"
    using IS_single_chunk_map_full [OF assms(1,2) daemons_answer [OF assms(3,5), of le] daemons_bind [OF assms(3,5,1,2), of le] assms(4) none assms(6), of le m]
    by (elim exE conjE) (rule that)
  let ?gr = "greeted le v ids cs s ds"
  have len: "length (cb_list s') = length (cb_list s)" using run(4) by (simp add: keeps_rest_def)
  have told: "told ?nt s c = int (card (spare_at (ds c)))" if "c \<in> set cs" for c
    using daemon_net_told(1)[OF assms(3,5)] run(7) assms(6) that by simp
  have gr: "client_ready (ids c) (slots c) True (?gr c)" if "c \<in> set cs" for c
    using greeted_ok(1)[OF assms(3,5)] run(7) assms(6) that by simp
  have mem: "rdma_remote (?gr c) = rdma_remote (ds c)" for c
    using greeted_ok(2)[OF assms(3,5), of c cs le] run(7) assms(6) by (cases "c \<in> set cs") (simp_all add: greeted_def)
  have un: "?gr c = ds c" if "c \<notin> set cs" for c using that by (simp add: greeted_def)
  note step = linked_step [OF assms(3) len, of cs]
  from res show ?thesis
  proof (elim disjE conjE exE)
    assume r: "r = -1" "sess_view s' = sess_view s" and zero: "\<forall>c \<in> set cs. told ?nt s c = 0"
    have "linked ids slots ?gr s'" using linkedD(2)[OF assms(3)] rest run(7) gr un mem r(2) by (intro step) simp_all
    moreover have "\<not> (\<exists>c \<in> set cs. spare_at (ds c) \<noteq> {})" using zero told by auto
    ultimately show ?thesis using run r by (intro exI [of _ cs] exI [of _ r] exI [of _ s'] exI [of _ ?gr]) simp
  next
    fix c i q m'
    assume r: "r = int g" and ch: "chosen_server ?nt cs s c" and view: "sess_view s' = insert (c, i, g) (sess_view s)"
      and b: "binds_with ?nt g c i q m'" "took_offer le m' c i s'"
    have c: "c \<in> set cs" "0 < told ?nt s c" "c < length (cb_list s)" "cb_state_list s ! c < CB_EVICTING"
      and max: "\<forall>d \<in> set cs. card (spare_at (ds d)) \<le> card (spare_at (ds c))"
      using ch run(7) assms(6) told by (auto simp: chosen_server_def)
    obtain d' where d': "client_ready (ids c) (slots c) True d'" "lends_chunk le v ids slots g c i (?gr c) d' s'"
      using chosen_daemon_lends [OF assms(3,5) c(3,4,1,2) b] by blast
    have i: "lent_to d' j = (if j = i then Some (slots c) else lent_to (ds c) j)" for j using d'(2) mem by (simp add: lends_chunk_def)
    have "linked ids slots (?gr(c := d')) s'"
    proof (rule step)
      fix e j assume e: "e < length (cb_list s)" "cb_state_list s ! e < CB_EVICTING" "j < MAX_MR_SIZE_GB"
      show "lent_to ((?gr(c := d')) e) j = Some (slots e) \<longleftrightarrow> (\<exists>g. (e, j, g) \<in> sess_view s')"
        using linkedD(2)[OF assms(3) e] i [of j] mem [of e] view by auto
    qed (use rest run(7) gr un d'(1) c(1) in auto)
    moreover have "\<exists>c \<in> set cs. spare_at (ds c) \<noteq> {}" using c(1,2) told [OF c(1)] by (intro bexI [of _ c]) auto
    ultimately show ?thesis
      using run r view c(1) d'(2) max by (intro exI [of _ cs] exI [of _ r] exI [of _ s'] exI [of _ "?gr(c := d')"]) auto
  qed
qed

section \<open>Daemons for every session\<close>

text \<open>
  A daemon in step with a given session: its client in slot 0 holds what the session has mapped, and the
  chunks of \<open>E c\<close> are allocated. Such daemons meet the contract of the eviction and the failover.
\<close>

definition home :: "(nat \<Rightarrow> nat set) \<Rightarrow> IS_session \<Rightarrow> nat \<Rightarrow> daemon" where
  "home E s c = tenancy 1 (\<lambda>i. if i < length (chunk_map (rc_at s c)) \<and> chunk_map (rc_at s c) ! i \<noteq> -1 then 0 else -1)
     (E c) (\<lambda>_. zero_msg QUERY)"

lemma home_ready: "client_ready 0 0 up (home E s c)"
proof -
  have "daemon_inv (home E s c)" unfolding home_def by (rule tenancy_inv) (simp_all add: MAX_CLIENT_def)
  then show ?thesis by (simp add: client_ready_def) (simp add: home_def tenancy_def tenant_def Daemon_Inv.placed_def Let_def new_conn_def)
qed

lemma home_lent:
  assumes "i < MAX_MR_SIZE_GB"
  shows "lent_to (home E s c) i = (if i < length (chunk_map (rc_at s c)) \<and> chunk_map (rc_at s c) ! i \<noteq> -1 then Some 0 else None)"
  using assms unfolding home_def by (subst tenancy_mem(2)) (simp_all add: MAX_CLIENT_def MAX_sizes)

lemma home_linked:
  assumes "map_inv_upto L s"
  shows "linked (\<lambda>_. 0) (\<lambda>_. 0) (home E s) s"
  unfolding linked_def
proof (intro allI impI conjI)
  fix c assume c: "c < length (cb_list s)"
  show "client_ready 0 0 (cb_state_list s ! c \<noteq> CB_IDLE) (home E s c)" by (rule home_ready)
  fix i assume i: "i < MAX_MR_SIZE_GB"
  have "(\<exists>g. chunk_map (rc_at s c) ! i = int g) \<longleftrightarrow> chunk_map (rc_at s c) ! i \<noteq> -1" if "i < length (chunk_map (rc_at s c))"
    using map_invD(2)[OF assms c] that zero_le_imp_eq_int [of "chunk_map (rc_at s c) ! i"] by (force simp: rc_inv_def)
  then show "lent_to (home E s c) i = Some 0 \<longleftrightarrow> (\<exists>g. (c, i, g) \<in> sess_view s)"
    unfolding home_lent [OF i] map_invD(3)[OF assms, symmetric] using c by (auto simp: cb_view_def)
qed

interpretation daemons: server_env "\<lambda>g s. daemon_net le ibv_ex (\<lambda>_. 0) (home E s) s" for le E
  by unfold_locales (use home_linked ibv_ex_good daemons_answer daemons_bind in blast)+

section \<open>Eviction, end to end\<close>

text \<open>
  C4: a round of eviction between the two programs, the other servers being daemons. When the session
  and the daemon that sent the STOP message agree on the chunks lent, the eviction thread gives up the
  marked chunks and maps them anew elsewhere, and the DONE message it leaves in its send buffer is one that
  the daemon handles without an error: it takes back and frees exactly the marked chunks, keeps its invariant,
  and the two sides agree again.
\<close>

theorem evict_end_to_end:
  assumes "map_inv s" "peers_ok s" "c < length (cb_list s)" "cb_state_list s ! c = CB_MAPPED"
    and "marks_ok s c" "quiet c s" "shrink_size_g (rc_at s c) \<noteq> 0" "NUM_CB = length (cb_list s)"
    and d: "client_ready cid k True d" "\<forall>i < MAX_MR_SIZE_GB. lent_to d i = Some k \<longleftrightarrow> (\<exists>g. (c, i, g) \<in> sess_view s)" "ibv_good v"
  shows "\<exists>s' d'. evict_handler_round le (\<lambda>g s. daemon_net le ibv_ex (\<lambda>_. 0) (home E s) s) m NUM_CB c s = Some (Inr s') \<and> map_inv s' \<and>
     on_completion le v cid True (Wc_Recv (send_buf (cb_at s' c))) d = Inr ([], d') \<and> daemon_inv d' \<and>
     abs_mem (rdma_remote d') = give_back {i. i < MAX_MR_SIZE_GB \<and> Evict.marked s c i} (abs_mem (rdma_remote d)) \<and>
     (\<forall>i < MAX_MR_SIZE_GB. lent_to d' i = Some k \<longleftrightarrow> (\<exists>g. (c, i, g) \<in> sess_view s'))"
proof -
  let ?M = "{i. i < MAX_MR_SIZE_GB \<and> Evict.marked s c i}"
  obtain s' where s': "evict_handler_round le (\<lambda>g s. daemon_net le ibv_ex (\<lambda>_. 0) (home E s) s) m NUM_CB c s = Some (Inr s')" "map_inv s'"
    "\<forall>k g. (c, k, g) \<in> sess_view s' \<longleftrightarrow> (c, k, g) \<in> kept_view c s" "mtype (send_buf (cb_at s' c)) = DONE"
    "size_gb (send_buf (cb_at s' c)) = shrink_size_g (rc_at s c)" "msg_wf (send_buf (cb_at s' c))"
    "\<forall>i < MAX_MR_SIZE_GB. rkey (send_buf (cb_at s' c)) ! i = (if Evict.marked s c i then 1 else 0)"
    using daemons.evict_handler_round_ok [OF assms(1-8), of le le E m] by blast
  let ?m = "send_buf (cb_at s' c)"
  have mk: "Daemon_Inv.marked ?m = ?M" using s'(7) by (auto simp: Daemon_Inv.marked_def split: if_splits)
  obtain conn where conn: "daemon_inv d" "heap d cid = Some conn" "conn_index conn = Some (int k)" "connected conn" "posted conn \<noteq> 0"
    using d(1) by (auto simp: client_ready_def)
  have sized: "rc_sized (rc_at s c) MAX_MR_SIZE_GB" using assms(2-4) by (simp add: peers_ok_def cb_state_order)
  have "lent_to d i = Some k" if "i \<in> ?M" for i
  proof -
    have "chunk_map (rc_at s c) ! i \<noteq> -1" using assms(5) that by (simp add: marks_ok_def)
    then show ?thesis using view_slot [OF assms(1,3) sized] d(2) that by blast
  qed
  then have "fits k ?m (abs_mem (rdma_remote d))" using s'(4-6) assms(5) by (simp add: fits_def mk marks_ok_def)
  from on_completion_ok [OF conn d(3) this, of le] obtain out d' where d': "on_completion le v cid True (Wc_Recv ?m) d = Inr (out, d')" "daemon_inv d'"
    "abs_mem (rdma_remote d') = give_back ?M (abs_mem (rdma_remote d))" "out = []"
    using s'(4) by (auto simp: lender_step_def replies_def mk)
  have "lent_to d' i = Some k \<longleftrightarrow> (\<exists>g. (c, i, g) \<in> sess_view s')" if "i < MAX_MR_SIZE_GB" for i
    using d'(3) d(2) s'(3) that by (auto simp: give_back_def kept_view_def)
  with s'(1,2) d' show ?thesis by blast
qed

section \<open>Concrete rounds\<close>

lemma home_spare:
  assumes "chunk_map (rc_at s c) = []"
  shows "spare_at (home E s c) = {i. i < MAX_MR_SIZE_GB \<and> i \<in> E c}"
  using assms by (auto simp: spare_abs free_chunk_def home_def tenancy_def Let_def MAX_sizes CHUNK_EMPTY_def CHUNK_MALLOCED_def split: if_splits)

theorem chunk_map_end_to_end_witness:
  "\<exists>s' ds'. IS_single_chunk_map True (daemon_net True ibv_ex (\<lambda>_. 0) (home (\<lambda>c. {..<c}) (demo_session 3)) (demo_session 3)) 3 3 5 (demo_session 3) =
       Some (Inr (5, s')) \<and> sess_view s' = {(2, 0, 5)} \<and> linked (\<lambda>_. 0) (\<lambda>_. 0) ds' s' \<and> lent_to (ds' 2) 0 = Some 0 \<and>
       remote_addr (chunk_list (rc_at s' 2) ! 0) = 0x1000"
proof -
  let ?s = "demo_session 3" let ?ds = "home (\<lambda>c. {..<c}) ?s" let ?gr = "\<lambda>cs. greeted True ibv_ex (\<lambda>_. 0) cs ?s ?ds"
  note [simp] = demo_session_cb
  have free: "chunk_free 5 ?s" by (simp add: chunk_free_def demo_session_idle STACKBD_SIZE_G_def NO_CB_MAPPED_def)
  have empty: "sess_view ?s = {}"
    using IS_session_create_map_inv(2) [of True "\<lambda>_. True" 1 "replicate 3 9400" ?s] by (simp add: demo_session_def IS_session_create_def Let_def)
  have avail: "avail_cb 3 (cb_state_list ?s) = 3" unfolding demo_session_idle by code_simp
  have spare: "spare_at (?ds c) = {..<c}" if "c < 3" for c
    using that by (subst home_spare) (auto simp: zero_cb_def zero_rc_def MAX_MR_SIZE_GB_def)
  have link: "linked (\<lambda>_. 0) (\<lambda>_. 0) ?ds ?s" by (rule home_linked [OF demo_session_inv])
  have three: "3 = length (cb_list ?s)" by simp
  obtain cs r s' ds' where run: "IS_single_chunk_map True (daemon_net True ibv_ex (\<lambda>_. 0) ?ds ?s) 3 3 (int 5) ?s = Some (Inr (r, s'))"
    "linked (\<lambda>_. 0) (\<lambda>_. 0) ds' s'" and cs: "length cs = min (avail_cb 3 (cb_state_list ?s)) 3" "distinct cs" "\<forall>c \<in> set cs. c < 3 \<and> cb_state_list ?s ! c < CB_EVICTING"
    and res: "if \<exists>c \<in> set cs. spare_at (?ds c) \<noteq> {}
      then r = int 5 \<and> (\<exists>c \<in> set cs. \<exists>i. sess_view s' = insert (c, i, 5) (sess_view ?s) \<and>
        lends_chunk True ibv_ex (\<lambda>_. 0) (\<lambda>_. 0) 5 c i (?gr cs c) (ds' c) s' \<and>
        (\<forall>d \<in> set cs. card (spare_at (?ds d)) \<le> card (spare_at (?ds c))) \<and> (\<forall>d. d \<noteq> c \<longrightarrow> ds' d = ?gr cs d))
      else r = -1 \<and> sess_view s' = sess_view ?s \<and> ds' = ?gr cs"
    using chunk_map_end_to_end [OF demo_session_inv demo_session_peers link free ibv_ex_good three, of True 3] by (elim exE conjE) (rule that)
  have "set cs \<subseteq> {..<3}" "card (set cs) = 3" using cs avail by (auto simp: distinct_card)
  then have all: "set cs = {..<3}" by (intro card_subset_eq) simp_all
  have two: "2 \<in> set cs" "spare_at (?ds 2) = {..<2}" using spare [of 2] by (simp_all add: all)
  then have some: "\<exists>c \<in> set cs. spare_at (?ds c) \<noteq> {}" by (intro bexI [of _ 2]) (simp_all add: lessThan_empty_iff)
  from res [unfolded if_P [OF some] empty] obtain c i where c: "c \<in> set cs" "r = int 5" "sess_view s' = {(c, i, 5)}" "lends_chunk True ibv_ex (\<lambda>_. 0) (\<lambda>_. 0) 5 c i (?gr cs c) (ds' c) s'"
    "\<forall>d \<in> set cs. card (spare_at (?ds d)) \<le> card (spare_at (?ds c))" by (elim conjE bexE exE) (rule that)
  have "c < 3" using c(1) all by simp
  moreover have "card (spare_at (?ds 2)) \<le> card (spare_at (?ds c))" using c(5) two(1) by blast
  ultimately have "c = 2" unfolding two(2) spare [OF \<open>c < 3\<close>] by simp
  then have gr: "spare_at (?gr cs c) = {..<2}"
    using greeted_ok(2)[OF link ibv_ex_good, of 2 cs True] spare [of 2] c(1) by (simp add: demo_session_idle cb_state_order)
  have "i = 0" using c(4) gr Min_eqI [of "{..<2 :: nat}" 0] by (simp add: lends_chunk_def)
  with c \<open>c = 2\<close> run show ?thesis by (intro exI [of _ s'] exI [of _ ds']) (simp add: lends_chunk_def ibv_ex_def)
qed

theorem evict_end_to_end_witness:
  "lent_to (home (\<lambda>_. {}) demo_stop 0) 3 = Some 0 \<and>
   (\<exists>s' d'. evict_handler_round True (\<lambda>g s. daemon_net True ibv_ex (\<lambda>_. 0) (home (\<lambda>_. {}) s) s) 1 1 0 demo_stop = Some (Inr s') \<and>
      on_completion True ibv_ex 0 True (Wc_Recv (send_buf (cb_at s' 0))) (home (\<lambda>_. {}) demo_stop 0) = Inr ([], d') \<and>
      daemon_inv d' \<and> lent_to d' 3 = None \<and> 3 \<notin> owned (abs_mem (rdma_remote d')))"
proof -
  let ?d = "home (\<lambda>_. {}) demo_stop 0"
  have pre: "peers_ok demo_stop" "0 < length (cb_list demo_stop)" "cb_state_list demo_stop ! 0 = CB_MAPPED"
    "shrink_size_g (rc_at demo_stop 0) \<noteq> 0" "1 = length (cb_list demo_stop)" "cb_state_list demo_stop ! 0 < CB_EVICTING"
    by (simp_all add: peers_ok_iff peer_ok_def demo_stop_rc test_state_order cb_state_order)
  note link = home_linked [OF demo_stop_inv, of "\<lambda>_. {}"]
  have lent: "\<forall>i < MAX_MR_SIZE_GB. lent_to ?d i = Some 0 \<longleftrightarrow> (\<exists>g. (0, i, g) \<in> sess_view demo_stop)"
    using linkedD(2)[OF link pre(2,6)] by simp
  obtain s' d' where run: "evict_handler_round True (\<lambda>g s. daemon_net True ibv_ex (\<lambda>_. 0) (home (\<lambda>_. {}) s) s) 1 1 0 demo_stop = Some (Inr s')"
    "on_completion True ibv_ex 0 True (Wc_Recv (send_buf (cb_at s' 0))) ?d = Inr ([], d')" "daemon_inv d'"
    "abs_mem (rdma_remote d') = give_back {i. i < MAX_MR_SIZE_GB \<and> Evict.marked demo_stop 0 i} (abs_mem (rdma_remote ?d))"
    using evict_end_to_end [OF demo_stop_inv pre(1-3) demo_stop_marks demo_stop_quiet pre(4,5) home_ready lent ibv_ex_good, of True _ 1] by blast
  have three: "3 < MAX_MR_SIZE_GB" "Evict.marked demo_stop 0 3" by (simp_all add: demo_stop_rc MAX_MR_SIZE_GB_def)
  then have "lent_to ?d 3 = Some 0" using lent demo_stop_rc(9) by blast
  with run three show ?thesis by (auto simp: give_back_def)
qed

end
