(* ===== verification/Hw_Queues.thy ===== *)
theory Hw_Queues
  imports IS_Prelude
begin

text \<open>
  Where the hardware queues of the block device live: on kernels before 3.16 \<open>IS_alloc_hctx\<close> chooses the memory
  node of a queue with a loop over the queues before it. The numbers of the online nodes and the
  number that ends their enumeration are parameters.
\<close>

section \<open>The loop\<close>

text \<open>One round; the state is \<open>n\<close>, \<open>node\<close>, \<open>tip\<close> and \<open>b_size\<close>.\<close>

definition hctx_step :: "nat \<Rightarrow> nat \<Rightarrow> nat \<Rightarrow> int \<times> int \<times> int \<times> int \<Rightarrow> (int \<times> int \<times> int \<times> int) res" where
  "hctx_step nr_hw_queues nr_online_nodes i = (\<lambda>(n, node, tip, b_size).
     if b_size = 0 then Inl Div_By_Zero
     else if n mod b_size = 0
     then Inr (1, node + 1, tip - 1, if tip - 1 = 0 then int (nr_hw_queues div nr_online_nodes) else b_size)
     else Inr (n + 1, node, tip, b_size))"

text \<open>The loop over the online nodes, which turns the relative number of a node into its own.\<close>

fun online_node :: "int \<Rightarrow> int list \<Rightarrow> int \<Rightarrow> int" where
  "online_node MAX_NUMNODES [] node = MAX_NUMNODES"
| "online_node MAX_NUMNODES (n # ns) node = (if node = 0 then n else online_node MAX_NUMNODES ns (node - 1))"

definition IS_alloc_hctx :: "int \<Rightarrow> int list \<Rightarrow> nat \<Rightarrow> nat \<Rightarrow> int res" where
  "IS_alloc_hctx MAX_NUMNODES online nr_hw_queues hctx_index =
     (let nr_online_nodes = length online
      in if nr_online_nodes = 0 then Inl Div_By_Zero
         else bind_res (for_res (hctx_step nr_hw_queues nr_online_nodes) [0..<hctx_index]
                (1, 0, int (nr_hw_queues mod nr_online_nodes),
                 int ((nr_hw_queues + nr_online_nodes - 1) div nr_online_nodes)))
              (\<lambda>(_, node, _, _). Inr (online_node MAX_NUMNODES online node)))"

section \<open>The even split\<close>

text \<open>The share of a node: the queues are split evenly, the first nodes getting one of the rest each.\<close>

definition share :: "nat \<Rightarrow> nat \<Rightarrow> nat \<Rightarrow> nat" where
  "share nr nodes x = nr div nodes + (if x < nr mod nodes then 1 else 0)"

definition even_split :: "int list \<Rightarrow> nat \<Rightarrow> int list" where
  "even_split online nr = concat (map (\<lambda>x. replicate (share nr (length online) x) (online ! x)) [0..<length online])"

definition first_of :: "nat \<Rightarrow> nat \<Rightarrow> nat \<Rightarrow> nat" where
  "first_of nr nodes x = x * (nr div nodes) + min x (nr mod nodes)"

lemma first_of_simps:
  "first_of nr nodes 0 = 0" "first_of nr nodes (Suc x) = first_of nr nodes x + share nr nodes x"
  by (simp_all add: first_of_def share_def)

lemma ceil_share:
  assumes "0 < nodes"
  shows "(nr + nodes - 1) div nodes = share nr nodes 0"
proof -
  obtain q t where qt: "nr div nodes = q" "nr mod nodes = t" by blast
  then have nr: "nr = q * nodes + t" "t < nodes" using div_mult_mod_eq [of nr nodes] mod_less_divisor [OF assms] by auto
  show ?thesis
  proof (cases t)
    case 0
    have "(q * nodes + (nodes - 1)) div nodes = q" using div_mult_self3 [of nodes q "nodes - 1"] assms by simp
    moreover have "nr + nodes - 1 = q * nodes + (nodes - 1)" using 0 nr(1) assms by (cases nodes) simp_all
    ultimately show ?thesis using 0 qt by (simp only: share_def) simp
  next
    case (Suc m)
    have "(q * nodes + (nodes + m)) div nodes = q + 1" using Suc nr(2) by (simp add: div_add_self1)
    moreover have "nr + nodes - 1 = q * nodes + (nodes + m)" using Suc nr(1) by simp
    ultimately show ?thesis using Suc qt by (simp only: share_def) simp
  qed
qed

lemma first_of_all: "0 < nodes \<Longrightarrow> first_of nr nodes nodes = nr"
  using mod_less_divisor [of nodes nr] by (simp add: first_of_def min_absorb2 less_imp_le mult.commute)

lemma length_split_upto: "length (concat (map (\<lambda>x. replicate (share nr nodes x) (f x)) [0..<x])) = first_of nr nodes x"
  by (induction x) (simp_all add: first_of_simps)

lemma even_split_nth:
  assumes "x < length online" "k < share nr (length online) x"
  shows "even_split online nr ! (first_of nr (length online) x + k) = online ! x"
proof -
  let ?g = "\<lambda>x. replicate (share nr (length online) x) (online ! x)"
  have "[0..<length online] = [0..<x] @ x # [Suc x..<length online]"
    using upt_add_eq_append [of 0 x "length online - x"] assms(1) by (simp add: upt_conv_Cons)
  then have "even_split online nr = concat (map ?g [0..<x]) @ ?g x @ concat (map ?g [Suc x..<length online])"
    by (simp add: even_split_def)
  then show ?thesis using assms(2) length_split_upto [of nr "length online" "\<lambda>x. online ! x" x] by (simp add: nth_append)
qed

lemma online_node_nth: "x < length online \<Longrightarrow> online_node M online (int x) = online ! x"
proof (induction online arbitrary: x)
  case (Cons n ns)
  then show ?case by (cases x) (simp_all add: of_nat_diff)
qed simp

text \<open>The state before round \<open>i\<close>: queue \<open>i\<close> is the \<open>n\<close>-th of its node, counted from one.\<close>

definition at_queue :: "nat \<Rightarrow> nat \<Rightarrow> nat \<Rightarrow> int \<times> int \<times> int \<times> int \<Rightarrow> bool" where
  "at_queue nr nodes i st \<longleftrightarrow> (i < nr \<longrightarrow> (\<exists>x k. x < nodes \<and> k < share nr nodes x \<and> i = first_of nr nodes x + k \<and>
     st = (int k + 1, int x, int (nr mod nodes) - int x, int (share nr nodes x))))"

lemma at_queueI:
  "x < nodes \<Longrightarrow> k < share nr nodes x \<Longrightarrow> i = first_of nr nodes x + k \<Longrightarrow>
     st = (int k + 1, int x, int (nr mod nodes) - int x, int (share nr nodes x)) \<Longrightarrow> at_queue nr nodes i st"
  by (auto simp: at_queue_def)

lemma hctx_step_ok:
  assumes "at_queue nr nodes i st" "0 < nodes" "Suc i < nr"
  shows "\<exists>st'. hctx_step nr nodes i st = Inr st' \<and> at_queue nr nodes (Suc i) st'"
proof -
  obtain x k where x: "x < nodes" "k < share nr nodes x" "i = first_of nr nodes x + k"
    "st = (int k + 1, int x, int (nr mod nodes) - int x, int (share nr nodes x))"
    using assms(1,3) by (auto simp: at_queue_def)
  show ?thesis
  proof (cases "Suc k < share nr nodes x")
    case True
    then have "(int k + 1) mod int (share nr nodes x) = int k + 1" by (intro mod_pos_pos_trivial) simp_all
    then have "hctx_step nr nodes i st = Inr (int (Suc k) + 1, int x, int (nr mod nodes) - int x, int (share nr nodes x))"
      using x(2,4) by (simp add: hctx_step_def)
    moreover have "at_queue nr nodes (Suc i) (int (Suc k) + 1, int x, int (nr mod nodes) - int x, int (share nr nodes x))"
      using True x(1,3) by (intro at_queueI [of x _ "Suc k"]) simp_all
    ultimately show ?thesis by blast
  next
    case False
    then have last: "share nr nodes x = Suc k" using x(2) by simp
    then have i: "Suc i = first_of nr nodes (Suc x)" using x(3) by (simp add: first_of_simps)
    have "Suc x < nodes" using first_of_all [OF assms(2), of nr] i assms(3) x(1) by (cases "Suc x = nodes") simp_all
    let ?b = "if int (nr mod nodes) - int x - 1 = 0 then int (nr div nodes) else int (share nr nodes x)"
    have b: "?b = int (share nr nodes (Suc x))" by (auto simp: share_def)
    have "0 < share nr nodes (Suc x)"
    proof (rule ccontr)
      assume "\<not> 0 < share nr nodes (Suc x)"
      then have "nr div nodes = 0" "nr mod nodes \<le> Suc x" by (auto simp: share_def split: if_splits)
      then have "first_of nr nodes (Suc x) = nr mod nodes" "nr mod nodes = nr"
        using div_mult_mod_eq [of nr nodes] by (simp_all add: first_of_def min_absorb2)
      with i assms(3) show False by simp
    qed
    moreover have "hctx_step nr nodes i st = Inr (1, int x + 1, int (nr mod nodes) - int x - 1, ?b)"
      using x(4) last by (simp add: hctx_step_def add.commute)
    moreover have "at_queue nr nodes (Suc i) (1, int x + 1, int (nr mod nodes) - int x - 1, ?b)"
      unfolding b using i calculation(1) \<open>Suc x < nodes\<close> by (intro at_queueI [of "Suc x" _ 0]) simp_all
    ultimately show ?thesis by blast
  qed
qed

text \<open>
  C34: the loop splits the queues as its comment says: evenly over the online nodes, the first nodes getting one
  queue more while the rest lasts. For every number of nodes (more than the queues included) and every
  queue the loop ends without a division by zero and chooses the node of the even split.
\<close>

theorem IS_alloc_hctx_even:
  assumes "online \<noteq> []"
  shows "length (even_split online nr) = nr \<and>
     map (IS_alloc_hctx M online nr) [0..<nr] = map Inr (even_split online nr)"
proof -
  let ?N = "length online"
  have N: "0 < ?N" using assms by simp
  have len: "length (even_split online nr) = nr"
    using length_split_upto [of nr ?N "\<lambda>x. online ! x" ?N] first_of_all [OF N] by (simp add: even_split_def)
  have "IS_alloc_hctx M online nr i = Inr (even_split online nr ! i)" if i: "i < nr" for i
  proof -
    let ?s = "(1, 0, int (nr mod ?N), int ((nr + ?N - 1) div ?N))"
    note ceil = ceil_share [OF N, of nr]
    have "0 < share nr ?N 0" unfolding ceil [symmetric] using i N by (simp add: div_greater_zero_iff)
    then have start: "at_queue nr ?N 0 ?s" using N ceil by (intro at_queueI [of 0 _ 0]) (simp_all add: first_of_simps)
    have "\<exists>st. for_res (hctx_step nr ?N) [0..<i] ?s = Inr st \<and> at_queue nr ?N i st"
      by (rule for_res_inv [where P = "at_queue nr ?N"]) (use start hctx_step_ok [OF _ N] i in auto)
    then obtain st x k where run: "for_res (hctx_step nr ?N) [0..<i] ?s = Inr st" and x: "x < ?N" "k < share nr ?N x"
      "i = first_of nr ?N x + k" "st = (int k + 1, int x, int (nr mod ?N) - int x, int (share nr ?N x))"
      using i by (auto simp: at_queue_def)
    then show ?thesis using assms even_split_nth [OF x(1,2)] by (simp add: IS_alloc_hctx_def Let_def online_node_nth)
  qed
  then show ?thesis using len by (intro conjI nth_equalityI) simp_all
qed

theorem IS_alloc_hctx_even_witness: "map (IS_alloc_hctx 64 [0, 2, 5] 8) [0..<8] = map Inr [0, 0, 0, 2, 2, 2, 5, 5]"
proof -
  have "even_split [0, 2, 5] 8 = [0, 0, 0, 2, 2, 2, 5, 5]" by code_simp
  with IS_alloc_hctx_even [of "[0, 2, 5]" 8 64] show ?thesis by simp
qed

end
