(* ===== verification/Portal.thy ===== *)
theory Portal
  imports Chunk_Map
begin

text \<open>
  The portal of a session: the string with the number of the servers and their addresses and ports
  that is written to configfs (\<open>portal_attr_store\<close>), kept in the session and taken apart by
  \<open>portal_parser\<close>. Strings are characters in an array, with the terminating NUL that the code scans for and
  the NULs that \<open>strsep\<close> writes into it.
\<close>

section \<open>C strings\<close>

abbreviation NUL :: char where "NUL \<equiv> CHR 0x00"

text \<open>The first position from \<open>p\<close> on with a given property: a scan that leaves the array is an error.\<close>

definition scan :: "(char \<Rightarrow> bool) \<Rightarrow> string \<Rightarrow> nat \<Rightarrow> nat res" where
  "scan P b p = (case find (\<lambda>k. P (b ! k)) [p..<length b] of None \<Rightarrow> Inl Out_Of_Bounds | Some k \<Rightarrow> Inr k)"

definition cstring :: "string \<Rightarrow> nat \<Rightarrow> string res" where
  "cstring b p = bind_res (scan (\<lambda>ch. ch = NUL) b p) (\<lambda>k. Inr (take (k - p) (drop p b)))"

text \<open>\<open>strsep\<close>: the token, the pointer behind it (None for NULL) and the array.\<close>

definition strsep :: "char \<Rightarrow> string \<Rightarrow> nat option \<Rightarrow> (nat option \<times> nat option \<times> string) res" where
  "strsep d b ptr =
     (case ptr of None \<Rightarrow> Inr (None, None, b)
      | Some p \<Rightarrow> bind_res (scan (\<lambda>ch. ch = d \<or> ch = NUL) b p) (\<lambda>k.
          Inr (if b ! k = d then (Some p, Some (k + 1), b[k := NUL]) else (Some p, None, b))))"

definition isspace :: "char \<Rightarrow> bool" where
  "isspace ch \<longleftrightarrow> (let n = of_char ch :: nat in 9 \<le> n \<and> n \<le> 13 \<or> n = 32 \<or> n = 160)"

text \<open>\<open>sscanf\<close> of the kernel with the format \<open>%d\<close>; \<open>x\<close> is the variable before. The number is truncated to an int.\<close>

definition sscanf_d :: "string \<Rightarrow> int \<Rightarrow> int" where
  "sscanf_d s x =
     (let t = dropWhile isspace s; neg = (t \<noteq> [] \<and> hd t = CHR ''-''); ds = (if neg then tl t else t);
          n = int (digits_value (takeWhile is_digit ds))
      in if ds = [] \<or> \<not> is_digit (hd ds) then x else sint (word_of_int (if neg then - n else n) :: 32 word))"

text \<open>
  The format \<open>%s\<close> with an array of \<open>cap\<close> characters as its target: None when the input is empty and nothing
  is stored.
\<close>

definition sscanf_s :: "nat \<Rightarrow> string \<Rightarrow> string option res" where
  "sscanf_s cap s =
     (if s = [] then Inr None
      else let t = takeWhile (\<lambda>ch. \<not> isspace ch) (dropWhile isspace s)
           in if cap \<le> length t then Inl Out_Of_Bounds else Inr (Some t))"

section \<open>The parser\<close>

definition MAX_PORTAL_NAME :: nat where "MAX_PORTAL_NAME = 1024"

record IS_portal =
  portal_port :: u16
  portal_addr :: string

text \<open>
  The loop of \<open>portal_parser\<close> over the announced number of portals. The scan for the colon does not stop at the end
  of the token; \<open>alloc_ok\<close> is the result of the allocation of \<open>portal_list\<close>.
\<close>

fun parse_portals :: "bool \<Rightarrow> nat \<Rightarrow> string \<Rightarrow> nat option \<Rightarrow> IS_portal list \<Rightarrow> (IS_portal list \<times> string) res" where
  "parse_portals alloc_ok 0 b ptr ps = Inr (ps, b)"
| "parse_portals alloc_ok (Suc n) b ptr ps =
     bind_res (strsep (CHR '','') b ptr) (\<lambda>(single_portal, ptr, b).
       case single_portal of None \<Rightarrow> Inl Null_Deref
       | Some sp \<Rightarrow>
           bind_res (scan (\<lambda>ch. ch = CHR '':'') b sp) (\<lambda>k.
             let j = k - sp
             in if \<not> alloc_ok then Inl Null_Deref
                else if 16 \<le> j then Inl Out_Of_Bounds
                else bind_res (cstring b (k + 1)) (\<lambda>num.
                       parse_portals alloc_ok n b ptr
                         (ps @ [\<lparr>portal_port = word_of_int (sscanf_d num 0),
                                 portal_addr = take j (drop sp b) @ replicate (16 - j) NUL\<rparr>]))))"

definition portal_parser :: "bool \<Rightarrow> string \<Rightarrow> (int \<times> IS_portal list \<times> string) res" where
  "portal_parser alloc_ok b =
     bind_res (strsep (CHR '','') b (Some 7)) (\<lambda>(_, ptr, b).
     bind_res (cstring b 7) (\<lambda>num.
       let p_count = sscanf_d num 0
       in bind_res (parse_portals alloc_ok (nat p_count) b ptr []) (\<lambda>(ps, b). Inr (p_count, ps, b))))"

text \<open>
  The start of \<open>IS_session_create\<close>: the portal is copied over what the array of the session holds, without its
  terminator, and parsed.
\<close>

definition copy_portal :: "string \<Rightarrow> string \<Rightarrow> string res" where
  "copy_portal b s = (if MAX_PORTAL_NAME < length s then Inl Out_Of_Bounds else Inr (s @ drop (length s) b))"

definition create_from_portal ::
  "bool \<Rightarrow> bool \<Rightarrow> (nat \<Rightarrow> bool) \<Rightarrow> nat \<Rightarrow> string \<Rightarrow> string \<Rightarrow> (string \<times> IS_session option) res" where
  "create_from_portal le alloc_ok conn_ok submit_queues b s =
     bind_res (copy_portal b s) (\<lambda>b.
     bind_res (portal_parser alloc_ok b) (\<lambda>(n, ps, b).
       Inr (b, map_option (\<lambda>s. s\<lparr>cb_num := n\<rparr>) (IS_session_create le conn_ok submit_queues (map portal_port ps)))))"

text \<open>The name that \<open>portal_attr_store\<close> makes of what was written: \<open>strcat\<close>, then \<open>sscanf\<close> in place.\<close>

definition rdma_name :: "string \<Rightarrow> string res" where
  "rdma_name input =
     (if MAX_PORTAL_NAME \<le> length (''rdma://'' @ input) then Inl Out_Of_Bounds
      else Inr (takeWhile (\<lambda>ch. \<not> isspace ch) (''rdma://'' @ input)))"

text \<open>\<open>IS_session_find_by_portal\<close> compares with what the arrays of the sessions hold.\<close>

fun IS_session_find_by_portal :: "(nat \<times> string) list \<Rightarrow> string \<Rightarrow> nat option res" where
  "IS_session_find_by_portal [] s = Inr None"
| "IS_session_find_by_portal ((sid, b) # l) s =
     bind_res (cstring b 0) (\<lambda>t. if t = s then Inr (Some sid) else IS_session_find_by_portal l s)"

section \<open>Strings in place\<close>

lemma scan_hit:
  assumes "\<forall>ch \<in> set t. \<not> P ch" "P x" "p = length pre"
  shows "scan P (pre @ t @ x # r) p = Inr (p + length t)"
proof -
  have "(pre @ t @ x # r) ! k = t ! (k - p)" if "p \<le> k" "k < p + length t" for k
    using that assms(3) by (auto simp: nth_append)
  then have "find (\<lambda>k. P ((pre @ t @ x # r) ! k)) [p..<length (pre @ t @ x # r)] = Some (p + length t)"
    using assms unfolding find_Some_iff by (intro exI [of _ "length t"]) (auto simp: nth_append)
  then show ?thesis by (simp only: scan_def option.case)
qed

lemma cstring_at: "NUL \<notin> set t \<Longrightarrow> p = length pre \<Longrightarrow> cstring (pre @ t @ NUL # r) p = Inr t"
  by (subst cstring_def, subst scan_hit) auto

lemma strsep_token:
  assumes "d \<notin> set t" "NUL \<notin> set t" "p = length pre"
  shows "d \<noteq> NUL \<Longrightarrow> strsep d (pre @ t @ d # r) (Some p) = Inr (Some p, Some (p + length t + 1), pre @ t @ NUL # r)"
    "d \<noteq> NUL \<Longrightarrow> strsep d (pre @ t @ NUL # r) (Some p) = Inr (Some p, None, pre @ t @ NUL # r)"
proof -
  have h: "\<forall>ch \<in> set t. \<not> (ch = d \<or> ch = NUL)" using assms(1,2) by auto
  show "d \<noteq> NUL \<Longrightarrow> strsep d (pre @ t @ d # r) (Some p) = Inr (Some p, Some (p + length t + 1), pre @ t @ NUL # r)"
    using scan_hit [OF h _ assms(3), of d r] assms(3) by (simp add: strsep_def nth_append list_update_append)
  show "d \<noteq> NUL \<Longrightarrow> strsep d (pre @ t @ NUL # r) (Some p) = Inr (Some p, None, pre @ t @ NUL # r)"
    using scan_hit [OF h _ assms(3), of NUL r] assms(3) by (simp add: strsep_def nth_append)
qed

lemma sscanf_d_show_nat: "n < 2 ^ 31 \<Longrightarrow> sscanf_d (show_nat n) x = int n"
proof -
  assume n: "n < 2 ^ 31"
  obtain ch l where s: "show_nat n = ch # l" "is_digit ch" using show_nat_Cons by blast
  have "\<forall>x \<in> set l. is_digit x" using show_nat_chars [of n] s(1) by (simp add: list_all_iff)
  moreover have "\<not> isspace ch" "ch \<noteq> CHR ''-''" using s(2) by (auto simp: is_digit_def isspace_def Let_def)
  moreover have "sint (word_of_int (int n) :: 32 word) = int n"
    by (subst sint_sbintrunc') (use n in \<open>simp add: signed_take_bit_int_eq_self\<close>)
  ultimately show ?thesis using s digits_value_show_nat [of n] by (simp add: sscanf_d_def Let_def takeWhile_eq_all_conv [THEN iffD2])
qed

section \<open>Printing portals\<close>

type_synonym server_addr = "string \<times> nat"

definition portal_text :: "server_addr \<Rightarrow> string" where
  "portal_text x = fst x @ CHR '':'' # show_nat (snd x)"

fun join_portals :: "server_addr list \<Rightarrow> string" where
  "join_portals [] = []"
| "join_portals [x] = portal_text x"
| "join_portals (x # y # l) = portal_text x @ CHR '','' # join_portals (y # l)"

definition show_portal :: "nat \<Rightarrow> server_addr list \<Rightarrow> string" where
  "show_portal n l = show_nat n @ (if l = [] then [] else CHR '','' # join_portals l)"

definition server_ok :: "server_addr \<Rightarrow> bool" where
  "server_ok x \<longleftrightarrow> length (fst x) < 16 \<and> snd x < 2 ^ 16 \<and> (\<forall>ch \<in> set (fst x). ch \<notin> {CHR '','', CHR '':'', NUL} \<and> \<not> isspace ch)"

definition portal_of :: "server_addr \<Rightarrow> IS_portal" where
  "portal_of x = \<lparr>portal_port = of_nat (snd x), portal_addr = fst x @ replicate (16 - length (fst x)) NUL\<rparr>"

text \<open>A string in an array of the session, which was cleared before.\<close>

definition in_array :: "string \<Rightarrow> string" where
  "in_array s = s @ replicate (MAX_PORTAL_NAME - length s) NUL"

lemma digit_chars:
  "ch \<in> set (show_nat n) \<Longrightarrow> ch \<noteq> CHR '','' \<and> ch \<noteq> CHR '':'' \<and> ch \<noteq> NUL \<and> \<not> isspace ch"
  using show_nat_chars [of n] by (auto simp: list_all_iff is_digit_def isspace_def Let_def)

lemma portal_text_chars: "server_ok x \<Longrightarrow> CHR '','' \<notin> set (portal_text x)" "server_ok x \<Longrightarrow> NUL \<notin> set (portal_text x)"
  using digit_chars by (auto simp: portal_text_def server_ok_def)

text \<open>One portal, followed by the NUL that \<open>strsep\<close> found or wrote.\<close>

lemma parse_one:
  assumes ok: "server_ok x" and p: "p = length pre"
  shows "scan (\<lambda>ch. ch = CHR '':'') (pre @ portal_text x @ NUL # r) p = Inr (p + length (fst x))"
    "cstring (pre @ portal_text x @ NUL # r) (p + length (fst x) + 1) = Inr (show_nat (snd x))"
    "take (length (fst x)) (drop p (pre @ portal_text x @ NUL # r)) = fst x"
proof -
  have "\<forall>ch \<in> set (fst x). ch \<noteq> CHR '':''" using ok by (auto simp: server_ok_def)
  then show "scan (\<lambda>ch. ch = CHR '':'') (pre @ portal_text x @ NUL # r) p = Inr (p + length (fst x))"
    using scan_hit [of "fst x" "\<lambda>ch. ch = CHR '':''" "CHR '':''" p pre "show_nat (snd x) @ NUL # r"] p by (simp add: portal_text_def)
  have "NUL \<notin> set (show_nat (snd x))" using digit_chars by auto
  then show "cstring (pre @ portal_text x @ NUL # r) (p + length (fst x) + 1) = Inr (show_nat (snd x))"
    using cstring_at [of "show_nat (snd x)" "p + length (fst x) + 1" "pre @ fst x @ [CHR '':'']" r] p by (simp add: portal_text_def)
  show "take (length (fst x)) (drop p (pre @ portal_text x @ NUL # r)) = fst x" using p by (simp add: portal_text_def)
qed

lemma parse_step:
  assumes ok: "server_ok x" and p: "p = length pre" and sep: "strsep (CHR '','') b (Some p) = Inr (Some p, ptr, pre @ portal_text x @ NUL # r)"
  shows "parse_portals True (Suc n) b (Some p) ps = parse_portals True n (pre @ portal_text x @ NUL # r) ptr (ps @ [portal_of x])"
proof -
  have "snd x < 2 ^ 31" "length (fst x) < 16" using ok by (simp_all add: server_ok_def)
  moreover have "(word_of_int (int (snd x)) :: u16) = of_nat (snd x)" by simp
  ultimately show ?thesis using sep parse_one [OF ok p, of r] by (simp add: Let_def portal_of_def sscanf_d_show_nat)
qed

lemma parse_none: "0 < n \<Longrightarrow> parse_portals alloc_ok n b None ps = Inl Null_Deref"
  by (cases n) (simp_all add: strsep_def)

lemma parse_portals_text:
  assumes "\<forall>x \<in> set l. server_ok x" "l \<noteq> []" "p = length pre"
  shows "if n \<le> length l then \<exists>b. parse_portals True n (pre @ join_portals l @ NUL # r) (Some p) ps = Inr (ps @ map portal_of (take n l), pre @ b)
     else parse_portals True n (pre @ join_portals l @ NUL # r) (Some p) ps = Inl Null_Deref"
  using assms
proof (induction l arbitrary: n pre p ps rule: join_portals.induct)
  case (2 x)
  then have ok: "server_ok x" by simp
  have sep: "strsep (CHR '','') (pre @ portal_text x @ NUL # r) (Some p) = Inr (Some p, None, pre @ portal_text x @ NUL # r)"
    by (rule strsep_token(2)[OF portal_text_chars [OF ok] 2(3)]) simp
  have step: "parse_portals True (Suc m) (pre @ portal_text x @ NUL # r) (Some p) ps =
      parse_portals True m (pre @ portal_text x @ NUL # r) None (ps @ [portal_of x])" for m
    by (rule parse_step [OF ok 2(3) sep])
  show ?case using step parse_none by (cases n) auto
next
  case (3 x y l)
  then have ok: "server_ok x" by simp
  let ?b = "pre @ join_portals (x # y # l) @ NUL # r" and ?pre = "pre @ portal_text x @ [NUL]" and ?p = "p + length (portal_text x) + 1"
  have sep: "strsep (CHR '','') ?b (Some p) = Inr (Some p, Some ?p, pre @ portal_text x @ NUL # join_portals (y # l) @ NUL # r)"
    using strsep_token(1)[OF portal_text_chars [OF ok] 3(4), of "join_portals (y # l) @ NUL # r"] by simp
  show ?case
  proof (cases n)
    case 0
    then show ?thesis by simp
  next
    case (Suc m)
    have "parse_portals True n ?b (Some p) ps = parse_portals True m (?pre @ join_portals (y # l) @ NUL # r) (Some ?p) (ps @ [portal_of x])"
      unfolding Suc using parse_step [OF ok 3(4) sep, of m ps] by simp
    moreover have "?p = length ?pre" using 3(4) by simp
    ultimately show ?thesis using 3(1)[of ?p ?pre m "ps @ [portal_of x]"] 3(2) Suc by (auto split: if_splits)
  qed
qed simp

lemma show_portal_chars:
  assumes "\<forall>x \<in> set l. server_ok x"
  shows "\<forall>ch \<in> set (show_portal n l). \<not> isspace ch \<and> ch \<noteq> NUL"
proof -
  have sep: "\<not> isspace (CHR '','')" "\<not> isspace (CHR '':'')" by (simp_all add: isspace_def Let_def)
  have one: "\<forall>ch \<in> set (portal_text x). \<not> isspace ch \<and> ch \<noteq> NUL" if "server_ok x" for x
    using that digit_chars sep by (auto simp: portal_text_def server_ok_def)
  have "\<forall>ch \<in> set (join_portals l). \<not> isspace ch \<and> ch \<noteq> NUL"
    using assms by (induction l rule: join_portals.induct) (auto dest: one simp: sep)
  then show ?thesis using digit_chars sep by (auto simp: show_portal_def)
qed

lemma portal_parser_text:
  assumes ok: "\<forall>x \<in> set l. server_ok x" "l \<noteq> []" and n: "n < 2 ^ 31"
  shows "if n \<le> length l
     then \<exists>b. portal_parser True (''rdma://'' @ show_portal n l @ NUL # r) = Inr (int n, map portal_of (take n l), ''rdma://'' @ show_nat n @ NUL # b)
     else portal_parser True (''rdma://'' @ show_portal n l @ NUL # r) = Inl Null_Deref"
proof -
  let ?b = "''rdma://'' @ show_nat n @ NUL # join_portals l @ NUL # r" and ?pre = "''rdma://'' @ show_nat n @ [NUL]"
  have d: "CHR '','' \<notin> set (show_nat n)" "NUL \<notin> set (show_nat n)" using digit_chars by auto
  have seven: "7 = length ''rdma://''" by simp
  have sep: "strsep (CHR '','') (''rdma://'' @ show_portal n l @ NUL # r) (Some 7) = Inr (Some 7, Some (length ?pre), ?b)"
    using strsep_token(1)[OF d seven, of "join_portals l @ NUL # r"] ok(2) by (simp add: show_portal_def)
  have "cstring ?b 7 = Inr (show_nat n)" by (rule cstring_at [OF d(2) seven])
  then have "portal_parser True (''rdma://'' @ show_portal n l @ NUL # r) =
      bind_res (parse_portals True n (?pre @ join_portals l @ NUL # r) (Some (length ?pre)) []) (\<lambda>(ps, b). Inr (int n, ps, b))"
    using sep n by (simp add: portal_parser_def sscanf_d_show_nat Let_def)
  then show ?thesis using parse_portals_text [OF ok refl, of n ?pre r "[]"] by (auto split: if_splits)
qed

text \<open>The name is copied into the array of the session, whose rest is clear.\<close>

lemma name_of_text:
  assumes "\<forall>x \<in> set l. server_ok x" "length (''rdma://'' @ show_portal n l) + 1 < MAX_PORTAL_NAME"
  shows "rdma_name (show_portal n l @ [CHR 0x0A]) = Inr (''rdma://'' @ show_portal n l)"
    "copy_portal (in_array []) (''rdma://'' @ show_portal n l) =
       Inr (''rdma://'' @ show_portal n l @ NUL # replicate (MAX_PORTAL_NAME - length (''rdma://'' @ show_portal n l) - 1) NUL)"
proof -
  have "\<forall>ch \<in> set ''rdma://''. \<not> isspace ch" by (simp add: isspace_def)
  moreover have "isspace (CHR 0x0A)" by (simp add: isspace_def)
  ultimately have "takeWhile (\<lambda>ch. \<not> isspace ch) ((''rdma://'' @ show_portal n l) @ [CHR 0x0A]) = ''rdma://'' @ show_portal n l"
    using show_portal_chars [OF assms(1), of n] by (subst takeWhile_append2) auto
  then show "rdma_name (show_portal n l @ [CHR 0x0A]) = Inr (''rdma://'' @ show_portal n l)"
    using assms(2) by (simp add: rdma_name_def)
  have "replicate (MAX_PORTAL_NAME - length (''rdma://'' @ show_portal n l)) NUL =
      NUL # replicate (MAX_PORTAL_NAME - length (''rdma://'' @ show_portal n l) - 1) NUL"
    using assms(2) by (metis Suc_diff_1 add_lessD1 replicate_Suc zero_less_diff)
  then show "copy_portal (in_array []) (''rdma://'' @ show_portal n l) =
       Inr (''rdma://'' @ show_portal n l @ NUL # replicate (MAX_PORTAL_NAME - length (''rdma://'' @ show_portal n l) - 1) NUL)"
    using assms(2) by (simp add: copy_portal_def in_array_def)
qed

section \<open>Properties\<close>


definition two_servers :: "server_addr list" where
  "two_servers = [(''192.168.0.12'', 8000), (''192.168.0.11'', 9400)]"

lemma two_servers_text: "show_portal 2 two_servers = ''2,192.168.0.12:8000,192.168.0.11:9400''"
  by (simp add: two_servers_def show_portal_def portal_text_def show_nat.simps char_of_def bit_Suc_0_iff)

lemma two_servers_ok:
  "\<forall>x \<in> set two_servers. server_ok x" "two_servers \<noteq> []" "length (''rdma://'' @ show_portal 2 two_servers) + 1 < MAX_PORTAL_NAME"
  "(2 :: nat) < 2 ^ 31"
  by (simp_all add: two_servers_text MAX_PORTAL_NAME_def) (simp_all add: two_servers_def server_ok_def isspace_def)


text \<open>
  C29: a portal in use is not recognised. The parser writes a NUL over every comma of the array that
  \<open>IS_session_find_by_portal\<close> compares with, so that after a session was created from a portal the same portal
  is not found, and a second session is created from it.
\<close>

theorem used_portal_not_found:
  assumes "\<forall>x \<in> set l. server_ok x" "l \<noteq> []" "length (''rdma://'' @ show_portal n l) + 1 < MAX_PORTAL_NAME" "n < 2 ^ 31"
    and "n \<le> length l" "rdma_name (show_portal n l @ [CHR 0x0A]) = Inr name"
    and "create_from_portal le True conn_ok q (in_array []) name = Inr (b, s)"
  shows "IS_session_find_by_portal [(sid, b)] name = Inr None"
proof -
  let ?name = "''rdma://'' @ show_portal n l"
  have name: "name = ?name" using name_of_text(1)[OF assms(1,3)] assms(6) by simp
  obtain b' where "b = ''rdma://'' @ show_nat n @ NUL # b'"
    using name_of_text(2)[OF assms(1,3)] assms(5,7) name
      portal_parser_text [OF assms(1,2,4), of "replicate (MAX_PORTAL_NAME - length ?name - 1) NUL"]
    by (auto simp: create_from_portal_def)
  moreover have "NUL \<notin> set (''rdma://'' @ show_nat n)" using digit_chars by auto
  ultimately have "cstring b 0 = Inr (''rdma://'' @ show_nat n)" using cstring_at [of "''rdma://'' @ show_nat n" 0 "[]" b'] by simp
  moreover have "''rdma://'' @ show_nat n \<noteq> name" using assms(2) by (simp add: name show_portal_def)
  ultimately show ?thesis by simp
qed

theorem used_portal_not_found_witness:
  "\<exists>name b s. rdma_name (''2,192.168.0.12:8000,192.168.0.11:9400'' @ [CHR 0x0A]) = Inr name \<and>
     create_from_portal True True (\<lambda>_. True) 1 (in_array []) name = Inr (b, Some s) \<and> IS_session_find_by_portal [(0, b)] name = Inr None"
proof -
  let ?name = "''rdma://'' @ show_portal 2 two_servers"
  have name: "rdma_name (show_portal 2 two_servers @ [CHR 0x0A]) = Inr ?name" by (rule name_of_text(1)[OF two_servers_ok(1,3)])
  have n: "2 \<le> length two_servers" by (simp add: two_servers_def)
  obtain b s where run: "create_from_portal True True (\<lambda>_. True) 1 (in_array []) ?name = Inr (b, Some s)"
    using name_of_text(2)[OF two_servers_ok(1,3)] n
      portal_parser_text [OF two_servers_ok(1,2,4), of "replicate (MAX_PORTAL_NAME - length ?name - 1) NUL"]
    by (auto simp: create_from_portal_def IS_session_create_def Let_def)
  from used_portal_not_found [OF two_servers_ok(1-4) n name run, of 0] name run show ?thesis by (auto simp: two_servers_text)
qed

end
