(* ===== verification/Device.thy ===== *)
theory Device
  imports Portal Conn_Setup
begin

text \<open>
  The life of a block device: creation and destruction (\<open>is_main.c\<close>) and its registration with the
  block layer together with the backup disk (\<open>is_mq.c\<close>, kernels from 3.16 on). The objects of the block
  layer are kept as pointers with their status; whether the kernel grants them is the record
  \<open>kern\<close>. Deleting a disk that was never added is a bad free, like freeing twice.
\<close>

section \<open>Data\<close>

definition MAX_IS_DEV_NAME :: nat where "MAX_IS_DEV_NAME = 256"
definition DISK_NAME_LEN :: nat where "DISK_NAME_LEN = 32"
definition IS_SECT_SIZE :: nat where "IS_SECT_SIZE = 512"
definition KERNEL_SECTOR_SIZE :: int where "KERNEL_SECTOR_SIZE = 512"

text \<open>A hardware queue: its depth, the number of its connection, the index of its device.\<close>

record IS_queue =
  q_depth :: nat
  q_conn :: "nat option"
  q_xdev :: "int option"

text \<open>
  \<open>struct IS_file\<close>. \<open>f_conns\<close> is what lies behind the pointer \<open>IS_conns\<close>: a number of connections, or the error of
  following a pointer that is NULL or was freed; of the disk its name, capacity and whether it was added are kept.
\<close>

record IS_file =
  f_major :: int
  st_size :: u64
  file_name :: string
  f_disk :: ptr_state
  disk_added :: bool
  disk_name :: string
  disk_sectors :: u64
  f_queue :: ptr_state
  tag_set :: ptr_state
  queues_ptr :: ptr_state
  queues :: "IS_queue list"
  queue_depth :: nat
  nr_queues :: nat
  f_index :: int
  dev_name :: string
  f_conns :: "nat res"
  dev_state :: IS_dev_state

definition zero_file :: IS_file where
  "zero_file = \<lparr>f_major = 0, st_size = 0, file_name = [], f_disk = Null, disk_added = False, disk_name = [], disk_sectors = 0,
     f_queue = Null, tag_set = Null, queues_ptr = Null, queues = [], queue_depth = 0, nr_queues = 0, f_index = 0,
     dev_name = [], f_conns = Inl Null_Deref, dev_state = DEVICE_INITIALIZING\<rparr>"

text \<open>\<open>struct stackbd_t\<close>, with the variable \<open>major_num\<close> and the major numbers that are registered for it.\<close>

record stackbd_t =
  sb_capacity :: u64
  gd :: ptr_state
  gd_added :: bool
  sb_thread :: ptr_state
  sb_active :: bool
  sb_bdev :: ptr_state
  sb_queue :: ptr_state
  major_num :: int
  majors :: "int list"

definition zero_stackbd :: stackbd_t where
  "zero_stackbd = \<lparr>sb_capacity = 0, gd = Null, gd_added = False, sb_thread = Null, sb_active = False, sb_bdev = Null,
     sb_queue = Null, major_num = 0, majors = []\<rparr>"

text \<open>The answers of the kernel; \<open>register m\<close> is the result of \<open>register_blkdev\<close> for the major number \<open>m\<close>.\<close>

record kern =
  queues_ok :: bool
  tag_set_ret :: int
  mq_init_ret :: int
  disk_ok :: bool
  sb_queue_ok :: bool
  register :: "int \<Rightarrow> int"
  gd_ok :: bool
  lookup_ok :: bool
  bdget_ok :: bool
  blkdev_get_ok :: bool
  bdev_capacity :: u64
  kthread_ok :: bool

section \<open>State of a device\<close>

definition IS_set_device_state :: "IS_dev_state \<Rightarrow> IS_file \<Rightarrow> int \<times> IS_file" where
  "IS_set_device_state st f =
     (case st of
        DEVICE_OPENNING \<Rightarrow>
          if dev_state f = DEVICE_OFFLINE \<or> dev_state f = DEVICE_RUNNING then (-22, f) else (0, f\<lparr>dev_state := st\<rparr>)
      | DEVICE_RUNNING \<Rightarrow> (0, f\<lparr>dev_state := st\<rparr>)
      | DEVICE_OFFLINE \<Rightarrow> (0, f\<lparr>dev_state := st\<rparr>)
      | _ \<Rightarrow> (-22, f))"

lemma set_state_simps [simp]:
  "IS_set_device_state DEVICE_RUNNING f = (0, f\<lparr>dev_state := DEVICE_RUNNING\<rparr>)"
  "IS_set_device_state DEVICE_OFFLINE f = (0, f\<lparr>dev_state := DEVICE_OFFLINE\<rparr>)"
  by (simp_all add: IS_set_device_state_def)

definition IS_device_state_str :: "IS_file \<Rightarrow> string" where
  "IS_device_state_str f =
     (case dev_state f of DEVICE_INITIALIZING \<Rightarrow> ''Initial state'' | DEVICE_OPENNING \<Rightarrow> ''openning''
      | DEVICE_RUNNING \<Rightarrow> ''running'' | DEVICE_OFFLINE \<Rightarrow> ''offline'')"

fun IS_file_find :: "(nat \<times> IS_file) list \<Rightarrow> string \<Rightarrow> nat option" where
  "IS_file_find [] name = None"
| "IS_file_find ((d, f) # l) name = (if file_name f = name then Some d else IS_file_find l name)"

section \<open>Queues\<close>

definition zero_queue :: IS_queue where
  "zero_queue = \<lparr>q_depth = 0, q_conn = None, q_xdev = None\<rparr>"

definition IS_setup_queues :: "kern \<Rightarrow> nat \<Rightarrow> IS_file \<Rightarrow> int \<times> IS_file" where
  "IS_setup_queues k submit_queues f =
     (if queues_ok k then (0, f\<lparr>queues_ptr := Live, queues := replicate submit_queues zero_queue\<rparr>)
      else (-12, f\<lparr>queues_ptr := Null, queues := []\<rparr>))"

text \<open>\<open>kfree\<close>, which accepts NULL.\<close>

definition kfree :: "ptr_state \<Rightarrow> ptr_state res" where
  "kfree p = (case p of Null \<Rightarrow> Inr Null | Live \<Rightarrow> Inr Freed | _ \<Rightarrow> Inl Bad_Free)"

definition IS_destroy_queues :: "IS_file \<Rightarrow> IS_file res" where
  "IS_destroy_queues f = bind_res (kfree (queues_ptr f)) (\<lambda>p. Inr (f\<lparr>queues_ptr := p\<rparr>))"

text \<open>Called by the block layer for every hardware queue while the request queue is set up.\<close>

definition IS_init_hctx :: "nat \<Rightarrow> IS_file \<Rightarrow> IS_file res" where
  "IS_init_hctx i f =
     deref (queues_ptr f) (
       bind_res (f_conns f) (\<lambda>n.
         if n \<le> i then Inl Out_Of_Bounds
         else bind_res (arr_set (queues f) (int i) \<lparr>q_depth = queue_depth f, q_conn = Some i, q_xdev = Some (f_index f)\<rparr>)
                (\<lambda>qs. Inr (f\<lparr>queues := qs\<rparr>))))"

section \<open>The backup disk\<close>

definition stackbd_bdev_open :: "kern \<Rightarrow> ptr_state" where
  "stackbd_bdev_open k = (if \<not> lookup_ok k then Null else if \<not> bdget_ok k then Null else if \<not> blkdev_get_ok k then Null else Live)"

definition stackbd_start :: "kern \<Rightarrow> stackbd_t \<Rightarrow> (int \<times> stackbd_t) res" where
  "stackbd_start k sb =
     (let sb = sb\<lparr>sb_bdev := stackbd_bdev_open k\<rparr>
      in if sb_bdev sb = Null then Inr (-14, sb)
         else let sb = sb\<lparr>sb_capacity := bdev_capacity k\<rparr>
              in deref (gd sb) (deref (sb_queue sb) (
                   let sb = sb\<lparr>sb_thread := if kthread_ok k then Live else Err_Ptr\<rparr>
                   in if \<not> kthread_ok k then Inr (-14, sb\<lparr>sb_bdev := Freed\<rparr>)
                      else Inr (0, sb\<lparr>sb_active := True\<rparr>))))"

text \<open>A made-up geometry for a disk of the given capacity; the number of cylinders has 16 bits.\<close>

record hd_geometry =
  cylinders :: u16
  heads :: u8
  sectors :: u8
  start :: u64

definition stackbd_getgeo :: "int \<Rightarrow> stackbd_t \<Rightarrow> hd_geometry" where
  "stackbd_getgeo LOGICAL_BLOCK_SIZE sb =
     (let size = sb_capacity sb * word_of_int (LOGICAL_BLOCK_SIZE div KERNEL_SECTOR_SIZE)
      in \<lparr>cylinders = ucast (drop_bit 6 (size AND NOT 0x3f)), heads = 4, sectors = 16, start = 0\<rparr>)"

section \<open>Registration\<close>

text \<open>\<open>register_blkdev\<close> registers the number asked for or, for 0, the number it returns.\<close>

definition register_major :: "kern \<Rightarrow> stackbd_t \<Rightarrow> stackbd_t" where
  "register_major k sb =
     (let r = register k (major_num sb); m = (if major_num sb = 0 then r else major_num sb)
      in sb\<lparr>major_num := r, majors := (if r < 0 then majors sb else m # majors sb)\<rparr>)"

definition unregister_major :: "stackbd_t \<Rightarrow> stackbd_t" where
  "unregister_major sb = sb\<lparr>majors := remove1 (major_num sb) (majors sb)\<rparr>"

definition cleanup_sb_queue :: "stackbd_t \<Rightarrow> stackbd_t res" where
  "cleanup_sb_queue sb = deref (sb_queue sb) (Inr (sb\<lparr>sb_queue := Freed\<rparr>))"

text \<open>
  The second half of \<open>IS_register_block_device\<close>. When there is no memory for the disk of the backup device the
  jump precedes the assignment of the error.
\<close>

definition register_backup :: "kern \<Rightarrow> IS_file \<Rightarrow> stackbd_t \<Rightarrow> (int \<times> IS_file \<times> stackbd_t) res" where
  "register_backup k f sb =
     (if \<not> sb_queue_ok k then Inr (-14, f, sb\<lparr>sb_queue := Null\<rparr>)
      else let sb = register_major k (sb\<lparr>sb_queue := Live\<rparr>)
           in if major_num sb < 0 then bind_res (cleanup_sb_queue sb) (\<lambda>sb. Inr (-14, f, sb))
              else if \<not> gd_ok k
              then bind_res (cleanup_sb_queue (unregister_major (sb\<lparr>gd := Null\<rparr>))) (\<lambda>sb. Inr (0, f, sb))
              else bind_res (stackbd_start k (sb\<lparr>gd := Live, gd_added := True\<rparr>)) (\<lambda>(ret, sb).
                   deref (f_disk f) (Inr (if ret < 0 then -1 else 0, f\<lparr>disk_added := True\<rparr>, sb))))"

definition IS_register_block_device ::
  "kern \<Rightarrow> int \<Rightarrow> nat \<Rightarrow> IS_file \<Rightarrow> stackbd_t \<Rightarrow> (int \<times> IS_file \<times> stackbd_t) res" where
  "IS_register_block_device k IS_major submit_queues f sb =
     (let size = st_size f; f = f\<lparr>f_major := IS_major\<rparr>
      in if tag_set_ret k \<noteq> 0 then Inr (tag_set_ret k, f, sb)
         else let f = f\<lparr>tag_set := Live\<rparr>
              in if mq_init_ret k \<noteq> 0 then Inr (mq_init_ret k, f\<lparr>f_queue := Err_Ptr, tag_set := Freed\<rparr>, sb)
                 else bind_res (for_res IS_init_hctx [0..<submit_queues] f) (\<lambda>f.
                   let f = f\<lparr>f_queue := Live\<rparr>
                   in if \<not> disk_ok k then Inr (-12, f\<lparr>f_disk := Null, f_queue := Freed, tag_set := Freed\<rparr>, sb)
                      else bind_res (sscanf_s DISK_NAME_LEN (dev_name f)) (\<lambda>nm.
                             register_backup k
                               (f\<lparr>f_disk := Live, disk_added := False, disk_sectors := size div of_nat IS_SECT_SIZE,
                                  disk_name := (case nm of None \<Rightarrow> [] | Some s \<Rightarrow> s)\<rparr>) sb)))"

definition del_gendisk :: "ptr_state \<Rightarrow> bool \<Rightarrow> 'a res \<Rightarrow> 'a res" where
  "del_gendisk p added r = deref p (if added then r else Inl Bad_Free)"

text \<open>\<open>is_active\<close> and the pointers of the backup device keep their values.\<close>

definition unregister_backup :: "stackbd_t \<Rightarrow> stackbd_t res" where
  "unregister_backup sb =
     bind_res (if sb_active sb
               then deref (sb_thread sb) (deref (sb_bdev sb) (Inr (sb\<lparr>sb_thread := Freed, sb_bdev := Freed\<rparr>)))
               else Inr sb) (\<lambda>sb.
       del_gendisk (gd sb) (gd_added sb) (cleanup_sb_queue (unregister_major (sb\<lparr>gd := Freed, gd_added := False\<rparr>))))"

definition IS_unregister_block_device :: "IS_file \<Rightarrow> stackbd_t \<Rightarrow> (IS_file \<times> stackbd_t) res" where
  "IS_unregister_block_device f sb =
     del_gendisk (f_disk f) (disk_added f) (
     deref (f_queue f) (
       if tag_set f \<noteq> Live then Inl Bad_Free
       else bind_res (unregister_backup sb) (\<lambda>sb.
              Inr (f\<lparr>f_disk := Freed, disk_added := False, f_queue := Freed, tag_set := Freed\<rparr>, sb))))"

section \<open>Creation and destruction\<close>

text \<open>
  \<open>cap\<close> and \<open>conns\<close> are the capacity and the connections of the session. The result: the return value, the
  counter \<open>IS_indexes\<close>, the device and the backup device. The trigger thread is woken when the return value is 0.
\<close>

definition IS_create_device ::
  "kern \<Rightarrow> int \<Rightarrow> nat \<Rightarrow> u64 \<Rightarrow> nat res \<Rightarrow> string \<Rightarrow> int \<Rightarrow> IS_file \<Rightarrow> stackbd_t \<Rightarrow> (int \<times> int \<times> IS_file \<times> stackbd_t) res" where
  "IS_create_device k IS_major submit_queues cap conns xdev_name IS_indexes f sb =
     bind_res (sscanf_s MAX_IS_DEV_NAME xdev_name) (\<lambda>nm.
       let f = f\<lparr>file_name := (case nm of None \<Rightarrow> file_name f | Some s \<Rightarrow> s), f_index := IS_indexes, nr_queues := submit_queues,
                 queue_depth := IS_QUEUE_DEPTH, f_conns := conns\<rparr>;
           (retval, f) = IS_setup_queues k submit_queues f
       in if retval \<noteq> 0 then Inr (retval, IS_indexes + 1, f, sb)
          else bind_res (IS_register_block_device k IS_major submit_queues (f\<lparr>st_size := cap\<rparr>) sb) (\<lambda>(retval, f, sb).
                 if retval \<noteq> 0 then bind_res (IS_destroy_queues f) (\<lambda>f. Inr (retval, IS_indexes + 1, f, sb))
                 else Inr (0, IS_indexes + 1, snd (IS_set_device_state DEVICE_RUNNING f), sb)))"

text \<open>The test is for the pointer, which keeps its value when the disk is released.\<close>

definition IS_destroy_device :: "IS_file \<Rightarrow> stackbd_t \<Rightarrow> (IS_file \<times> stackbd_t) res" where
  "IS_destroy_device f sb =
     (let f = snd (IS_set_device_state DEVICE_OFFLINE f)
      in if f_disk f = Null then Inr (f, sb)
         else bind_res (IS_unregister_block_device f sb) (\<lambda>(f, sb).
              bind_res (IS_destroy_queues f) (\<lambda>f. Inr (f, sb))))"

section \<open>Who holds what\<close>

definition name_ok :: "nat \<Rightarrow> string \<Rightarrow> bool" where
  "name_ok n s \<longleftrightarrow> s \<noteq> [] \<and> length s < n \<and> (\<forall>ch \<in> set s. \<not> isspace ch)"

lemma sscanf_s_name: "name_ok n s \<Longrightarrow> sscanf_s n s = Inr (Some s)"
proof -
  assume ok: "name_ok n s"
  then obtain ch l where s: "s = ch # l" "\<not> isspace ch" by (cases s) (auto simp: name_ok_def)
  then have "dropWhile isspace s = s" by simp
  then show ?thesis using ok by (simp add: sscanf_s_def name_ok_def Let_def takeWhile_eq_all_conv [THEN iffD2])
qed

text \<open>Nothing is held: no object is live and no disk is added.\<close>

definition released :: "IS_file \<Rightarrow> bool" where
  "released f \<longleftrightarrow> f_disk f \<noteq> Live \<and> \<not> disk_added f \<and> f_queue f \<noteq> Live \<and> tag_set f \<noteq> Live \<and> queues_ptr f \<noteq> Live"

definition sb_released :: "stackbd_t \<Rightarrow> bool" where
  "sb_released sb \<longleftrightarrow> gd sb \<noteq> Live \<and> \<not> gd_added sb \<and> sb_thread sb \<noteq> Live \<and> sb_bdev sb \<noteq> Live \<and> sb_queue sb \<noteq> Live \<and> majors sb = []"

text \<open>Everything is held, and every hardware queue has the connection of its number.\<close>

definition queues_bound :: "nat \<Rightarrow> IS_file \<Rightarrow> bool" where
  "queues_bound n f \<longleftrightarrow> queues f = map (\<lambda>i. \<lparr>q_depth = IS_QUEUE_DEPTH, q_conn = Some i, q_xdev = Some (f_index f)\<rparr>) [0..<n]"

definition held :: "nat \<Rightarrow> IS_file \<Rightarrow> bool" where
  "held n f \<longleftrightarrow> f_disk f = Live \<and> disk_added f \<and> f_queue f = Live \<and> tag_set f = Live \<and> queues_ptr f = Live \<and> queues_bound n f"

definition sb_held :: "stackbd_t \<Rightarrow> bool" where
  "sb_held sb \<longleftrightarrow> gd sb = Live \<and> gd_added sb \<and> sb_thread sb = Live \<and> sb_bdev sb = Live \<and> sb_queue sb = Live \<and> sb_active sb \<and>
     majors sb = [major_num sb]"

text \<open>The kernel grants the objects of the device itself; it grants those of the backup disk.\<close>

definition dev_granted :: "kern \<Rightarrow> bool" where
  "dev_granted k \<longleftrightarrow> queues_ok k \<and> tag_set_ret k = 0 \<and> mq_init_ret k = 0 \<and> disk_ok k"

definition bdev_granted :: "kern \<Rightarrow> bool" where
  "bdev_granted k \<longleftrightarrow> lookup_ok k \<and> bdget_ok k \<and> blkdev_get_ok k \<and> kthread_ok k"

definition sb_granted :: "kern \<Rightarrow> bool" where
  "sb_granted k \<longleftrightarrow> sb_queue_ok k \<and> gd_ok k \<and> bdev_granted k"

text \<open>The documented result of \<open>register_blkdev\<close>: a new number for 0, 0 for a free number.\<close>

definition register_doc :: "kern \<Rightarrow> bool" where
  "register_doc k \<longleftrightarrow> 0 < register k 0 \<and> (\<forall>m. m \<noteq> 0 \<longrightarrow> register k m = 0)"

section \<open>The queues\<close>

lemma init_hctx_all:
  assumes "queues_ptr f = Live" "f_conns f = Inr n" "length (queues f) = n" "queue_depth f = IS_QUEUE_DEPTH"
  shows "\<exists>qs. for_res IS_init_hctx [0..<n] f = Inr (f\<lparr>queues := qs\<rparr>) \<and> queues_bound n (f\<lparr>queues := qs\<rparr>)"
proof -
  let ?q = "\<lambda>i. \<lparr>q_depth = IS_QUEUE_DEPTH, q_conn = Some i, q_xdev = Some (f_index f)\<rparr>"
  let ?P = "\<lambda>j g. \<exists>qs. g = f\<lparr>queues := qs\<rparr> \<and> length qs = n \<and> (\<forall>i < j. qs ! i = ?q i)"
  have "\<exists>g. for_res IS_init_hctx [0..<n] f = Inr g \<and> ?P n g"
  proof (rule for_res_inv [where P = ?P])
    show "?P 0 f" using assms(3) by (intro exI [of _ "queues f"]) simp
    fix j g assume j: "j < n" "?P j g"
    then obtain qs where qs: "g = f\<lparr>queues := qs\<rparr>" "length qs = n" "\<forall>i < j. qs ! i = ?q i" by blast
    then have "IS_init_hctx j g = Inr (f\<lparr>queues := qs[j := ?q j]\<rparr>)" using assms j(1) by (simp add: IS_init_hctx_def deref_def)
    moreover have "?P (Suc j) (f\<lparr>queues := qs[j := ?q j]\<rparr>)"
      using qs j(1) by (intro exI [of _ "qs[j := ?q j]"]) (simp add: less_Suc_eq nth_list_update)
    ultimately show "\<exists>g'. IS_init_hctx j g = Inr g' \<and> ?P (Suc j) g'" by blast
  qed
  then obtain qs where qs: "for_res IS_init_hctx [0..<n] f = Inr (f\<lparr>queues := qs\<rparr>)" "length qs = n" "\<forall>i < n. qs ! i = ?q i" by blast
  then have "qs = map ?q [0..<n]" by (intro nth_equalityI) simp_all
  with qs(1) show ?thesis by (simp add: queues_bound_def)
qed

section \<open>Creation on every path\<close>

text \<open>What the device is when its own objects were granted and the backup disk is next.\<close>

definition prepared :: "int \<Rightarrow> nat \<Rightarrow> u64 \<Rightarrow> string \<Rightarrow> int \<Rightarrow> IS_file \<Rightarrow> IS_file \<Rightarrow> bool" where
  "prepared M n cap name idx f0 f \<longleftrightarrow> f_disk f = Live \<and> \<not> disk_added f \<and> f_queue f = Live \<and> tag_set f = Live \<and> queues_ptr f = Live \<and>
     queues_bound n f \<and> f_index f = idx \<and> file_name f = name \<and> dev_name f = dev_name f0 \<and> disk_name f = dev_name f0 \<and>
     disk_sectors f = cap div 512 \<and> f_major f = M \<and> dev_state f = dev_state f0"

lemma create_reaches_backup:
  assumes k: "dev_granted k" and nm: "name_ok MAX_IS_DEV_NAME name" "name_ok DISK_NAME_LEN (dev_name f)"
  shows "\<exists>g. prepared M n cap name idx f g \<and>
     IS_create_device k M n cap (Inr n) name idx f sb = bind_res (register_backup k g sb) (\<lambda>(retval, g, sb).
       if retval \<noteq> 0 then bind_res (IS_destroy_queues g) (\<lambda>g. Inr (retval, idx + 1, g, sb))
       else Inr (0, idx + 1, g\<lparr>dev_state := DEVICE_RUNNING\<rparr>, sb))"
proof -
  let ?f1 = "f\<lparr>file_name := name, f_index := idx, nr_queues := n, queue_depth := IS_QUEUE_DEPTH, f_conns := Inr n,
      queues_ptr := Live, queues := replicate n zero_queue, st_size := cap, f_major := M, tag_set := Live\<rparr>"
  obtain qs where qs: "for_res IS_init_hctx [0..<n] ?f1 = Inr (?f1\<lparr>queues := qs\<rparr>)" "queues_bound n (?f1\<lparr>queues := qs\<rparr>)"
    using init_hctx_all [of ?f1 n] by auto
  let ?g = "?f1\<lparr>queues := qs, f_queue := Live, f_disk := Live, disk_added := False, disk_sectors := cap div 512, disk_name := dev_name f\<rparr>"
  have "prepared M n cap name idx f ?g" using qs(2) by (simp add: prepared_def queues_bound_def)
  moreover have "IS_create_device k M n cap (Inr n) name idx f sb = bind_res (register_backup k ?g sb) (\<lambda>(retval, g, sb).
       if retval \<noteq> 0 then bind_res (IS_destroy_queues g) (\<lambda>g. Inr (retval, idx + 1, g, sb))
       else Inr (0, idx + 1, g\<lparr>dev_state := DEVICE_RUNNING\<rparr>, sb))"
    using k qs(1) nm by (simp add: IS_create_device_def IS_setup_queues_def IS_register_block_device_def sscanf_s_name dev_granted_def
        Let_def IS_SECT_SIZE_def cong: if_cong)
  ultimately show ?thesis by blast
qed

lemma create_denied:
  assumes "\<not> dev_granted k" "name_ok MAX_IS_DEV_NAME name" "released f" "f_disk f = Null"
  shows "\<exists>r g. IS_create_device k M n cap (Inr n) name idx f sb = Inr (r, idx + 1, g, sb) \<and> r \<noteq> 0 \<and> f_disk g = Null \<and> released g \<and>
     dev_state g = dev_state f \<and> file_name g = name \<and> dev_name g = dev_name f"
proof (cases "queues_ok k \<and> tag_set_ret k = 0 \<and> mq_init_ret k = 0")
  case False
  then consider "\<not> queues_ok k" | "queues_ok k" "tag_set_ret k \<noteq> 0" | "queues_ok k" "tag_set_ret k = 0" "mq_init_ret k \<noteq> 0" by auto
  then show ?thesis
    by cases (use assms(2-4) in \<open>simp_all add: IS_create_device_def IS_setup_queues_def IS_register_block_device_def IS_destroy_queues_def
        kfree_def sscanf_s_name released_def Let_def\<close>)
next
  case True
  let ?f1 = "f\<lparr>file_name := name, f_index := idx, nr_queues := n, queue_depth := IS_QUEUE_DEPTH, f_conns := Inr n,
      queues_ptr := Live, queues := replicate n zero_queue, st_size := cap, f_major := M, tag_set := Live\<rparr>"
  obtain qs where qs: "for_res IS_init_hctx [0..<n] ?f1 = Inr (?f1\<lparr>queues := qs\<rparr>)" using init_hctx_all [of ?f1 n] by auto
  have "\<not> disk_ok k" using True assms(1) by (simp add: dev_granted_def)
  with True assms(2-4) qs show ?thesis
    by (simp add: IS_create_device_def IS_setup_queues_def IS_register_block_device_def IS_destroy_queues_def kfree_def sscanf_s_name
        released_def Let_def)
qed

lemma register_backup_ok:
  assumes "sb_granted k" "register_doc k" "sb_released sb" "major_num sb = 0" "f_disk g = Live"
  shows "\<exists>sb'. register_backup k g sb = Inr (0, g\<lparr>disk_added := True\<rparr>, sb') \<and> sb_held sb'"
  using assms by (simp add: register_backup_def register_major_def stackbd_start_def stackbd_bdev_open_def sb_granted_def bdev_granted_def
      register_doc_def deref_def sb_held_def sb_released_def Let_def)

lemma destroy_held:
  assumes "held n f" "sb_held sb"
  shows "\<exists>f' sb'. IS_destroy_device f sb = Inr (f', sb') \<and> released f' \<and> sb_released sb' \<and> dev_state f' = DEVICE_OFFLINE \<and> major_num sb' = major_num sb"
  using assms by (simp add: IS_destroy_device_def IS_unregister_block_device_def del_gendisk_def unregister_backup_def cleanup_sb_queue_def
      unregister_major_def IS_destroy_queues_def kfree_def deref_def held_def sb_held_def released_def sb_released_def Let_def)

section \<open>Properties\<close>

text \<open>
  C19: nothing is leaked and nothing is freed twice over the life of a device, as long as the backup disk can be
  set up. Whatever the kernel grants of the objects of the device itself, the creation returns; it succeeds
  exactly when all of them are granted, and then the device is running, with every hardware queue bound to the
  connection of its number and the backup disk open; otherwise it returns an error and has
  released what it had taken, the backup disk being untouched. In both cases the later destruction returns and leaves
  neither the device nor the backup disk with a live object or a registered number.
\<close>

theorem device_lifecycle:
  assumes "f_disk f = Null" "released f" "sb_released sb" "major_num sb = 0" "dev_state f = DEVICE_OPENNING"
    and "name_ok MAX_IS_DEV_NAME name" "name_ok DISK_NAME_LEN (dev_name f)" "sb_granted k" "register_doc k"
  shows "\<exists>r f' sb' f'' sb''. IS_create_device k M n cap (Inr n) name idx f sb = Inr (r, idx + 1, f', sb') \<and>
     (if queues_ok k \<and> tag_set_ret k = 0 \<and> mq_init_ret k = 0 \<and> disk_ok k
      then r = 0 \<and> held n f' \<and> sb_held sb' \<and> dev_state f' = DEVICE_RUNNING \<and> disk_sectors f' = cap div 512
      else r \<noteq> 0 \<and> released f' \<and> sb' = sb \<and> dev_state f' = DEVICE_OPENNING) \<and>
     IS_destroy_device f' sb' = Inr (f'', sb'') \<and> released f'' \<and> sb_released sb'' \<and> dev_state f'' = DEVICE_OFFLINE"
proof (cases "dev_granted k")
  case True
  obtain g where g: "prepared M n cap name idx f g" and run: "IS_create_device k M n cap (Inr n) name idx f sb =
      bind_res (register_backup k g sb) (\<lambda>(retval, g, sb).
        if retval \<noteq> 0 then bind_res (IS_destroy_queues g) (\<lambda>g. Inr (retval, idx + 1, g, sb))
        else Inr (0, idx + 1, g\<lparr>dev_state := DEVICE_RUNNING\<rparr>, sb))"
    using create_reaches_backup [OF True assms(6,7)] by blast
  obtain sb' where sb': "register_backup k g sb = Inr (0, g\<lparr>disk_added := True\<rparr>, sb')" "sb_held sb'"
    using register_backup_ok [OF assms(8,9,3,4)] g by (auto simp: prepared_def)
  let ?f' = "g\<lparr>disk_added := True, dev_state := DEVICE_RUNNING\<rparr>"
  have held: "held n ?f'" "disk_sectors ?f' = cap div 512" using g by (simp_all add: prepared_def held_def queues_bound_def)
  obtain f'' sb'' where "IS_destroy_device ?f' sb' = Inr (f'', sb'')" "released f''" "sb_released sb''" "dev_state f'' = DEVICE_OFFLINE"
    using destroy_held [OF held(1) sb'(2)] by blast
  with True run sb' held show ?thesis
    by (intro exI [of _ 0] exI [of _ ?f'] exI [of _ sb'] exI [of _ f''] exI [of _ sb'']) (simp add: dev_granted_def)
next
  case False
  obtain r g where g: "IS_create_device k M n cap (Inr n) name idx f sb = Inr (r, idx + 1, g, sb)" "r \<noteq> 0" "f_disk g = Null" "released g"
    "dev_state g = dev_state f" using create_denied [OF False assms(6,2,1)] by blast
  then have "IS_destroy_device g sb = Inr (g\<lparr>dev_state := DEVICE_OFFLINE\<rparr>, sb)" "released (g\<lparr>dev_state := DEVICE_OFFLINE\<rparr>)"
    by (simp_all add: IS_destroy_device_def released_def)
  moreover have "\<not> (queues_ok k \<and> tag_set_ret k = 0 \<and> mq_init_ret k = 0 \<and> disk_ok k)" using False by (simp add: dev_granted_def)
  ultimately show ?thesis
    using g assms(3,5) by (intro exI [of _ r] exI [of _ g] exI [of _ sb] exI [of _ "g\<lparr>dev_state := DEVICE_OFFLINE\<rparr>"] exI [of _ sb])
      (simp only: if_False simp_thms, simp)
qed

definition kern_ex :: kern where
  "kern_ex = \<lparr>queues_ok = True, tag_set_ret = 0, mq_init_ret = 0, disk_ok = True, sb_queue_ok = True,
     register = (\<lambda>m. if m = 0 then 252 else 0), gd_ok = True, lookup_ok = True, bdget_ok = True, blkdev_get_ok = True,
     bdev_capacity = 25165824, kthread_ok = True\<rparr>"

definition file_ex :: IS_file where
  "file_ex = zero_file\<lparr>dev_name := ''infiniswap0'', dev_state := DEVICE_OPENNING\<rparr>"

lemma device_ex:
  "f_disk file_ex = Null" "released file_ex" "sb_released zero_stackbd" "major_num zero_stackbd = 0" "dev_state file_ex = DEVICE_OPENNING"
  "name_ok MAX_IS_DEV_NAME ''is_device''" "name_ok DISK_NAME_LEN (dev_name file_ex)" "sb_granted kern_ex" "register_doc kern_ex"
  by (simp_all add: file_ex_def zero_file_def released_def sb_released_def zero_stackbd_def name_ok_def MAX_IS_DEV_NAME_def
      DISK_NAME_LEN_def isspace_def sb_granted_def bdev_granted_def register_doc_def kern_ex_def)

theorem device_lifecycle_witness:
  "\<exists>f' sb' f'' sb''. IS_create_device kern_ex 251 8 12884901888 (Inr 8) ''is_device'' 0 file_ex zero_stackbd = Inr (0, 1, f', sb') \<and>
     held 8 f' \<and> disk_sectors f' = 25165824 \<and> IS_destroy_device f' sb' = Inr (f'', sb'') \<and> sb_released sb''"
  using device_lifecycle [OF device_ex, of 251 8 12884901888 0] by (auto simp: kern_ex_def split: if_splits)

text \<open>
  C26: a failure to set up the backup disk. Without a queue or a number for it the creation returns an error, keeps the
  disk, the request queue and the tags, and frees the hardware queues. Without memory for its disk the creation
  reports success for a device whose disk is never added. When it cannot be opened the creation returns an
  error but has added the disk of the device, whose hardware queues it then frees. In each case the later destruction
  of the device, as it follows when its directory is removed, is a bad free.
\<close>

theorem backup_disk_failure:
  assumes "name_ok MAX_IS_DEV_NAME name" "name_ok DISK_NAME_LEN (dev_name f)" "dev_granted k"
    and "major_num sb = 0" "\<not> sb_active sb" "register k 0 \<noteq> 0"
    and "\<not> (sb_queue_ok k \<and> 0 < register k 0 \<and> gd_ok k \<and> bdev_granted k)"
  shows "\<exists>r f' sb'. IS_create_device k M n cap (Inr n) name idx f sb = Inr (r, idx + 1, f', sb') \<and> IS_destroy_device f' sb' = Inl Bad_Free \<and>
     f_disk f' = Live \<and> f_queue f' = Live \<and> tag_set f' = Live \<and>
     (if \<not> sb_queue_ok k \<or> register k 0 < 0 then r = -14 \<and> \<not> disk_added f' \<and> queues_ptr f' = Freed
      else if \<not> gd_ok k then r = 0 \<and> dev_state f' = DEVICE_RUNNING \<and> \<not> disk_added f' \<and> queues_ptr f' = Live
      else r = -1 \<and> disk_added f' \<and> queues_ptr f' = Freed)"
proof -
  obtain g where g: "prepared M n cap name idx f g" and run: "IS_create_device k M n cap (Inr n) name idx f sb =
      bind_res (register_backup k g sb) (\<lambda>(retval, g, sb).
        if retval \<noteq> 0 then bind_res (IS_destroy_queues g) (\<lambda>g. Inr (retval, idx + 1, g, sb))
        else Inr (0, idx + 1, g\<lparr>dev_state := DEVICE_RUNNING\<rparr>, sb))"
    using create_reaches_backup [OF assms(3,1,2)] by blast
  have p: "f_disk g = Live" "f_queue g = Live" "tag_set g = Live" "queues_ptr g = Live" "\<not> disk_added g" using g by (simp_all add: prepared_def)
  note defs = register_backup_def register_major_def cleanup_sb_queue_def unregister_major_def IS_destroy_queues_def kfree_def deref_def
    IS_destroy_device_def IS_unregister_block_device_def del_gendisk_def unregister_backup_def stackbd_start_def stackbd_bdev_open_def Let_def
  consider "\<not> sb_queue_ok k \<or> register k 0 < 0" | "sb_queue_ok k" "0 < register k 0" "\<not> gd_ok k"
    | "sb_queue_ok k" "0 < register k 0" "gd_ok k" "\<not> bdev_granted k" using assms(6,7) by linarith
  then show ?thesis
  proof cases
    case 1
    then show ?thesis using run p assms(4) by (cases "sb_queue_ok k") (simp_all add: defs)
  next
    case 2
    then show ?thesis using run p assms(4) by (simp add: defs)
  next
    case 3
    then show ?thesis using run p assms(4,5) unfolding bdev_granted_def by (cases "lookup_ok k \<and> bdget_ok k \<and> blkdev_get_ok k") (auto simp: defs)
  qed
qed

theorem backup_disk_failure_witness:
  "\<exists>f' sb'. IS_create_device (kern_ex\<lparr>blkdev_get_ok := False\<rparr>) 251 8 12884901888 (Inr 8) ''is_device'' 0 file_ex zero_stackbd = Inr (-1, 1, f', sb') \<and>
     disk_added f' \<and> queues_ptr f' = Freed \<and> IS_destroy_device f' sb' = Inl Bad_Free"
proof -
  let ?k = "kern_ex\<lparr>blkdev_get_ok := False\<rparr>"
  have k: "dev_granted ?k" "\<not> sb_active zero_stackbd" "register ?k 0 \<noteq> 0"
    "\<not> (sb_queue_ok ?k \<and> 0 < register ?k 0 \<and> gd_ok ?k \<and> bdev_granted ?k)" "sb_queue_ok ?k" "0 < register ?k 0" "gd_ok ?k"
    by (simp_all add: dev_granted_def bdev_granted_def kern_ex_def zero_stackbd_def)
  from backup_disk_failure [OF device_ex(6,7) k(1) device_ex(4) k(2-4), of 251 8 12884901888 0] show ?thesis
    using k(5-7) by (auto split: if_splits)
qed

text \<open>
  A second device, after the first was destroyed: \<open>register_blkdev\<close> returns 0 for the number it is asked for, which
  \<open>major_num\<close> takes over; the destruction then does not find the number that is registered.
\<close>

lemma second_life_leaks_major:
  assumes "sb_released sb" "major_num sb = m" "m \<noteq> 0" "sb_granted k" "register_doc k" "dev_granted k"
    and "name_ok MAX_IS_DEV_NAME name" "name_ok DISK_NAME_LEN (dev_name f)"
  shows "\<exists>f' sb' f'' sb''. IS_create_device k M n cap (Inr n) name idx f sb = Inr (0, idx + 1, f', sb') \<and>
     IS_destroy_device f' sb' = Inr (f'', sb'') \<and> majors sb'' = [m]"
proof -
  obtain g where g: "prepared M n cap name idx f g" and run: "IS_create_device k M n cap (Inr n) name idx f sb =
      bind_res (register_backup k g sb) (\<lambda>(retval, g, sb).
        if retval \<noteq> 0 then bind_res (IS_destroy_queues g) (\<lambda>g. Inr (retval, idx + 1, g, sb))
        else Inr (0, idx + 1, g\<lparr>dev_state := DEVICE_RUNNING\<rparr>, sb))"
    using create_reaches_backup [OF assms(6-8)] by blast
  then show ?thesis
    using assms(1-5) by (simp add: prepared_def register_backup_def register_major_def stackbd_start_def stackbd_bdev_open_def sb_granted_def
      bdev_granted_def register_doc_def deref_def sb_released_def IS_destroy_device_def IS_unregister_block_device_def del_gendisk_def
      unregister_backup_def cleanup_sb_queue_def unregister_major_def IS_destroy_queues_def kfree_def Let_def)
qed

text \<open>The geometry of a backup disk of up to 2 GB covers it but for a rest; beyond, the cylinders wrap.\<close>

lemma getgeo_cylinders:
  assumes "LOGICAL_BLOCK_SIZE = 512"
  shows "unat (cylinders (stackbd_getgeo LOGICAL_BLOCK_SIZE sb)) = unat (sb_capacity sb) div 64 mod 2 ^ 16"
proof -
  have m: "NOT 0x3f = (NOT (mask 6) :: u64)" by (simp add: mask_eq_exp_minus_1)
  have "drop_bit 6 (sb_capacity sb AND NOT 0x3f) = drop_bit 6 (sb_capacity sb)"
    unfolding m by (rule bit_eqI, simp only: bit_drop_bit_eq bit_and_iff bit_not_iff bit_mask_iff o_def, auto dest: bit_imp_le_length)
  then show ?thesis
    using assms by (simp add: stackbd_getgeo_def KERNEL_SECTOR_SIZE_def Let_def unsigned_ucast_eq unsigned_drop_bit_eq drop_bit_eq_div take_bit_eq_mod unat_div)
qed

end
