(* ===== verification/Configfs.thy ===== *)
theory Configfs
  imports Device "HOL-Library.AList"
begin

text \<open>
  The administration of the block device: the operations that configfs calls when a directory is made or
  removed or an attribute is written or read (\<open>is_configfs.c\<close>), the lists of sessions and devices behind them
  and the start and the end of the module (\<open>is_main.c\<close>). Directories are named by numbers. What the kernel
  grants is an argument of each operation.
\<close>

section \<open>Data\<close>

text \<open>
  The part of \<open>struct IS_session\<close> that the administration uses: the array with the portal, the tables of
  the last creation, the capacity, what lies behind the pointer to the connections, the trigger thread and
  the device of the session, and the list of devices, newest first.
\<close>

record cfg_session =
  s_portal :: string
  s_tables :: "IS_session option"
  s_cap :: u64
  s_conns :: "nat res"
  s_trigger :: ptr_state
  s_xdev :: "nat option"
  s_devs :: "(nat \<times> IS_file) list"

definition zero_cfg_session :: cfg_session where
  "zero_cfg_session = \<lparr>s_portal = in_array [], s_tables = None, s_cap = 0, s_conns = Inl Null_Deref, s_trigger = Null, s_xdev = None, s_devs = []\<rparr>"

text \<open>
  The variables of the module. \<open>woken\<close> are the sessions whose trigger thread was woken; the thread has no end.
  \<open>next_id\<close> numbers the directories.
\<close>

record cfg =
  subsys :: bool
  IS_major :: int
  major_held :: bool
  submit_queues :: nat
  g_IS_sessions :: "(nat \<times> cfg_session) list"
  created_portals :: int
  IS_indexes :: int
  stackbd :: stackbd_t
  woken :: "nat list"
  next_id :: nat

text \<open>What configfs gets back: a new directory or none, a number, or the text of an attribute.\<close>

datatype reply = Group nat | No_Group | Ret int | Text string

abbreviation put_session :: "nat \<Rightarrow> cfg_session \<Rightarrow> cfg \<Rightarrow> cfg" where
  "put_session sid s c \<equiv> c\<lparr>g_IS_sessions := AList.update sid s (g_IS_sessions c)\<rparr>"

text \<open>The object behind a directory; configfs calls the operations of a directory only while it is there.\<close>

definition with_session :: "cfg \<Rightarrow> nat \<Rightarrow> (cfg_session \<Rightarrow> 'a res) \<Rightarrow> 'a res" where
  "with_session c sid k = (case map_of (g_IS_sessions c) sid of None \<Rightarrow> Inl Use_After_Free | Some s \<Rightarrow> k s)"

definition with_device :: "cfg_session \<Rightarrow> nat \<Rightarrow> (IS_file \<Rightarrow> 'a res) \<Rightarrow> 'a res" where
  "with_device s did k = (case map_of (s_devs s) did of None \<Rightarrow> Inl Use_After_Free | Some f \<Rightarrow> k f)"

section \<open>Sessions\<close>

definition IS_session_make_group :: "bool \<Rightarrow> cfg \<Rightarrow> (reply \<times> cfg) res" where
  "IS_session_make_group alloc_ok c =
     Inr (if \<not> alloc_ok then (No_Group, c)
          else (Group (next_id c),
                c\<lparr>g_IS_sessions := (next_id c, zero_cfg_session) # g_IS_sessions c, created_portals := created_portals c + 1,
                  next_id := next_id c + 1\<rparr>))"

text \<open>
  When \<open>IS_session_create\<close> fails it frees the array of connections and leaves the pointer to it in the session.
\<close>

definition portal_attr_store :: "bool \<Rightarrow> bool \<Rightarrow> (nat \<Rightarrow> bool) \<Rightarrow> nat \<Rightarrow> string \<Rightarrow> cfg \<Rightarrow> (reply \<times> cfg) res" where
  "portal_attr_store le alloc_ok conn_ok sid page c =
     bind_res (rdma_name page) (\<lambda>rdma.
     bind_res (IS_session_find_by_portal (map (\<lambda>(i, s). (i, s_portal s)) (g_IS_sessions c)) rdma) (\<lambda>found.
       if found \<noteq> None then Inr (Ret (-17), c)
       else with_session c sid (\<lambda>s.
         bind_res (create_from_portal le alloc_ok conn_ok (submit_queues c) (s_portal s) rdma) (\<lambda>(b, created).
           let s = s\<lparr>s_portal := b, s_cap := of_nat STACKBD_SIZE_G * of_nat ONE_GB, s_tables := created\<rparr>
           in case created of
                None \<Rightarrow> Inr (Ret (-22), put_session sid (s\<lparr>s_conns := Inl Use_After_Free\<rparr>) c)
              | Some t \<Rightarrow> Inr (Ret (int (length page)),
                  put_session sid (s\<lparr>s_conns := Inr (length (IS_conns t)), s_trigger := Live\<rparr>) c)))))"

section \<open>Devices\<close>

definition IS_device_make_group :: "bool \<Rightarrow> nat \<Rightarrow> string \<Rightarrow> cfg \<Rightarrow> (reply \<times> cfg) res" where
  "IS_device_make_group alloc_ok sid name c =
     (if \<not> alloc_ok then Inr (No_Group, c)
      else let (r, f) = IS_set_device_state DEVICE_OPENNING zero_file
           in if r \<noteq> 0 then Inr (No_Group, c)
              else bind_res (sscanf_s MAX_IS_DEV_NAME name) (\<lambda>nm.
                with_session c sid (\<lambda>s.
                  let f = f\<lparr>dev_name := (case nm of None \<Rightarrow> dev_name f | Some t \<Rightarrow> t)\<rparr>
                  in Inr (Group (next_id c), (put_session sid (s\<lparr>s_devs := (next_id c, f) # s_devs s\<rparr>) c)\<lparr>next_id := next_id c + 1\<rparr>))))"

text \<open>
  \<open>xdev_name\<close> is on the stack: without a character to read it has no value. \<open>IS_create_device\<close> sets \<open>xdev\<close> once the
  queues are there and wakes the trigger thread when it succeeds.
\<close>

definition device_attr_store :: "kern \<Rightarrow> nat \<Rightarrow> nat \<Rightarrow> string \<Rightarrow> cfg \<Rightarrow> (reply \<times> cfg) res" where
  "device_attr_store k sid did page c =
     with_session c sid (\<lambda>s. with_device s did (\<lambda>f.
     bind_res (sscanf_s MAX_IS_DEV_NAME page) (\<lambda>nm.
       case nm of None \<Rightarrow> Inl Uninit_Read
       | Some xdev_name \<Rightarrow>
           if IS_file_find (s_devs s) xdev_name \<noteq> None then Inr (Ret (-17), c)
           else bind_res (IS_create_device k (IS_major c) (submit_queues c) (s_cap s) (s_conns s) xdev_name (IS_indexes c) f (stackbd c))
             (\<lambda>(r, idx, f, sb).
               let s = s\<lparr>s_devs := AList.update did f (s_devs s), s_xdev := if queues_ok k then Some did else s_xdev s\<rparr>;
                   c = put_session sid s (c\<lparr>IS_indexes := idx, stackbd := sb\<rparr>)
               in if r \<noteq> 0 then Inr (Ret r, c)
                  else deref (s_trigger s) (Inr (Ret (int (length page)), c\<lparr>woken := List.insert sid (woken c)\<rparr>))))))"

definition state_attr_show :: "nat \<Rightarrow> nat \<Rightarrow> cfg \<Rightarrow> (reply \<times> cfg) res" where
  "state_attr_show sid did c =
     with_session c sid (\<lambda>s. with_device s did (\<lambda>f. Inr (Text (IS_device_state_str f @ [CHR 0x0A]), c)))"

text \<open>\<open>IS_destroy_device\<close> with the removal from the list of the session.\<close>

definition destroy_listed :: "nat \<Rightarrow> cfg_session \<times> stackbd_t \<Rightarrow> (cfg_session \<times> stackbd_t) res" where
  "destroy_listed did = (\<lambda>(s, sb).
     with_device s did (\<lambda>f. bind_res (IS_destroy_device f sb) (\<lambda>(_, sb). Inr (s\<lparr>s_devs := AList.delete did (s_devs s)\<rparr>, sb))))"

definition IS_device_drop :: "nat \<Rightarrow> nat \<Rightarrow> cfg \<Rightarrow> (reply \<times> cfg) res" where
  "IS_device_drop sid did c =
     with_session c sid (\<lambda>s. bind_res (destroy_listed did (s, stackbd c)) (\<lambda>(s, sb).
       Inr (Ret 0, put_session sid s (c\<lparr>stackbd := sb\<rparr>))))"

definition IS_destroy_session_devices :: "cfg_session \<times> stackbd_t \<Rightarrow> (cfg_session \<times> stackbd_t) res" where
  "IS_destroy_session_devices = (\<lambda>(s, sb). for_res destroy_listed (map fst (s_devs s)) (s, sb))"

definition IS_session_destroy :: "nat \<Rightarrow> cfg \<Rightarrow> cfg res" where
  "IS_session_destroy sid c =
     with_session c sid (\<lambda>s. bind_res (IS_destroy_session_devices (s, stackbd c)) (\<lambda>(_, sb).
       Inr (c\<lparr>g_IS_sessions := AList.delete sid (g_IS_sessions c), stackbd := sb\<rparr>)))"

definition IS_session_drop :: "nat \<Rightarrow> cfg \<Rightarrow> (reply \<times> cfg) res" where
  "IS_session_drop sid c = bind_res (IS_session_destroy sid c) (\<lambda>c. Inr (Ret 0, c))"

section \<open>The module\<close>

definition zero_cfg :: cfg where
  "zero_cfg = \<lparr>subsys = False, IS_major = 0, major_held = False, submit_queues = 0, g_IS_sessions = [], created_portals = 0,
     IS_indexes = 0, stackbd = zero_stackbd, woken = [], next_id = 0\<rparr>"

definition IS_create_configfs_files :: "int \<Rightarrow> cfg \<Rightarrow> int \<times> cfg" where
  "IS_create_configfs_files err c = (err, c\<lparr>subsys := (err = 0)\<rparr>)"

definition IS_init_module :: "int \<Rightarrow> nat \<Rightarrow> int \<Rightarrow> cfg \<Rightarrow> int \<times> cfg" where
  "IS_init_module err cpus major c =
     (let (r, c) = IS_create_configfs_files err c
      in if r \<noteq> 0 then (1, c)
         else let c = c\<lparr>submit_queues := cpus, IS_major := major, major_held := (0 \<le> major)\<rparr>
              in if major < 0 then (major, c) else (0, c\<lparr>g_IS_sessions := []\<rparr>))"

definition IS_cleanup_module :: "cfg \<Rightarrow> cfg res" where
  "IS_cleanup_module c =
     bind_res (for_res IS_session_destroy (map fst (g_IS_sessions c)) (c\<lparr>major_held := False\<rparr>)) (\<lambda>c. Inr (c\<lparr>subsys := False\<rparr>))"

section \<open>Operations\<close>

datatype cfg_op =
    Mkdir_Session bool
  | Store_Portal nat bool "nat \<Rightarrow> bool" string
  | Mkdir_Device nat bool string
  | Store_Device nat nat kern string
  | Show_State nat nat
  | Rmdir_Device nat nat
  | Rmdir_Session nat

fun configfs_op :: "bool \<Rightarrow> cfg_op \<Rightarrow> cfg \<Rightarrow> (reply \<times> cfg) res" where
  "configfs_op le (Mkdir_Session ok) c = IS_session_make_group ok c"
| "configfs_op le (Store_Portal sid ok conn_ok page) c = portal_attr_store le ok conn_ok sid page c"
| "configfs_op le (Mkdir_Device sid ok name) c = IS_device_make_group ok sid name c"
| "configfs_op le (Store_Device sid did k page) c = device_attr_store k sid did page c"
| "configfs_op le (Show_State sid did) c = state_attr_show sid did c"
| "configfs_op le (Rmdir_Device sid did) c = IS_device_drop sid did c"
| "configfs_op le (Rmdir_Session sid) c = IS_session_drop sid c"

fun configfs_run :: "bool \<Rightarrow> cfg_op list \<Rightarrow> cfg \<Rightarrow> (reply list \<times> cfg) res" where
  "configfs_run le [] c = Inr ([], c)"
| "configfs_run le (a # as) c =
     bind_res (configfs_op le a c) (\<lambda>(r, c). bind_res (configfs_run le as c) (\<lambda>(rs, c). Inr (r # rs, c)))"

section \<open>Well-formed states\<close>

definition dev_at :: "cfg \<Rightarrow> nat \<Rightarrow> nat \<Rightarrow> IS_file option" where
  "dev_at c sid did = Option.bind (map_of (g_IS_sessions c) sid) (\<lambda>s. map_of (s_devs s) did)"

text \<open>The backup disk between two devices and in use; \<open>is_active\<close> and the registered numbers are left open.\<close>

definition sb_idle :: "stackbd_t \<Rightarrow> bool" where
  "sb_idle sb \<longleftrightarrow> gd sb \<noteq> Live \<and> \<not> gd_added sb \<and> sb_thread sb \<noteq> Live \<and> sb_bdev sb \<noteq> Live \<and> sb_queue sb \<noteq> Live"

definition sb_busy :: "stackbd_t \<Rightarrow> bool" where
  "sb_busy sb \<longleftrightarrow> gd sb = Live \<and> gd_added sb \<and> sb_thread sb = Live \<and> sb_bdev sb = Live \<and> sb_queue sb = Live \<and> sb_active sb"

text \<open>A device is either fresh, without any object, or running and complete.\<close>

definition dev_wf :: "nat \<Rightarrow> IS_file \<Rightarrow> bool" where
  "dev_wf n f \<longleftrightarrow> length (file_name f) < MAX_IS_DEV_NAME \<and> name_ok DISK_NAME_LEN (dev_name f) \<and>
     (case dev_state f of DEVICE_RUNNING \<Rightarrow> held n f | DEVICE_OPENNING \<Rightarrow> f_disk f = Null \<and> released f | _ \<Rightarrow> False)"

text \<open>The array of the portal ends with a NUL; a session with connections has all of them and a trigger thread.\<close>

definition session_wf :: "nat \<Rightarrow> nat \<Rightarrow> cfg_session \<Rightarrow> bool" where
  "session_wf n m s \<longleftrightarrow> length (s_portal s) = MAX_PORTAL_NAME \<and> s_portal s ! (MAX_PORTAL_NAME - 1) = NUL \<and>
     distinct (map fst (s_devs s)) \<and> (\<forall>d \<in> set (map fst (s_devs s)). d < m) \<and>
     (\<forall>q. s_conns s = Inr q \<longrightarrow> q = n \<and> s_trigger s = Live \<and> s_tables s \<noteq> None \<and> s_cap s = of_nat STACKBD_SIZE_G * of_nat ONE_GB)"

text \<open>\<open>own\<close> is the device that runs, if there is one: the backup disk is its.\<close>

definition owned :: "(nat \<times> nat) option \<Rightarrow> cfg \<Rightarrow> bool" where
  "owned own c \<longleftrightarrow> (\<forall>sid did f. dev_at c sid did = Some f \<longrightarrow> (dev_state f = DEVICE_RUNNING \<longleftrightarrow> own = Some (sid, did))) \<and>
     (case own of None \<Rightarrow> sb_idle (stackbd c) | Some (sid, did) \<Rightarrow> dev_at c sid did \<noteq> None \<and> sb_busy (stackbd c))"

definition tree_wf :: "cfg \<Rightarrow> bool" where
  "tree_wf c \<longleftrightarrow> distinct (map fst (g_IS_sessions c)) \<and>
     (\<forall>sid s. map_of (g_IS_sessions c) sid = Some s \<longrightarrow> sid < next_id c \<and> session_wf (submit_queues c) (next_id c) s) \<and>
     (\<forall>sid did f. dev_at c sid did = Some f \<longrightarrow> dev_wf (submit_queues c) f)"

definition cfg_wf :: "cfg \<Rightarrow> bool" where
  "cfg_wf c \<longleftrightarrow> tree_wf c \<and> (\<exists>own. owned own c)"

section \<open>The contract of the administrator\<close>

text \<open>
  A portal line of servers with valid addresses, written once to a session; device names that fit
  \<open>disk_name\<close>; a device is started at most once, when its session has its connections, while no other device
  runs, and the kernel grants the backup disk if it grants the device. configfs itself names only
  directories that are there and removes only empty ones.
\<close>

definition portal_line :: "string \<Rightarrow> bool" where
  "portal_line page \<longleftrightarrow> (\<exists>n l. page = show_portal n l @ [CHR 0x0A] \<and> (\<forall>x \<in> set l. server_ok x) \<and> l \<noteq> [] \<and> n \<le> length l \<and> n < 2 ^ 31 \<and>
     length (''rdma://'' @ show_portal n l) + 1 < MAX_PORTAL_NAME)"

definition device_line :: "string \<Rightarrow> bool" where
  "device_line page \<longleftrightarrow> (\<exists>name. sscanf_s MAX_IS_DEV_NAME page = Inr (Some name) \<and> name \<noteq> [])"

fun allowed :: "cfg \<Rightarrow> cfg_op \<Rightarrow> bool" where
  "allowed c (Mkdir_Session ok) \<longleftrightarrow> True"
| "allowed c (Store_Portal sid ok conn_ok page) \<longleftrightarrow>
     ok \<and> portal_line page \<and> (\<exists>s. map_of (g_IS_sessions c) sid = Some s \<and> s_portal s = in_array [])"
| "allowed c (Mkdir_Device sid ok name) \<longleftrightarrow> name_ok DISK_NAME_LEN name \<and> (\<exists>s. map_of (g_IS_sessions c) sid = Some s)"
| "allowed c (Store_Device sid did k page) \<longleftrightarrow>
     device_line page \<and> (\<forall>i j f. dev_at c i j = Some f \<longrightarrow> dev_state f \<noteq> DEVICE_RUNNING) \<and> (\<exists>f. dev_at c sid did = Some f) \<and>
     (\<exists>s q. map_of (g_IS_sessions c) sid = Some s \<and> s_conns s = Inr q) \<and> (dev_granted k \<longrightarrow> sb_granted k \<and> register_doc k)"
| "allowed c (Show_State sid did) \<longleftrightarrow> (\<exists>f. dev_at c sid did = Some f)"
| "allowed c (Rmdir_Device sid did) \<longleftrightarrow> (\<exists>f. dev_at c sid did = Some f)"
| "allowed c (Rmdir_Session sid) \<longleftrightarrow> (\<exists>s. map_of (g_IS_sessions c) sid = Some s \<and> s_devs s = [])"

fun all_allowed :: "bool \<Rightarrow> cfg_op list \<Rightarrow> cfg \<Rightarrow> bool" where
  "all_allowed le [] c \<longleftrightarrow> True"
| "all_allowed le (a # as) c \<longleftrightarrow> allowed c a \<and> (\<forall>r c'. configfs_op le a c = Inr (r, c') \<longrightarrow> all_allowed le as c')"

text \<open>The type of the reply to each operation.\<close>

fun reply_typed :: "cfg_op \<Rightarrow> reply \<Rightarrow> bool" where
  "reply_typed (Mkdir_Session ok) r = (case r of Group _ \<Rightarrow> ok | No_Group \<Rightarrow> \<not> ok | _ \<Rightarrow> False)"
| "reply_typed (Mkdir_Device sid ok name) r = (case r of Group _ \<Rightarrow> ok | No_Group \<Rightarrow> \<not> ok | _ \<Rightarrow> False)"
| "reply_typed (Store_Portal sid ok conn_ok page) r = (r \<in> {Ret (-17), Ret (-22), Ret (int (length page))})"
| "reply_typed (Store_Device sid did k page) r = (case r of Ret i \<Rightarrow> i \<noteq> 0 \<and> (dev_granted k \<longrightarrow> i \<in> {-17, int (length page)}) | _ \<Rightarrow> False)"
| "reply_typed (Show_State sid did) r = (r \<in> {Text (''openning'' @ [CHR 0x0A]), Text (''running'' @ [CHR 0x0A])})"
| "reply_typed (Rmdir_Device sid did) r = (r = Ret 0)"
| "reply_typed (Rmdir_Session sid) r = (r = Ret 0)"

section \<open>Portals\<close>

lemma scan_returns: "p \<le> k \<Longrightarrow> k < length b \<Longrightarrow> P (b ! k) \<Longrightarrow> \<exists>j. scan P b p = Inr j"
  unfolding scan_def by (cases "find (\<lambda>k. P (b ! k)) [p..<length b]") (auto simp: find_None_iff)

lemma portal_search_returns:
  assumes "\<forall>(i, b) \<in> set l. length b = MAX_PORTAL_NAME \<and> b ! (MAX_PORTAL_NAME - 1) = NUL"
  shows "\<exists>r. IS_session_find_by_portal l name = Inr r"
  using assms
proof (induction l)
  case (Cons x l)
  obtain i b where x: "x = (i, b)" by force
  have "\<exists>j. scan (\<lambda>ch. ch = NUL) b 0 = Inr j"
    using Cons.prems x by (intro scan_returns [of 0 "MAX_PORTAL_NAME - 1"]) (auto simp: MAX_PORTAL_NAME_def)
  then show ?case using Cons x by (auto simp: cstring_def)
qed simp

lemma update_NUL: "b ! k = NUL \<Longrightarrow> b[j := NUL] ! k = NUL"
  by (cases "j < length b"; cases "j = k") (simp_all add: not_less list_update_beyond)

lemma strsep_keeps: "strsep d b p = Inr (t, p', b') \<Longrightarrow> length b' = length b \<and> (b ! k = NUL \<longrightarrow> b' ! k = NUL)"
  by (auto simp: strsep_def bind_res_Inr_iff update_NUL split: option.splits if_splits)

lemma parse_keeps:
  "parse_portals ok n b p ps = Inr (qs, b') \<Longrightarrow> length b' = length b \<and> (b ! k = NUL \<longrightarrow> b' ! k = NUL)"
proof (induction n arbitrary: b p ps)
  case (Suc n)
  then obtain t p1 b1 ps1 where "strsep (CHR '','') b p = Inr (t, p1, b1)" "parse_portals ok n b1 p1 ps1 = Inr (qs, b')"
    by (auto simp: bind_res_Inr_iff Let_def split: option.splits if_splits)
  then show ?case using Suc.IH strsep_keeps [of "CHR '',''" b p t p1 b1 k] by metis
qed simp

lemma created_portal:
  assumes "portal_line page"
  shows "\<exists>rdma b. rdma_name page = Inr rdma \<and> length b = MAX_PORTAL_NAME \<and> b ! (MAX_PORTAL_NAME - 1) = NUL \<and>
     (\<exists>ps n. create_from_portal le True conn_ok q (in_array []) rdma =
       Inr (b, map_option (\<lambda>s. s\<lparr>cb_num := n\<rparr>) (IS_session_create le conn_ok q ps)))"
proof -
  obtain n l where p: "page = show_portal n l @ [CHR 0x0A]" "\<forall>x \<in> set l. server_ok x" "l \<noteq> []" "n \<le> length l" "n < 2 ^ 31"
    "length (''rdma://'' @ show_portal n l) + 1 < MAX_PORTAL_NAME" using assms by (auto simp: portal_line_def)
  let ?name = "''rdma://'' @ show_portal n l" let ?b = "?name @ NUL # replicate (MAX_PORTAL_NAME - length ?name - 1) NUL"
  obtain b where b: "portal_parser True ?b = Inr (int n, map portal_of (take n l), b)"
    using portal_parser_text [OF p(2,3,5), of "replicate (MAX_PORTAL_NAME - length ?name - 1) NUL"] p(4) by auto
  have last: "(t @ NUL # replicate (m - length t - 1) NUL) ! (m - 1) = NUL" if "length t + 1 < m" for t :: string and m
    using that by (auto simp: nth_append nth_Cons')
  have "?b ! (MAX_PORTAL_NAME - 1) = NUL" by (rule last [OF p(6)])
  moreover have "length ?b = MAX_PORTAL_NAME" using p(6) by simp
  moreover have "length b = length ?b \<and> (?b ! k = NUL \<longrightarrow> b ! k = NUL)" for k
    using b unfolding portal_parser_def by (auto elim!: bind_res_InrE simp: Let_def dest!: strsep_keeps [where k = k] parse_keeps [where k = k])
  ultimately have "length b = MAX_PORTAL_NAME" "b ! (MAX_PORTAL_NAME - 1) = NUL" by metis+
  then show ?thesis
    using name_of_text [OF p(2,6)] b unfolding p(1)
    by (intro exI [of _ ?name] exI [of _ b]) (auto simp: create_from_portal_def)
qed

section \<open>Devices in the tree\<close>

lemma create_granted:
  assumes "dev_granted k" "sb_granted k" "register_doc k" "sb_idle sb" "name_ok MAX_IS_DEV_NAME name" "name_ok DISK_NAME_LEN (dev_name f)"
  shows "\<exists>g sb'. IS_create_device k M n cap (Inr n) name idx f sb = Inr (0, idx + 1, g, sb') \<and> held n g \<and> sb_busy sb' \<and>
     dev_state g = DEVICE_RUNNING \<and> file_name g = name \<and> dev_name g = dev_name f"
proof -
  obtain g where g: "prepared M n cap name idx f g" and run: "IS_create_device k M n cap (Inr n) name idx f sb =
      bind_res (register_backup k g sb) (\<lambda>(retval, g, sb).
        if retval \<noteq> 0 then bind_res (IS_destroy_queues g) (\<lambda>g. Inr (retval, idx + 1, g, sb))
        else Inr (0, idx + 1, g\<lparr>dev_state := DEVICE_RUNNING\<rparr>, sb))"
    using create_reaches_backup [OF assms(1,5,6)] by blast
  have nn: "\<not> register k (major_num sb) < 0" using assms(3) by (cases "major_num sb = 0") (auto simp: register_doc_def)
  have "\<exists>sb'. register_backup k g sb = Inr (0, g\<lparr>disk_added := True\<rparr>, sb') \<and> sb_busy sb'"
    using assms(2,4) g nn by (simp add: register_backup_def register_major_def stackbd_start_def stackbd_bdev_open_def sb_granted_def
      bdev_granted_def deref_def sb_busy_def sb_idle_def prepared_def Let_def)
  with g run show ?thesis by (auto simp: prepared_def held_def queues_bound_def)
qed

lemma destroy_running:
  assumes "held n f" "sb_busy sb"
  shows "\<exists>f' sb'. IS_destroy_device f sb = Inr (f', sb') \<and> sb_idle sb'"
  using assms by (simp add: IS_destroy_device_def IS_unregister_block_device_def del_gendisk_def unregister_backup_def cleanup_sb_queue_def
      unregister_major_def IS_destroy_queues_def kfree_def deref_def held_def sb_busy_def sb_idle_def Let_def)

lemma destroy_fresh: "f_disk f = Null \<Longrightarrow> \<exists>f'. IS_destroy_device f sb = Inr (f', sb)"
  by (simp add: IS_destroy_device_def)

lemma scanned_name_ok: "sscanf_s cap page = Inr (Some name) \<Longrightarrow> name \<noteq> [] \<Longrightarrow> name_ok cap name \<and> page \<noteq> []"
  by (auto simp: sscanf_s_def name_ok_def Let_def split: if_splits dest: set_takeWhileD)

section \<open>The tree\<close>

lemma session_wf_mono: "session_wf n m s \<Longrightarrow> m \<le> m' \<Longrightarrow> session_wf n m' s"
  by (fastforce simp: session_wf_def)

lemma dev_at_update:
  "g_IS_sessions c' = AList.update sid s (g_IS_sessions c) \<Longrightarrow> dev_at c' i j = (if i = sid then map_of (s_devs s) j else dev_at c i j)"
  by (simp add: dev_at_def update_conv')

lemma tree_wf_update:
  assumes "tree_wf c" "g_IS_sessions c' = AList.update sid s (g_IS_sessions c)" "next_id c \<le> next_id c'" "submit_queues c' = submit_queues c"
    and "map_of (g_IS_sessions c) sid = Some s0" "session_wf (submit_queues c) (next_id c') s"
    and "\<And>did f. map_of (s_devs s) did = Some f \<Longrightarrow> dev_wf (submit_queues c) f"
  shows "tree_wf c'"
  unfolding tree_wf_def
proof (intro conjI allI impI)
  show "distinct (map fst (g_IS_sessions c'))" using assms(1,2) by (simp add: tree_wf_def distinct_update)
  fix i t assume "map_of (g_IS_sessions c') i = Some t"
  then have "map_of (g_IS_sessions c) i = Some t \<or> i = sid \<and> t = s" using assms(2) by (simp add: update_conv' split: if_splits)
  moreover have "sid < next_id c" using assms(1,5) by (simp add: tree_wf_def)
  ultimately show "i < next_id c'" "session_wf (submit_queues c') (next_id c') t"
    using assms(1,3,4,6) session_wf_mono [OF _ assms(3)] unfolding tree_wf_def by (metis less_le_trans)+
next
  fix i j f assume "dev_at c' i j = Some f"
  then show "dev_wf (submit_queues c') f" using assms(1,4,7) by (auto simp: dev_at_update [OF assms(2)] tree_wf_def split: if_splits)
qed

lemma tree_session:
  assumes "tree_wf c" "map_of (g_IS_sessions c) sid = Some s"
  shows "session_wf (submit_queues c) (next_id c) s" "\<And>did f. map_of (s_devs s) did = Some f \<Longrightarrow> dev_wf (submit_queues c) f"
    "\<And>did. dev_at c sid did = map_of (s_devs s) did"
proof -
  show at: "dev_at c sid did = map_of (s_devs s) did" for did using assms(2) by (simp add: dev_at_def)
  show "session_wf (submit_queues c) (next_id c) s" using assms by (simp add: tree_wf_def)
  show "dev_wf (submit_queues c) f" if "map_of (s_devs s) did = Some f" for did f using assms(1) that at unfolding tree_wf_def by metis
qed

text \<open>A session and the device in it, from the directory.\<close>

lemma dev_atE:
  assumes "dev_at c sid did = Some f"
  obtains s where "map_of (g_IS_sessions c) sid = Some s" "map_of (s_devs s) did = Some f"
  using assms by (auto simp: dev_at_def bind_eq_Some_conv)

section \<open>Every operation keeps the tree\<close>

text \<open>The outcome of an operation within the contract.\<close>

definition served :: "bool \<Rightarrow> cfg_op \<Rightarrow> cfg \<Rightarrow> bool" where
  "served le a c \<longleftrightarrow> (\<exists>r c'. configfs_op le a c = Inr (r, c') \<and> reply_typed a r \<and> cfg_wf c')"

lemma servedI: "configfs_op le a c = Inr (r, c') \<Longrightarrow> reply_typed a r \<Longrightarrow> tree_wf c' \<Longrightarrow> owned own c' \<Longrightarrow> served le a c"
  by (auto simp: served_def cfg_wf_def)

lemma owned_same: "owned own c \<Longrightarrow> (\<And>i j. dev_at c' i j = dev_at c i j) \<Longrightarrow> stackbd c' = stackbd c \<Longrightarrow> owned own c'"
  by (cases own) (auto simp: owned_def)

lemma mkdir_session_served:
  assumes "tree_wf c" "owned own c"
  shows "served le (Mkdir_Session ok) c"
proof (cases ok)
  case True
  let ?c = "c\<lparr>g_IS_sessions := (next_id c, zero_cfg_session) # g_IS_sessions c, created_portals := created_portals c + 1, next_id := next_id c + 1\<rparr>"
  have new: "map_of (g_IS_sessions c) (next_id c) = None" using assms(1) unfolding tree_wf_def by (metis less_irrefl not_Some_eq)
  have zero: "session_wf n m zero_cfg_session" for n m by (simp add: session_wf_def zero_cfg_session_def in_array_def MAX_PORTAL_NAME_def)
  have dev: "dev_at ?c i j = dev_at c i j" for i j using new by (auto simp: dev_at_def zero_cfg_session_def)
  have keep: "i < next_id ?c" "session_wf (submit_queues ?c) (next_id ?c) t" if "map_of (g_IS_sessions ?c) i = Some t" for i t
  proof -
    have "i = next_id c \<and> t = zero_cfg_session \<or> map_of (g_IS_sessions c) i = Some t" using that by (simp split: if_splits)
    then show "i < next_id ?c" "session_wf (submit_queues ?c) (next_id ?c) t"
      using assms(1) zero session_wf_mono [of _ "next_id c" t "next_id ?c"] by (auto simp: tree_wf_def less_Suc_eq)
  qed
  have "tree_wf ?c" unfolding tree_wf_def dev using assms(1) new keep by (auto simp: tree_wf_def map_of_eq_None_iff)
  then show ?thesis using True by (intro servedI [where r = "Group (next_id c)", OF _ _ _ owned_same [OF assms(2) dev]]) (simp_all add: IS_session_make_group_def)
next
  case False
  then show ?thesis using assms by (intro servedI [where own = own and r = No_Group]) (simp_all add: IS_session_make_group_def)
qed

lemma put_same_devices:
  assumes "tree_wf c" "owned own c" "map_of (g_IS_sessions c) sid = Some s" "s_devs t = s_devs s" "session_wf (submit_queues c) (next_id c) t"
  shows "tree_wf (put_session sid t c)" "owned own (put_session sid t c)"
proof -
  note in_c = tree_session [OF assms(1,3)]
  show "tree_wf (put_session sid t c)"
    using in_c(1,2) assms(4,5) by (intro tree_wf_update [OF assms(1) _ _ _ assms(3), where s = t]) auto
  show "owned own (put_session sid t c)"
    using in_c(3) assms(4) by (intro owned_same [OF assms(2)]) (simp_all add: dev_at_update [where c = c and sid = sid and s = t])
qed

lemma store_portal_served:
  assumes "tree_wf c" "owned own c" "allowed c (Store_Portal sid ok conn_ok page)"
  shows "served le (Store_Portal sid ok conn_ok page) c"
proof -
  obtain s where s: "ok" "portal_line page" "map_of (g_IS_sessions c) sid = Some s" "s_portal s = in_array []" using assms(3) by auto
  obtain rdma b ps n where b: "rdma_name page = Inr rdma" "length b = MAX_PORTAL_NAME" "b ! (MAX_PORTAL_NAME - 1) = NUL"
    and created: "create_from_portal le True conn_ok (submit_queues c) (in_array []) rdma =
       Inr (b, map_option (\<lambda>s. s\<lparr>cb_num := n\<rparr>) (IS_session_create le conn_ok (submit_queues c) ps))"
    using created_portal [OF s(2)] by blast
  have "\<forall>(i, b) \<in> set (map (\<lambda>(i, s). (i, s_portal s)) (g_IS_sessions c)). length b = MAX_PORTAL_NAME \<and> b ! (MAX_PORTAL_NAME - 1) = NUL"
    using assms(1) by (auto simp: tree_wf_def session_wf_def)
  then obtain found where found: "IS_session_find_by_portal (map (\<lambda>(i, s). (i, s_portal s)) (g_IS_sessions c)) rdma = Inr found"
    using portal_search_returns by blast
  note put = put_same_devices [OF assms(1,2) s(3)]
  note old = tree_session(1)[OF assms(1) s(3), unfolded session_wf_def]
  show ?thesis
  proof (cases found)
    case (Some x)
    then show ?thesis using assms(1,2) b(1) found by (intro servedI [where own = own and r = "Ret (-17)"]) (simp_all add: portal_attr_store_def)
  next
    case None
    show ?thesis
    proof (cases "IS_session_create le conn_ok (submit_queues c) ps")
      case None': None
      let ?t = "s\<lparr>s_portal := b, s_cap := of_nat STACKBD_SIZE_G * of_nat ONE_GB, s_tables := None, s_conns := Inl Use_After_Free\<rparr>"
      have run: "portal_attr_store le ok conn_ok sid page c = Inr (Ret (-22), put_session sid ?t c)"
        using None None' s b(1) found created by (simp add: portal_attr_store_def with_session_def)
      have "session_wf (submit_queues c) (next_id c) ?t" using b old by (simp add: session_wf_def)
      then show ?thesis using run put [of ?t] by (intro servedI [where r = "Ret (-22)"]) simp_all
    next
      case (Some t)
      let ?t = "s\<lparr>s_portal := b, s_cap := of_nat STACKBD_SIZE_G * of_nat ONE_GB, s_tables := Some (t\<lparr>cb_num := n\<rparr>),
        s_conns := Inr (length (IS_conns t)), s_trigger := Live\<rparr>"
      have run: "portal_attr_store le ok conn_ok sid page c = Inr (Ret (int (length page)), put_session sid ?t c)"
        using None Some s b(1) found created by (simp add: portal_attr_store_def with_session_def)
      have "length (IS_conns t) = submit_queues c" using Some by (auto simp: IS_session_create_def Let_def split: if_splits)
      then have "session_wf (submit_queues c) (next_id c) ?t" using b old by (simp add: session_wf_def)
      then show ?thesis using run put [of ?t] by (intro servedI [where r = "Ret (int (length page))"]) simp_all
    qed
  qed
qed

text \<open>A change of one device: \<open>v\<close> is what is in its place.\<close>

definition changed :: "nat \<Rightarrow> nat \<Rightarrow> IS_file option \<Rightarrow> cfg \<Rightarrow> cfg \<Rightarrow> bool" where
  "changed sid did v c c' \<longleftrightarrow> (\<exists>s t. map_of (g_IS_sessions c) sid = Some s \<and> g_IS_sessions c' = AList.update sid t (g_IS_sessions c) \<and>
     map_of (s_devs t) = (map_of (s_devs s))(did := v) \<and> session_wf (submit_queues c) (next_id c') t) \<and>
     (\<forall>f. v = Some f \<longrightarrow> dev_wf (submit_queues c) f) \<and> next_id c \<le> next_id c' \<and> submit_queues c' = submit_queues c"

lemma changedI:
  assumes "map_of (g_IS_sessions c) sid = Some s" "g_IS_sessions c' = AList.update sid t (g_IS_sessions c)"
    "map_of (s_devs t) = (map_of (s_devs s))(did := v)" "session_wf (submit_queues c) (next_id c') t"
    "\<And>f. v = Some f \<Longrightarrow> dev_wf (submit_queues c) f" "next_id c \<le> next_id c'" "submit_queues c' = submit_queues c"
  shows "changed sid did v c c'"
  unfolding changed_def using assms by blast

lemma changed_dev: "changed sid did v c c' \<Longrightarrow> dev_at c' i j = (if i = sid \<and> j = did then v else dev_at c i j)"
  by (auto simp: changed_def dev_at_def update_conv')

lemma changed_tree:
  assumes "tree_wf c" "changed sid did v c c'"
  shows "tree_wf c'"
proof -
  obtain s t where s: "map_of (g_IS_sessions c) sid = Some s" "g_IS_sessions c' = AList.update sid t (g_IS_sessions c)"
    "map_of (s_devs t) = (map_of (s_devs s))(did := v)" "session_wf (submit_queues c) (next_id c') t"
    "\<forall>f. v = Some f \<longrightarrow> dev_wf (submit_queues c) f" "next_id c \<le> next_id c'" "submit_queues c' = submit_queues c"
    using assms(2) unfolding changed_def by blast
  show ?thesis
    using s(3,5) tree_session(2)[OF assms(1) s(1)] by (intro tree_wf_update [OF assms(1) s(2,6,7,1,4)]) (auto split: if_splits)
qed

lemma changed_owner:
  assumes "changed sid did v c c'" "owned own c"
  shows "own = None \<Longrightarrow> v = Some f \<Longrightarrow> dev_state f = DEVICE_RUNNING \<Longrightarrow> sb_busy (stackbd c') \<Longrightarrow> owned (Some (sid, did)) c'"
    and "own \<noteq> Some (sid, did) \<Longrightarrow> (\<And>f. v = Some f \<Longrightarrow> dev_state f \<noteq> DEVICE_RUNNING) \<Longrightarrow> stackbd c' = stackbd c \<Longrightarrow> owned own c'"
    and "own = Some (sid, did) \<Longrightarrow> v = None \<Longrightarrow> sb_idle (stackbd c') \<Longrightarrow> owned None c'"
  using assms(2) by (auto simp: owned_def changed_dev [OF assms(1)] split: option.splits prod.splits if_splits)

lemma served_changeI:
  "configfs_op le a c = Inr (r, c') \<Longrightarrow> reply_typed a r \<Longrightarrow> tree_wf c \<Longrightarrow> changed sid did v c c' \<Longrightarrow> owned own c' \<Longrightarrow> served le a c"
  by (rule servedI [OF _ _ changed_tree])

lemma mkdir_device_served:
  assumes "tree_wf c" "owned own c" "allowed c (Mkdir_Device sid ok name)"
  shows "served le (Mkdir_Device sid ok name) c"
proof (cases ok)
  case True
  obtain s where s: "map_of (g_IS_sessions c) sid = Some s" "name_ok DISK_NAME_LEN name" using assms(3) by auto
  let ?f = "zero_file\<lparr>dev_state := DEVICE_OPENNING, dev_name := name\<rparr>"
  let ?t = "s\<lparr>s_devs := (next_id c, ?f) # s_devs s\<rparr>" let ?c = "(put_session sid ?t c)\<lparr>next_id := next_id c + 1\<rparr>"
  have old: "session_wf (submit_queues c) (next_id c) s" by (rule tree_session(1)[OF assms(1) s(1)])
  then have new: "next_id c \<notin> set (map fst (s_devs s))" "session_wf (submit_queues c) (next_id c + 1) ?t"
    by (force simp: session_wf_def)+
  have f: "dev_wf n ?f" for n using s(2) by (simp add: dev_wf_def zero_file_def released_def MAX_IS_DEV_NAME_def)
  have ch: "changed sid (next_id c) (Some ?f) c ?c"
    using new f by (intro changedI [OF s(1), of _ ?t]) auto
  have "own \<noteq> Some (sid, next_id c)"
    using assms(2) new(1) tree_session(3)[OF assms(1) s(1)] map_of_eq_None_iff [of "s_devs s" "next_id c"] by (auto simp: owned_def)
  then have "owned own ?c" by (intro changed_owner(2)[OF ch assms(2)]) (auto simp: zero_file_def)
  moreover have "name_ok MAX_IS_DEV_NAME name" using s(2) by (auto simp: name_ok_def DISK_NAME_LEN_def MAX_IS_DEV_NAME_def)
  then have "IS_device_make_group ok sid name c = Inr (Group (next_id c), ?c)"
    using True s(1) by (simp add: IS_device_make_group_def IS_set_device_state_def zero_file_def sscanf_s_name with_session_def Let_def)
  ultimately show ?thesis using changed_tree [OF assms(1) ch] True by (intro servedI [where r = "Group (next_id c)"]) simp_all
next
  case False
  then show ?thesis using assms by (intro servedI [where own = own and r = No_Group]) (simp_all add: IS_device_make_group_def)
qed

text \<open>A device that does not run is fresh, one that runs is complete and owns the backup disk.\<close>

lemma device_cases:
  assumes "tree_wf c" "owned own c" "dev_at c sid did = Some f"
  obtains "dev_state f = DEVICE_OPENNING" "f_disk f = Null" "released f" "own \<noteq> Some (sid, did)"
    | "dev_state f = DEVICE_RUNNING" "held (submit_queues c) f" "own = Some (sid, did)" "sb_busy (stackbd c)"
proof (cases "dev_state f = DEVICE_RUNNING")
  case True
  moreover have "dev_wf (submit_queues c) f" using assms(1,3) by (auto simp: tree_wf_def)
  ultimately show ?thesis using that(2) assms(2,3) by (auto simp: owned_def dev_wf_def)
next
  case False
  moreover have "dev_wf (submit_queues c) f" using assms(1,3) by (auto simp: tree_wf_def)
  ultimately show ?thesis using that(1) assms(2,3) by (auto simp: owned_def dev_wf_def split: IS_dev_state.splits)
qed

lemma no_owner: "owned own c \<Longrightarrow> (\<And>i j f. dev_at c i j = Some f \<Longrightarrow> dev_state f \<noteq> DEVICE_RUNNING) \<Longrightarrow> own = None \<and> sb_idle (stackbd c)"
  unfolding owned_def by (cases own) (simp, metis (mono_tags, lifting) case_prod_unfold not_Some_eq option.simps(5) prod.collapse)

lemma create_from_fresh:
  assumes "sb_idle sb" "name_ok MAX_IS_DEV_NAME name" "dev_granted k \<longrightarrow> sb_granted k \<and> register_doc k"
    and "dev_wf n f" "dev_state f = DEVICE_OPENNING"
  shows "\<exists>r g sb'. IS_create_device k M n cap (Inr n) name idx f sb = Inr (r, idx + 1, g, sb') \<and> dev_wf n g \<and>
     (if dev_granted k then r = 0 \<and> dev_state g = DEVICE_RUNNING \<and> sb_busy sb' else r \<noteq> 0 \<and> dev_state g = DEVICE_OPENNING \<and> sb' = sb)"
proof (cases "dev_granted k")
  case True
  then show ?thesis using create_granted [OF True _ _ assms(1,2), of f M n cap idx] assms(2-4) by (fastforce simp: dev_wf_def name_ok_def)
next
  case False
  have "f_disk f = Null" "released f" using assms(4,5) by (simp_all add: dev_wf_def)
  then show ?thesis using create_denied [OF False assms(2), of f M n cap idx sb] assms(2,4,5) False by (fastforce simp: dev_wf_def name_ok_def)
qed

lemma store_device_served:
  assumes "tree_wf c" "owned own c" "allowed c (Store_Device sid did k page)"
  shows "served le (Store_Device sid did k page) c"
proof -
  obtain name s f q where line: "sscanf_s MAX_IS_DEV_NAME page = Inr (Some name)" "name \<noteq> []" and s: "map_of (g_IS_sessions c) sid = Some s"
    "map_of (s_devs s) did = Some f" "s_conns s = Inr q" and at: "dev_at c sid did = Some f"
    using assms(3) by (auto simp: device_line_def dev_at_def)
  have name: "name_ok MAX_IS_DEV_NAME name" "page \<noteq> []" using scanned_name_ok [OF line] by auto
  have wf: "session_wf (submit_queues c) (next_id c) s" "dev_wf (submit_queues c) f" using tree_session [OF assms(1) s(1)] s(2) by blast+
  then have q: "q = submit_queues c" "s_trigger s = Live" using s(3) by (simp_all add: session_wf_def)
  have own: "own = None" "sb_idle (stackbd c)" "dev_state f = DEVICE_OPENNING"
    using no_owner [OF assms(2)] assms(3) device_cases [OF assms(1,2) at] by auto
  obtain r g sb where g: "IS_create_device k (IS_major c) (submit_queues c) (s_cap s) (s_conns s) name (IS_indexes c) f (stackbd c) =
      Inr (r, IS_indexes c + 1, g, sb)" "dev_wf (submit_queues c) g" "if dev_granted k then r = 0 \<and> dev_state g = DEVICE_RUNNING \<and> sb_busy sb
      else r \<noteq> 0 \<and> dev_state g = DEVICE_OPENNING \<and> sb = stackbd c"
    using create_from_fresh [OF own(2) name(1) _ wf(2) own(3)] assms(3) s(3) q(1) by (metis allowed.simps(4))
  let ?t = "s\<lparr>s_devs := AList.update did g (s_devs s), s_xdev := if queues_ok k then Some did else s_xdev s\<rparr>"
  let ?c = "put_session sid ?t (c\<lparr>IS_indexes := IS_indexes c + 1, stackbd := sb\<rparr>)"
  have "did \<in> fst ` set (s_devs s)" using s(2) by (force dest: map_of_SomeD)
  then have "session_wf (submit_queues c) (next_id c) ?t" using wf(1) by (auto simp: session_wf_def distinct_update update_keys)
  then have ch: "changed sid did (Some g) c (?c\<lparr>woken := w\<rparr>)" for w
    using g(2) by (intro changedI [OF s(1), of _ ?t]) (simp_all add: update_conv')
  note run = device_attr_store_def with_session_def with_device_def deref_def Let_def
  show ?thesis
  proof (cases "IS_file_find (s_devs s) name = None")
    case False
    then show ?thesis using assms(1,2) s line name by (intro servedI [where own = own and r = "Ret (-17)"]) (simp_all add: run)
  next
    case True
    show ?thesis
    proof (cases "dev_granted k")
      case granted: True
      let ?w = "?c\<lparr>woken := List.insert sid (woken c)\<rparr>"
      have run': "configfs_op le (Store_Device sid did k page) c = Inr (Ret (int (length page)), ?w)"
        using True granted s line g q(2) by (simp add: run)
      have o: "owned (Some (sid, did)) ?w" by (rule changed_owner(1)[OF ch assms(2) own(1) refl]) (use g(3) granted in simp_all)
      show ?thesis by (rule served_changeI [OF run' _ assms(1) ch o]) (use name(2) in simp)
    next
      case denied: False
      let ?w = "?c\<lparr>woken := woken c\<rparr>"
      have run': "configfs_op le (Store_Device sid did k page) c = Inr (Ret r, ?w)" using True denied s line g by (simp add: run)
      have o: "owned own ?w" by (rule changed_owner(2)[OF ch assms(2)]) (use g(3) denied own(1) in simp_all)
      show ?thesis by (rule served_changeI [OF run' _ assms(1) ch o]) (use g(3) denied in simp)
    qed
  qed
qed

lemma rmdir_device_served:
  assumes "tree_wf c" "owned own c" "dev_at c sid did = Some f"
  shows "served le (Rmdir_Device sid did) c"
proof -
  obtain s where s: "map_of (g_IS_sessions c) sid = Some s" "map_of (s_devs s) did = Some f" using assms(3) by (rule dev_atE)
  let ?t = "s\<lparr>s_devs := AList.delete did (s_devs s)\<rparr>" let ?c = "\<lambda>sb. put_session sid ?t (c\<lparr>stackbd := sb\<rparr>)"
  have "session_wf (submit_queues c) (next_id c) ?t"
    using tree_session(1)[OF assms(1) s(1)] by (auto simp: session_wf_def delete_keys intro: distinct_removeAll)
  then have ch: "changed sid did None c (?c sb)" for sb by (intro changedI [OF s(1), of _ ?t]) (simp_all add: delete_conv')
  have run: "configfs_op le (Rmdir_Device sid did) c = Inr (Ret 0, ?c sb)" if "IS_destroy_device f (stackbd c) = Inr (f', sb)" for f' sb
    using s that by (simp add: IS_device_drop_def destroy_listed_def with_session_def with_device_def)
  from device_cases [OF assms] show ?thesis
  proof cases
    case 1
    obtain f' where f': "IS_destroy_device f (stackbd c) = Inr (f', stackbd c)" using destroy_fresh [OF 1(2)] by blast
    have o: "owned own (?c (stackbd c))" by (rule changed_owner(2)[OF ch assms(2) 1(4)]) simp_all
    show ?thesis by (rule served_changeI [OF run [OF f'] _ assms(1) ch o]) simp
  next
    case 2
    obtain f' sb where sb: "IS_destroy_device f (stackbd c) = Inr (f', sb)" "sb_idle sb" using destroy_running [OF 2(2,4)] by blast
    have o: "owned None (?c sb)" by (rule changed_owner(3)[OF ch assms(2) 2(3) refl]) (simp add: sb(2))
    show ?thesis by (rule served_changeI [OF run [OF sb(1)] _ assms(1) ch o]) simp
  qed
qed

lemma rmdir_session_served:
  assumes "tree_wf c" "owned own c" "map_of (g_IS_sessions c) sid = Some s" "s_devs s = []"
  shows "served le (Rmdir_Session sid) c"
proof -
  let ?c = "c\<lparr>g_IS_sessions := AList.delete sid (g_IS_sessions c)\<rparr>"
  have dev: "dev_at ?c i j = dev_at c i j" for i j using assms(3,4) by (auto simp: dev_at_def delete_conv')
  have "tree_wf ?c" unfolding tree_wf_def dev using assms(1) by (auto simp: tree_wf_def distinct_delete delete_conv' split: if_splits)
  then show ?thesis
    using assms(3,4) by (intro servedI [where r = "Ret 0", OF _ _ _ owned_same [OF assms(2) dev]])
      (simp_all add: IS_session_drop_def IS_session_destroy_def IS_destroy_session_devices_def with_session_def)
qed

lemma show_state_served:
  assumes "tree_wf c" "owned own c" "dev_at c sid did = Some f"
  shows "served le (Show_State sid did) c"
proof -
  obtain s where s: "map_of (g_IS_sessions c) sid = Some s" "map_of (s_devs s) did = Some f" using assms(3) by (rule dev_atE)
  show ?thesis
    by (rule device_cases [OF assms]; intro servedI [where r = "Text (IS_device_state_str f @ [CHR 0x0A])", OF _ _ assms(1,2)])
      (use s in \<open>simp_all add: state_attr_show_def with_session_def with_device_def IS_device_state_str_def\<close>)
qed

lemma op_served:
  assumes "cfg_wf c" "allowed c a"
  shows "served le a c"
proof -
  obtain own where wf: "tree_wf c" "owned own c" using assms(1) by (auto simp: cfg_wf_def)
  show ?thesis
  proof (cases a)
    case (Mkdir_Session ok)
    show ?thesis unfolding Mkdir_Session by (rule mkdir_session_served [OF wf])
  next
    case (Store_Portal sid ok conn_ok page)
    show ?thesis using assms(2) unfolding Store_Portal by (rule store_portal_served [OF wf])
  next
    case (Mkdir_Device sid ok name)
    show ?thesis using assms(2) unfolding Mkdir_Device by (rule mkdir_device_served [OF wf])
  next
    case (Store_Device sid did k page)
    show ?thesis using assms(2) unfolding Store_Device by (rule store_device_served [OF wf])
  next
    case (Show_State sid did)
    then show ?thesis using assms(2) show_state_served [OF wf] by auto
  next
    case (Rmdir_Device sid did)
    then show ?thesis using assms(2) rmdir_device_served [OF wf] by auto
  next
    case (Rmdir_Session sid)
    then show ?thesis using assms(2) rmdir_session_served [OF wf] by auto
  qed
qed

lemma run_served:
  assumes "cfg_wf c" "all_allowed le as c"
  shows "\<exists>rs c'. configfs_run le as c = Inr (rs, c') \<and> list_all2 reply_typed as rs \<and> cfg_wf c'"
  using assms
proof (induction as arbitrary: c)
  case (Cons a as)
  obtain r c' where a: "configfs_op le a c = Inr (r, c')" "reply_typed a r" "cfg_wf c'"
    using op_served [OF Cons.prems(1), of a le] Cons.prems(2) by (auto simp: served_def)
  then obtain rs c'' where "configfs_run le as c' = Inr (rs, c'')" "list_all2 reply_typed as rs" "cfg_wf c''"
    using Cons.IH [OF a(3)] Cons.prems(2) by auto
  with a show ?case by simp
qed simp

lemma init_wf: "IS_init_module err cpus major zero_cfg = (0, c) \<Longrightarrow> cfg_wf c"
  by (auto simp: IS_init_module_def IS_create_configfs_files_def zero_cfg_def cfg_wf_def tree_wf_def owned_def dev_at_def sb_idle_def
      zero_stackbd_def Let_def intro!: exI [of _ None] split: if_splits)

section \<open>Outside the contract\<close>

text \<open>A device before its portal, or after a session could not be created: the connections are not there.\<close>

lemma device_before_portal:
  assumes "map_of (g_IS_sessions c) sid = Some s" "map_of (s_devs s) did = Some f" "s_conns s = Inl e" "0 < submit_queues c"
    and "sscanf_s MAX_IS_DEV_NAME page = Inr (Some name)" "name \<noteq> []" "IS_file_find (s_devs s) name = None"
    and "queues_ok k" "tag_set_ret k = 0" "mq_init_ret k = 0"
  shows "device_attr_store k sid did page c = Inl e"
proof -
  have "sscanf_s MAX_IS_DEV_NAME name = Inr (Some name)" using scanned_name_ok [OF assms(5,6)] sscanf_s_name by blast
  moreover have "for_res IS_init_hctx [0..<submit_queues c] g = Inl e" if "queues_ptr g = Live" "f_conns g = Inl e" for g
    using assms(4) that by (simp add: upt_conv_Cons IS_init_hctx_def deref_def)
  ultimately show ?thesis
    using assms by (simp add: device_attr_store_def with_session_def with_device_def IS_create_device_def IS_setup_queues_def
      IS_register_block_device_def Let_def)
qed

text \<open>The name stays with a device whose creation failed: writing it again is refused, whatever the kernel grants then.\<close>

lemma init_hctx_name: "for_res IS_init_hctx l f = Inr g \<Longrightarrow> file_name g = file_name f"
proof (induction l arbitrary: f)
  case (Cons i l)
  then obtain h where h: "IS_init_hctx i f = Inr h" "for_res IS_init_hctx l h = Inr g" by (auto simp: bind_res_Inr_iff)
  have "file_name h = file_name f"
    using h(1) by (auto simp: IS_init_hctx_def deref_def bind_res_Inr_iff split: ptr_state.splits if_splits)
  then show ?case using Cons.IH [OF h(2)] by simp
qed simp

lemma deref_Inr_iff: "deref p m = Inr x \<longleftrightarrow> p = Live \<and> m = Inr x"
  by (cases p) (simp_all add: deref_def)

lemma create_names:
  assumes "IS_create_device k M n cap conns name idx f sb = Inr (r, i, g, sb')" "name_ok MAX_IS_DEV_NAME name"
  shows "file_name g = name"
proof -
  have backup: "file_name g = file_name h" if "register_backup k h sb = Inr (r, g, sb')" for h r g sb sb'
    using that by (auto simp: register_backup_def deref_Inr_iff bind_res_Inr_iff Let_def split: if_splits)
  have register: "file_name g = file_name h" if "IS_register_block_device k M n h sb = Inr (r, g, sb')" for h r g sb sb'
    using that by (auto simp: IS_register_block_device_def bind_res_Inr_iff Let_def dest!: init_hctx_name backup split: if_splits)
  have queues: "file_name g = file_name h" if "IS_destroy_queues h = Inr g" for g h
    using that by (auto simp: IS_destroy_queues_def bind_res_Inr_iff)
  show ?thesis
    using assms sscanf_s_name [OF assms(2)]
    by (auto simp: IS_create_device_def IS_setup_queues_def bind_res_Inr_iff Let_def dest!: register queues split: if_splits)
qed

lemma found_name: "map_of l d = Some f \<Longrightarrow> file_name f = name \<Longrightarrow> \<exists>d'. IS_file_find l name = Some d'"
  by (induction l) (auto split: if_splits)

lemma failed_name_is_taken:
  assumes "device_attr_store k sid did page c = Inr (r, c')" "sscanf_s MAX_IS_DEV_NAME page = Inr (Some name)" "name \<noteq> []"
  shows "device_attr_store k' sid did page c' = Inr (Ret (-17), c')"
proof -
  have name: "name_ok MAX_IS_DEV_NAME name" using scanned_name_ok [OF assms(2,3)] by blast
  obtain s f where s: "map_of (g_IS_sessions c) sid = Some s" "map_of (s_devs s) did = Some f"
    using assms(1) by (auto simp: device_attr_store_def with_session_def with_device_def split: option.splits)
  note run = device_attr_store_def with_session_def with_device_def
  show ?thesis
  proof (cases "IS_file_find (s_devs s) name = None")
    case False
    then show ?thesis using assms(1,2) s by (auto simp: run)
  next
    case True
    with assms(1,2) s obtain r' i g sb where g: "IS_create_device k (IS_major c) (submit_queues c) (s_cap s) (s_conns s) name (IS_indexes c) f (stackbd c) =
        Inr (r', i, g, sb)" by (auto simp: run bind_res_Inr_iff)
    let ?t = "s\<lparr>s_devs := AList.update did g (s_devs s), s_xdev := if queues_ok k then Some did else s_xdev s\<rparr>"
    have "g_IS_sessions c' = AList.update sid ?t (g_IS_sessions c)"
      using assms(1,2) s True g by (auto simp: run Let_def deref_Inr_iff split: if_splits)
    then have t: "map_of (g_IS_sessions c') sid = Some ?t" "map_of (s_devs ?t) did = Some g" by (simp_all add: update_conv')
    show ?thesis using assms(2) t found_name [OF t(2) create_names [OF g name]] by (auto simp: run)
  qed
qed

text \<open>The trigger thread of a session is not stopped: it goes on with a session that was freed.\<close>

lemma trigger_outlives_session:
  assumes "IS_session_drop sid c = Inr (r, c')" "sid \<in> set (woken c)"
  shows "sid \<in> set (woken c') \<and> map_of (g_IS_sessions c') sid = None"
  using assms by (auto simp: IS_session_drop_def IS_session_destroy_def with_session_def bind_res_Inr_iff delete_conv' split: option.splits)

text \<open>The backup disk has one record: of two devices that run, the second to be removed finds it released.\<close>

lemma second_device_shares_backup:
  assumes "held n f" "held n g" "sb_busy sb"
  shows "\<exists>f' sb'. IS_destroy_device f sb = Inr (f', sb') \<and> IS_destroy_device g sb' = Inl Use_After_Free"
  using assms by (simp add: IS_destroy_device_def IS_unregister_block_device_def del_gendisk_def unregister_backup_def cleanup_sb_queue_def
      unregister_major_def IS_destroy_queues_def kfree_def deref_def held_def sb_busy_def Let_def)

text \<open>When no major number is granted the module is not loaded but its directory stays registered.\<close>

lemma init_keeps_subsys: "major < 0 \<Longrightarrow> \<exists>c'. IS_init_module 0 cpus major c = (major, c') \<and> subsys c'"
  by (simp add: IS_init_module_def IS_create_configfs_files_def)

section \<open>Properties\<close>

text \<open>
  C20: the administration is type safe. From a successful start of the module every sequence of operations that the
  administrator may ask for runs without an invalid access, each operation answering with a value of its type.
  The state stays well formed: every directory has its object, every array of a portal ends with a NUL so that
  the search for a portal stays inside, every device is either fresh, without any kernel object, or
  running and complete; at most one device runs, and the backup disk is in use exactly when one does.
\<close>

theorem configfs_type_safe:
  assumes "IS_init_module err cpus major zero_cfg = (0, c)" "all_allowed le as c"
  shows "\<exists>rs c'. configfs_run le as c = Inr (rs, c') \<and> list_all2 reply_typed as rs \<and> cfg_wf c'"
  using run_served [OF init_wf [OF assms(1)] assms(2)] .

definition demo_ops :: "cfg_op list" where
  "demo_ops = [Mkdir_Session True, Store_Portal 0 True (\<lambda>_. True) (show_portal 2 two_servers @ [CHR 0x0A]), Mkdir_Device 0 True ''infiniswap0'',
     Store_Device 0 1 kern_ex (''is_device'' @ [CHR 0x0A]), Show_State 0 1, Rmdir_Device 0 1, Rmdir_Session 0]"

definition demo_cfg :: cfg where
  "demo_cfg = snd (IS_init_module 0 8 251 zero_cfg)"

lemma all_allowed_step:
  "allowed c a \<Longrightarrow> configfs_op le a c = Inr (r, c') \<Longrightarrow> all_allowed le as c' \<Longrightarrow> all_allowed le (a # as) c" "allowed c a \<Longrightarrow> all_allowed le [a] c"
  by simp_all

lemma demo_start: "IS_init_module 0 8 251 zero_cfg = (0, demo_cfg)"
  by (simp add: demo_cfg_def IS_init_module_def IS_create_configfs_files_def)

text \<open>The portal is stored in the new session.\<close>

lemma demo_portal:
  assumes "g_IS_sessions c = [(0, zero_cfg_session)]" "submit_queues c = 8"
  obtains b t where "portal_attr_store True True (\<lambda>_. True) 0 (show_portal 2 two_servers @ [CHR 0x0A]) c =
     Inr (Ret (int (length (show_portal 2 two_servers @ [CHR 0x0A]))), c\<lparr>g_IS_sessions := [(0, zero_cfg_session\<lparr>s_portal := b,
       s_cap := of_nat STACKBD_SIZE_G * of_nat ONE_GB, s_tables := Some t, s_conns := Inr 8, s_trigger := Live\<rparr>)]\<rparr>)"
proof -
  let ?page = "show_portal 2 two_servers @ [CHR 0x0A]"
  have "2 \<le> length two_servers" by (simp add: two_servers_def)
  then have line: "portal_line ?page" using two_servers_ok unfolding portal_line_def by blast
  have name: "rdma_name ?page = Inr (''rdma://'' @ show_portal 2 two_servers)" by (rule name_of_text [OF two_servers_ok(1,3)])
  obtain b ps n where b: "create_from_portal True True (\<lambda>_. True) 8 (in_array []) (''rdma://'' @ show_portal 2 two_servers) =
      Inr (b, map_option (\<lambda>s. s\<lparr>cb_num := n\<rparr>) (IS_session_create True (\<lambda>_. True) 8 ps))"
    using created_portal [OF line, of True "\<lambda>_. True" 8] name by auto
  obtain t where t: "IS_session_create True (\<lambda>_. True) 8 ps = Some t" "length (IS_conns t) = 8"
    by (simp add: IS_session_create_def Let_def)
  have "cstring (in_array []) 0 = Inr []" using cstring_at [of "[]" 0 "[]" "replicate 1023 NUL"] by (simp add: in_array_def MAX_PORTAL_NAME_def numeral_eq_Suc)
  then have "portal_attr_store True True (\<lambda>_. True) 0 ?page c = Inr (Ret (int (length ?page)), c\<lparr>g_IS_sessions := [(0, zero_cfg_session\<lparr>s_portal := b,
       s_cap := of_nat STACKBD_SIZE_G * of_nat ONE_GB, s_tables := Some (t\<lparr>cb_num := n\<rparr>), s_conns := Inr 8, s_trigger := Live\<rparr>)]\<rparr>)"
    using assms name b t by (simp add: portal_attr_store_def with_session_def zero_cfg_session_def Let_def)
  then show thesis by (rule that)
qed

lemma demo_device:
  "sscanf_s MAX_IS_DEV_NAME (''is_device'' @ [CHR 0x0A]) = Inr (Some ''is_device'')" "name_ok DISK_NAME_LEN ''infiniswap0''"
  "dev_granted kern_ex" "sb_idle zero_stackbd"
  by (simp_all add: sb_idle_def zero_stackbd_def sscanf_s_def isspace_def MAX_IS_DEV_NAME_def DISK_NAME_LEN_def name_ok_def dev_granted_def kern_ex_def)

text \<open>The directory of the device is made, the device started, shown and removed, and then the session.\<close>

lemma demo_device_allowed:
  assumes c: "g_IS_sessions c = [(0, s)]" "submit_queues c = 8" "next_id c = 1" "stackbd c = zero_stackbd"
    and s: "s_devs s = []" "s_conns s = Inr 8" "s_trigger s = Live"
  shows "all_allowed True (drop 2 demo_ops) c"
proof -
  let ?line = "''is_device'' @ [CHR 0x0A]" and ?f = "zero_file\<lparr>dev_state := DEVICE_OPENNING, dev_name := ''infiniswap0''\<rparr>"
  have nm: "name_ok MAX_IS_DEV_NAME ''infiniswap0''" "name_ok MAX_IS_DEV_NAME ''is_device''"
    by (simp_all add: name_ok_def MAX_IS_DEV_NAME_def isspace_def)
  let ?c3 = "c\<lparr>g_IS_sessions := [(0, s\<lparr>s_devs := [(1, ?f)]\<rparr>)], next_id := 2\<rparr>"
  have op3: "configfs_op True (Mkdir_Device 0 True ''infiniswap0'') c = Inr (Group 1, ?c3)"
    using c s nm(1) by (simp add: IS_device_make_group_def IS_set_device_state_def zero_file_def sscanf_s_name with_session_def)
  obtain g sb where g: "IS_create_device kern_ex (IS_major c) 8 (s_cap s) (Inr 8) ''is_device'' (IS_indexes c) ?f zero_stackbd =
      Inr (0, IS_indexes c + 1, g, sb)" "held 8 g" "sb_busy sb" "dev_state g = DEVICE_RUNNING"
    using create_granted [OF demo_device(3) device_ex(8,9) demo_device(4) nm(2), of ?f "IS_major c" 8 "s_cap s" "IS_indexes c"] demo_device(2) by auto
  let ?c4 = "?c3\<lparr>g_IS_sessions := [(0, s\<lparr>s_devs := [(1, g)], s_xdev := Some 1\<rparr>)], IS_indexes := IS_indexes c + 1, stackbd := sb,
    woken := List.insert 0 (woken c)\<rparr>"
  have op4: "configfs_op True (Store_Device 0 1 kern_ex ?line) ?c3 = Inr (Ret 10, ?c4)"
    using s c g(1) demo_device(1) by (simp add: device_attr_store_def with_session_def with_device_def deref_def zero_file_def kern_ex_def)
  have op5: "configfs_op True (Show_State 0 1) ?c4 = Inr (Text (''running'' @ [CHR 0x0A]), ?c4)"
    using g(4) by (simp add: state_attr_show_def with_session_def with_device_def IS_device_state_str_def)
  obtain f' sb' where f': "IS_destroy_device g sb = Inr (f', sb')" using destroy_running [OF g(2,3)] by blast
  let ?c6 = "?c4\<lparr>stackbd := sb', g_IS_sessions := [(0, s\<lparr>s_xdev := Some 1, s_devs := []\<rparr>)]\<rparr>"
  have op6: "configfs_op True (Rmdir_Device 0 1) ?c4 = Inr (Ret 0, ?c6)"
    using f' by (simp add: IS_device_drop_def destroy_listed_def with_session_def with_device_def)
  have a: "allowed c (Mkdir_Device 0 True ''infiniswap0'')" using c(1) demo_device(2) by simp
  have "device_line ?line" using demo_device(1) unfolding device_line_def by blast
  then have a3: "allowed ?c3 (Store_Device 0 1 kern_ex ?line)"
    using s device_ex(8,9) by (auto simp: dev_at_def zero_file_def split: if_splits)
  have a4: "allowed ?c4 (Show_State 0 1)" "allowed ?c4 (Rmdir_Device 0 1)" by (simp_all add: dev_at_def)
  have a5: "allowed ?c6 (Rmdir_Session 0)" by simp
  have "drop 2 demo_ops = [Mkdir_Device 0 True ''infiniswap0'', Store_Device 0 1 kern_ex ?line, Show_State 0 1, Rmdir_Device 0 1, Rmdir_Session 0]"
    by (simp add: demo_ops_def)
  then show ?thesis
    using all_allowed_step(1)[OF a op3 all_allowed_step(1)[OF a3 op4 all_allowed_step(1)[OF a4(1) op5 all_allowed_step(1)[OF a4(2) op6
      all_allowed_step(2)[OF a5]]]]] by (simp only:)
qed

lemma demo_allowed: "all_allowed True demo_ops demo_cfg"
proof -
  let ?page = "show_portal 2 two_servers @ [CHR 0x0A]"
  let ?c1 = "demo_cfg\<lparr>g_IS_sessions := [(0, zero_cfg_session)], created_portals := 1, next_id := 1\<rparr>"
  have d: "g_IS_sessions demo_cfg = []" "submit_queues demo_cfg = 8" "next_id demo_cfg = 0" "created_portals demo_cfg = 0" "stackbd demo_cfg = zero_stackbd"
    by (simp_all add: demo_cfg_def IS_init_module_def IS_create_configfs_files_def zero_cfg_def)
  have op1: "configfs_op True (Mkdir_Session True) demo_cfg = Inr (Group 0, ?c1)" by (simp add: IS_session_make_group_def d)
  let ?s = "\<lambda>b t. zero_cfg_session\<lparr>s_portal := b, s_cap := of_nat STACKBD_SIZE_G * of_nat ONE_GB, s_tables := Some t, s_conns := Inr 8, s_trigger := Live\<rparr>"
  obtain b t where t: "portal_attr_store True True (\<lambda>_. True) 0 ?page ?c1 = Inr (Ret (int (length ?page)), ?c1\<lparr>g_IS_sessions := [(0, ?s b t)]\<rparr>)"
    by (rule demo_portal [of ?c1]) (use d(2) in simp_all)
  have "2 \<le> length two_servers" by (simp add: two_servers_def)
  then have "portal_line ?page" using two_servers_ok unfolding portal_line_def by blast
  then have a1: "allowed ?c1 (Store_Portal 0 True (\<lambda>_. True) ?page)" by (simp add: zero_cfg_session_def)
  have op2: "configfs_op True (Store_Portal 0 True (\<lambda>_. True) ?page) ?c1 = Inr (Ret (int (length ?page)), ?c1\<lparr>g_IS_sessions := [(0, ?s b t)]\<rparr>)"
    unfolding configfs_op.simps by (rule t)
  have ops: "demo_ops = Mkdir_Session True # Store_Portal 0 True (\<lambda>_. True) ?page # drop 2 demo_ops" by (simp add: demo_ops_def)
  have rest: "all_allowed True (drop 2 demo_ops) (?c1\<lparr>g_IS_sessions := [(0, ?s b t)]\<rparr>)"
    using d by (intro demo_device_allowed [where s = "?s b t"]) (simp_all add: zero_cfg_session_def)
  show ?thesis by (subst ops) (rule all_allowed_step(1)[OF _ op1 all_allowed_step(1)[OF a1 op2 rest]], simp)
qed

theorem configfs_type_safe_witness:
  "\<exists>rs c'. configfs_run True demo_ops (snd (IS_init_module 0 8 251 zero_cfg)) = Inr (rs, c') \<and> length rs = 7 \<and> cfg_wf c'"
proof -
  obtain rs c' where r: "configfs_run True demo_ops demo_cfg = Inr (rs, c')" "list_all2 reply_typed demo_ops rs" "cfg_wf c'"
    using configfs_type_safe [OF demo_start demo_allowed] by blast
  have "length rs = length demo_ops" using r(2) by (simp add: list_all2_lengthD)
  then have "length rs = 7" by (simp add: demo_ops_def)
  with r show ?thesis by (auto simp: demo_cfg_def)
qed

end
