(* ===== verification/Sim_Page.thy ===== *)
theory Sim_Page
  imports IS_Prelude
begin

text \<open>
  The paging simulator (\<open>test/simulation\<close>): a virtual memory whose pages live in a smaller physical memory
  and in swap files, one per page, with the clock algorithm choosing the page to evict. \<open>get\<close> and \<open>put\<close> are
  shown to behave like one array of bytes. The model is of \<open>DEVICE\<close> 1, the default: files in a directory.
\<close>

section \<open>Data\<close>

definition PAGE_SIZE :: nat where "PAGE_SIZE = 4096"

record page_entry =
  pframe :: u32
  cnext :: u32
  clear :: int
  dirty :: int

text \<open>
  The variables of \<open>sim_page.h\<close>, with the pointers into the page table as indices, and the swap files by the
  number of their page.
\<close>

record sim =
  PHYS_MEM_SIZE :: u32
  phys_mem :: "u8 list"
  pgtable :: "page_entry list"
  last_c :: nat
  curr_c :: nat
  swap_files :: "nat \<rightharpoonup> u8 list"

definition index :: "u32 \<Rightarrow> u32" where "index addr = addr div of_nat PAGE_SIZE"
definition offset :: "u32 \<Rightarrow> u32" where "offset addr = addr mod of_nat PAGE_SIZE"
definition address :: "u32 \<Rightarrow> u32" where "address frame = frame * of_nat PAGE_SIZE"

section \<open>Start and end\<close>

text \<open>Anonymous memory is clear; the allocations are taken to succeed, else the program ends.\<close>

definition init_phys_mem :: "u32 \<Rightarrow> sim \<Rightarrow> sim" where
  "init_phys_mem phys_mem_size m = m\<lparr>PHYS_MEM_SIZE := phys_mem_size, phys_mem := replicate (unat phys_mem_size) 0\<rparr>"

definition init_entry :: "nat \<Rightarrow> nat \<Rightarrow> page_entry" where
  "init_entry init_np i =
     (if i < init_np then \<lparr>pframe = of_nat i, cnext = of_nat ((i + 1) mod init_np), clear = 1, dirty = 0\<rparr>
      else \<lparr>pframe = 0, cnext = 0, clear = -1, dirty = 0\<rparr>)"

definition init_page_table :: "u32 \<Rightarrow> sim \<Rightarrow> sim" where
  "init_page_table vir_mem_size m =
     (let num_pages = unat (vir_mem_size div of_nat PAGE_SIZE); init_np = unat (PHYS_MEM_SIZE m div of_nat PAGE_SIZE)
      in m\<lparr>pgtable := map (init_entry init_np) [0..<num_pages], last_c := init_np - 1, curr_c := 0\<rparr>)"

text \<open>The end: \<open>rm\<close> removes all swap files of the directory.\<close>

definition destroy_phys_mem :: "sim \<Rightarrow> sim" where
  "destroy_phys_mem m = m\<lparr>phys_mem := []\<rparr>"

definition destroy_page_table :: "sim \<Rightarrow> sim" where
  "destroy_page_table m = m\<lparr>pgtable := [], swap_files := Map.empty\<rparr>"

section \<open>Moving pages\<close>

text \<open>\<open>io v\<close>: the file of page \<open>v\<close> can be opened, read and written; otherwise \<open>check\<close> ends the program.\<close>

definition page_load :: "(nat \<Rightarrow> bool) \<Rightarrow> nat \<Rightarrow> u32 \<Rightarrow> sim \<Rightarrow> sim res" where
  "page_load io vframe pf m =
     (let a = unat (address pf)
      in bind_res (case swap_files m vframe of
              None \<Rightarrow> Inr (replicate PAGE_SIZE 0)
            | Some pg \<Rightarrow> if io vframe \<and> PAGE_SIZE \<le> length pg then Inr (take PAGE_SIZE pg) else Inl Died) (\<lambda>pg.
         if length (phys_mem m) < a + PAGE_SIZE then Inl Out_Of_Bounds
         else Inr (m\<lparr>phys_mem := take a (phys_mem m) @ pg @ drop (a + PAGE_SIZE) (phys_mem m)\<rparr>)))"

text \<open>The file is opened without truncation and its first page written.\<close>

definition page_flush :: "(nat \<Rightarrow> bool) \<Rightarrow> nat \<Rightarrow> sim \<Rightarrow> sim res" where
  "page_flush io vframe m =
     bind_res (arr_get (pgtable m) (int vframe)) (\<lambda>e.
       let a = unat (address (pframe e)); old = (case swap_files m vframe of None \<Rightarrow> [] | Some pg \<Rightarrow> pg)
       in if length (phys_mem m) < a + PAGE_SIZE then Inl Out_Of_Bounds
          else if \<not> io vframe then Inl Died
          else Inr (m\<lparr>swap_files := (swap_files m)(vframe \<mapsto> take PAGE_SIZE (drop a (phys_mem m)) @ drop PAGE_SIZE old)\<rparr>))"

text \<open>
  The hand of the clock. Every round clears a mark that was set, so that the loop ends on every page table.
\<close>

function clock_hand :: "sim \<Rightarrow> sim res" where
  "clock_hand m =
     (if curr_c m < length (pgtable m)
      then let e = pgtable m ! curr_c m
           in if clear e \<noteq> 0
              then clock_hand (m\<lparr>pgtable := (pgtable m)[curr_c m := e\<lparr>clear := 0\<rparr>], last_c := curr_c m, curr_c := unat (cnext e)\<rparr>)
              else Inr m
      else Inl Out_Of_Bounds)"
  by pat_completeness auto

lemma filter_update_less:
  assumes "i < length l" "P (l ! i)" "\<not> P x"
  shows "length (filter P (l[i := x])) < length (filter P l)"
  using assms by (subst (2) id_take_nth_drop [OF assms(1)]) (simp add: upd_conv_take_nth_drop)

termination clock_hand
  by (relation "measure (\<lambda>m. length (filter (\<lambda>e. clear e \<noteq> 0) (pgtable m)))") (simp_all add: filter_update_less)

definition upd_entry :: "nat \<Rightarrow> (page_entry \<Rightarrow> page_entry) \<Rightarrow> sim \<Rightarrow> sim res" where
  "upd_entry v f m =
     bind_res (arr_get (pgtable m) (int v)) (\<lambda>e. bind_res (arr_set (pgtable m) (int v) (f e)) (\<lambda>t. Inr (m\<lparr>pgtable := t\<rparr>)))"

text \<open>The part of \<open>page_fault\<close> behind the loop, and the whole.\<close>

definition replace_page :: "(nat \<Rightarrow> bool) \<Rightarrow> nat \<Rightarrow> sim \<Rightarrow> sim res" where
  "replace_page io vframe m =
     bind_res (arr_get (pgtable m) (int (curr_c m))) (\<lambda>e.
     bind_res (if dirty e = 1 then page_flush io (curr_c m) m else Inr m) (\<lambda>m.
     bind_res (upd_entry (curr_c m) (\<lambda>e. e\<lparr>clear := -1\<rparr>) m) (\<lambda>m.
     bind_res (page_load io vframe (pframe e) m) (\<lambda>m.
     bind_res (upd_entry (last_c m) (\<lambda>e. e\<lparr>cnext := of_nat vframe\<rparr>) m) (\<lambda>m.
     bind_res (arr_get (pgtable m) (int (curr_c m))) (\<lambda>e.
     bind_res (upd_entry vframe (\<lambda>pe. pe\<lparr>pframe := pframe e, clear := 1, dirty := 0, cnext := cnext e\<rparr>) m) (\<lambda>m.
       Inr (m\<lparr>curr_c := vframe\<rparr>))))))))"

definition page_fault :: "(nat \<Rightarrow> bool) \<Rightarrow> nat \<Rightarrow> sim \<Rightarrow> sim res" where
  "page_fault io vframe m = bind_res (clock_hand m) (replace_page io vframe)"

section \<open>Access\<close>

definition get :: "(nat \<Rightarrow> bool) \<Rightarrow> u32 \<Rightarrow> sim \<Rightarrow> (u8 \<times> sim) res" where
  "get io vaddr m =
     (let vframe = unat (index vaddr)
      in bind_res (arr_get (pgtable m) (int vframe)) (\<lambda>pe.
         bind_res (if clear pe = -1 then page_fault io vframe m else Inr m) (\<lambda>m.
         bind_res (upd_entry vframe (\<lambda>pe. pe\<lparr>clear := 1\<rparr>) m) (\<lambda>m.
         bind_res (arr_get (pgtable m) (int vframe)) (\<lambda>pe.
         bind_res (arr_get (phys_mem m) (uint (address (pframe pe) + offset vaddr))) (\<lambda>b. Inr (b, m)))))))"

definition put :: "(nat \<Rightarrow> bool) \<Rightarrow> u32 \<Rightarrow> u8 \<Rightarrow> sim \<Rightarrow> sim res" where
  "put io vaddr b m =
     (let vframe = unat (index vaddr)
      in bind_res (arr_get (pgtable m) (int vframe)) (\<lambda>pe.
         bind_res (if clear pe = -1 then page_fault io vframe m else Inr m) (\<lambda>m.
         bind_res (upd_entry vframe (\<lambda>pe. pe\<lparr>dirty := 1, clear := 1\<rparr>) m) (\<lambda>m.
         bind_res (arr_get (pgtable m) (int vframe)) (\<lambda>pe.
         bind_res (arr_set (phys_mem m) (uint (address (pframe pe) + offset vaddr)) b) (\<lambda>p. Inr (m\<lparr>phys_mem := p\<rparr>)))))))"

section \<open>The ring of resident pages\<close>

text \<open>The pages in memory form a ring through \<open>cnext\<close>; \<open>R\<close> lists it from the hand on.\<close>

definition ring :: "nat list \<Rightarrow> sim \<Rightarrow> bool" where
  "ring R m \<longleftrightarrow> R \<noteq> [] \<and> distinct R \<and> hd R = curr_c m \<and> (\<forall>v \<in> set R. v < length (pgtable m)) \<and>
     (\<forall>i < length R. unat (cnext (pgtable m ! (R ! i))) = R ! (Suc i mod length R))"

definition clear_all :: "nat list \<Rightarrow> page_entry list \<Rightarrow> page_entry list" where
  "clear_all vs t = fold (\<lambda>v t. t[v := (t ! v)\<lparr>clear := 0\<rparr>]) vs t"

lemma clear_all_length [simp]: "length (clear_all vs t) = length t"
  unfolding clear_all_def by (induction vs arbitrary: t) simp_all

lemma clear_all_nth: "i < length t \<Longrightarrow> clear_all vs t ! i = (if i \<in> set vs then (t ! i)\<lparr>clear := 0\<rparr> else t ! i)"
  unfolding clear_all_def
proof (induction vs arbitrary: t)
  case (Cons a vs)
  then show ?case by (cases "a = i") simp_all
qed simp

text \<open>The state after the hand has passed the first \<open>k\<close> pages of the ring.\<close>

definition swept :: "nat list \<Rightarrow> nat \<Rightarrow> sim \<Rightarrow> sim" where
  "swept R k m = m\<lparr>pgtable := clear_all (take k R) (pgtable m), last_c := (if k = 0 then last_c m else R ! (k - 1)),
     curr_c := R ! (k mod length R)\<rparr>"

lemma swept_step:
  assumes "ring R m" "k < length R" "clear (pgtable m ! (R ! k)) \<noteq> 0"
  shows "clock_hand (swept R k m) = clock_hand (swept R (Suc k) m)"
proof -
  have v: "R ! k < length (pgtable m)" "R ! k \<notin> set (take k R)" "unat (cnext (pgtable m ! (R ! k))) = R ! (Suc k mod length R)"
    using assms(1) nth_mem [OF assms(2)] assms(2) by (auto simp: ring_def in_set_conv_nth nth_eq_iff_index_eq)
  have next_table: "(clear_all (take k R) (pgtable m))[R ! k := (pgtable m ! (R ! k))\<lparr>clear := 0\<rparr>] = clear_all (take (Suc k) R) (pgtable m)"
    using v by (intro nth_equalityI) (auto simp: clear_all_nth nth_list_update take_Suc_conv_app_nth [OF assms(2)])
  show ?thesis
    by (subst clock_hand.simps) (use assms(2,3) v next_table in \<open>simp add: swept_def clear_all_nth Let_def\<close>)
qed

lemma clock_hand_swept:
  assumes "ring R m" "k \<le> length R" "\<And>i. i < k \<Longrightarrow> clear (pgtable m ! (R ! i)) \<noteq> 0"
  shows "clock_hand m = clock_hand (swept R k m)"
  using assms(2,3)
proof (induction k)
  case 0
  have "R ! 0 = curr_c m" using assms(1) hd_conv_nth [of R] by (simp add: ring_def)
  then have "swept R 0 m = m" by (simp add: swept_def clear_all_def)
  then show ?case by simp
next
  case (Suc k)
  then show ?case using swept_step [OF assms(1), of k] by simp
qed

text \<open>
  The second chance: the hand stops at the first page whose mark is clear, or, after a whole turn, where it began.
\<close>

definition chance :: "nat list \<Rightarrow> sim \<Rightarrow> nat" where
  "chance R m = length (takeWhile (\<lambda>v. clear (pgtable m ! v) \<noteq> 0) R)"

lemma clock_hand_stops:
  assumes "ring R m"
  shows "clock_hand m = Inr (swept R (chance R m) m)"
proof -
  let ?P = "\<lambda>v. clear (pgtable m ! v) \<noteq> 0" let ?k = "chance R m"
  have k: "?k \<le> length R" unfolding chance_def by (rule length_takeWhile_le)
  have before: "?P (R ! i)" if "i < ?k" for i using that nth_mem [of i "takeWhile ?P R"] unfolding chance_def
    by (metis set_takeWhileD takeWhile_nth)
  have R: "0 < length R" "?k mod length R < length R" "R ! (?k mod length R) < length (pgtable m)" using assms by (auto simp: ring_def)
  have "clear (clear_all (take ?k R) (pgtable m) ! (R ! (?k mod length R))) = 0"
  proof (cases "?k = length R")
    case True
    then show ?thesis using R by (simp add: clear_all_nth)
  next
    case False
    then have "?k < length R" using k by simp
    then show ?thesis using R nth_length_takeWhile [of ?P R] unfolding chance_def by (auto simp: clear_all_nth)
  qed
  then have "clock_hand (swept R ?k m) = Inr (swept R ?k m)" using R by (subst clock_hand.simps) (simp add: swept_def)
  with clock_hand_swept [OF assms k before] show ?thesis by simp
qed

lemma ring_swept:
  assumes "ring R m" "k \<le> length R"
  shows "ring (rotate k R) (swept R k m)" "0 < k \<Longrightarrow> last_c (swept R k m) = last (rotate k R)"
proof -
  have R: "R \<noteq> []" "distinct R" using assms(1) by (simp_all add: ring_def)
  have "unat (cnext (clear_all (take k R) (pgtable m) ! (rotate k R ! i))) = rotate k R ! (Suc i mod length R)" if i: "i < length R" for i
  proof -
    let ?j = "(k + i) mod length R"
    have j: "?j < length R" "R ! ?j < length (pgtable m)" using R i assms(1) by (auto simp: ring_def)
    then have "unat (cnext (pgtable m ! (R ! ?j))) = R ! (Suc ?j mod length R)" using assms(1) by (simp add: ring_def)
    moreover have "Suc ?j mod length R = (k + Suc i mod length R) mod length R" by (simp add: mod_simps)
    ultimately show ?thesis using i j R by (simp add: nth_rotate clear_all_nth)
  qed
  then show "ring (rotate k R) (swept R k m)"
    using assms(1) R by (auto simp: ring_def swept_def hd_rotate_conv_nth)
  show "last_c (swept R k m) = last (rotate k R)" if "0 < k"
  proof -
    have "last (rotate k R) = R ! ((k + (length R - 1)) mod length R)" using R by (simp add: last_conv_nth nth_rotate)
    moreover have "(k + (length R - 1)) mod length R = k - 1"
      using that assms(2) R by (metis Nat.add_diff_assoc One_nat_def Suc_leI add_diff_cancel_right' diff_Suc_less diff_add_assoc2 less_le_trans
        length_greater_0_conv mod_add_self2 mod_less)
    ultimately show ?thesis using that by (simp add: swept_def)
  qed
qed

section \<open>What the pages hold\<close>

definition page_at :: "nat \<Rightarrow> u8 list \<Rightarrow> u8 list" where
  "page_at f xs = take PAGE_SIZE (drop (f * PAGE_SIZE) xs)"

definition stored :: "sim \<Rightarrow> nat \<Rightarrow> u8 list" where
  "stored m v = (case swap_files m v of None \<Rightarrow> replicate PAGE_SIZE 0 | Some pg \<Rightarrow> pg)"

definition frame :: "sim \<Rightarrow> nat \<Rightarrow> nat" where
  "frame m v = unat (pframe (pgtable m ! v))"

text \<open>The bytes of a page, wherever they are.\<close>

definition content :: "sim \<Rightarrow> nat \<Rightarrow> u8 list" where
  "content m v = (if clear (pgtable m ! v) = -1 then stored m v else page_at (frame m v) (phys_mem m))"

text \<open>
  The pages of the ring have frames of their own, and the file of a page that was not written since it was loaded
  is up to date.
\<close>

definition pages_ok :: "nat list \<Rightarrow> sim \<Rightarrow> bool" where
  "pages_ok R m \<longleftrightarrow> length (pgtable m) < 2 ^ 32 \<and> length (phys_mem m) < 2 ^ 32 \<and> inj_on (frame m) (set R) \<and>
     (\<forall>v < length (pgtable m). length (stored m v) = PAGE_SIZE \<and>
        (if v \<in> set R then clear (pgtable m ! v) \<in> {0, 1} \<and> frame m v * PAGE_SIZE + PAGE_SIZE \<le> length (phys_mem m) \<and>
           (dirty (pgtable m ! v) \<noteq> 1 \<longrightarrow> page_at (frame m v) (phys_mem m) = stored m v)
         else clear (pgtable m ! v) = -1))"

definition sim_wf :: "nat list \<Rightarrow> sim \<Rightarrow> bool" where
  "sim_wf R m \<longleftrightarrow> ring R m \<and> pages_ok R m \<and> clear (pgtable m ! hd R) = 1"

definition put_page :: "nat \<Rightarrow> u8 list \<Rightarrow> u8 list \<Rightarrow> u8 list" where
  "put_page f pg xs = take (f * PAGE_SIZE) xs @ pg @ drop (f * PAGE_SIZE + PAGE_SIZE) xs"

lemma put_page_length: "length pg = PAGE_SIZE \<Longrightarrow> f * PAGE_SIZE + PAGE_SIZE \<le> length xs \<Longrightarrow> length (put_page f pg xs) = length xs"
  by (simp add: put_page_def)

lemma page_at_put_page:
  assumes "length pg = PAGE_SIZE" "f * PAGE_SIZE + PAGE_SIZE \<le> length xs" "g * PAGE_SIZE + PAGE_SIZE \<le> length xs"
  shows "page_at g (put_page f pg xs) = (if g = f then pg else page_at g xs)"
proof (cases g f rule: linorder_cases)
  case less
  then have "Suc g * PAGE_SIZE \<le> f * PAGE_SIZE" by (intro mult_le_mono1) simp
  then show ?thesis using less assms by (simp add: page_at_def put_page_def drop_take)
next
  case equal
  then show ?thesis using assms by (simp add: page_at_def put_page_def)
next
  case greater
  then have "Suc f * PAGE_SIZE \<le> g * PAGE_SIZE" by (intro mult_le_mono1) simp
  then show ?thesis using greater assms by (simp add: page_at_def put_page_def)
qed

lemma unat_address: "unat f * PAGE_SIZE + PAGE_SIZE \<le> n \<Longrightarrow> n < 2 ^ 32 \<Longrightarrow> unat (address f) = unat f * PAGE_SIZE"
  by (simp add: address_def unat_word_ariths PAGE_SIZE_def)

lemma swept_keeps:
  assumes "pages_ok R m" "\<forall>v \<in> set R. v < length (pgtable m)"
  shows "pages_ok (rotate k R) (swept R k m)" "v < length (pgtable m) \<Longrightarrow> content (swept R k m) v = content m v"
proof -
  have T: "pgtable (swept R k m) = clear_all (take k R) (pgtable m)" "phys_mem (swept R k m) = phys_mem m"
    "swap_files (swept R k m) = swap_files m" by (simp_all add: swept_def)
  have fr: "frame (swept R k m) v = frame m v" if "v < length (pgtable m)" for v using that by (simp add: frame_def T clear_all_nth)
  have st: "stored (swept R k m) v = stored m v" for v by (simp add: stored_def T)
  have "inj_on (frame (swept R k m)) (set R) = inj_on (frame m) (set R)" using assms(2) fr by (intro inj_on_cong) auto
  then show "pages_ok (rotate k R) (swept R k m)"
    using assms(1) in_set_takeD [of _ k R] unfolding pages_ok_def by (auto simp: T st fr clear_all_nth)
  show "content (swept R k m) v = content m v" if "v < length (pgtable m)"
    using that assms(1) in_set_takeD [of v k R] fr [OF that] by (auto simp: content_def T st clear_all_nth pages_ok_def)
qed

section \<open>Replacing a page\<close>

text \<open>The entries after page \<open>v\<close> took the frame of page \<open>c\<close>, whose predecessor in the ring is \<open>l\<close>.\<close>

definition new_entry :: "nat \<Rightarrow> nat \<Rightarrow> nat \<Rightarrow> page_entry list \<Rightarrow> nat \<Rightarrow> page_entry" where
  "new_entry c l v T u =
     (let nx = (if l = c then of_nat v else cnext (T ! c))
      in if u = v then \<lparr>pframe = pframe (T ! c), cnext = nx, clear = 1, dirty = 0\<rparr>
         else if u = c then (T ! c)\<lparr>clear := -1, cnext := nx\<rparr>
         else if u = l then (T ! l)\<lparr>cnext := of_nat v\<rparr> else T ! u)"

definition replaced :: "nat \<Rightarrow> nat \<Rightarrow> nat \<Rightarrow> sim \<Rightarrow> sim \<Rightarrow> bool" where
  "replaced c l v m m' \<longleftrightarrow> pgtable m' = map (new_entry c l v (pgtable m)) [0..<length (pgtable m)] \<and>
     phys_mem m' = put_page (frame m c) (stored m v) (phys_mem m) \<and>
     swap_files m' = (if dirty (pgtable m ! c) = 1 then (swap_files m)(c \<mapsto> page_at (frame m c) (phys_mem m)) else swap_files m) \<and> curr_c m' = v"

lemma page_load_ok:
  assumes "length (stored m v) = PAGE_SIZE" "unat f * PAGE_SIZE + PAGE_SIZE \<le> length (phys_mem m)" "length (phys_mem m) < 2 ^ 32" "io v"
  shows "page_load io v f m = Inr (m\<lparr>phys_mem := put_page (unat f) (stored m v) (phys_mem m)\<rparr>)"
  using assms unat_address [OF assms(2,3)] by (auto simp: page_load_def stored_def put_page_def Let_def split: option.splits)

lemma page_flush_ok:
  assumes "c < length (pgtable m)" "length (stored m c) = PAGE_SIZE" "frame m c * PAGE_SIZE + PAGE_SIZE \<le> length (phys_mem m)"
    "length (phys_mem m) < 2 ^ 32" "io c"
  shows "page_flush io c m = Inr (m\<lparr>swap_files := (swap_files m)(c \<mapsto> page_at (frame m c) (phys_mem m))\<rparr>)"
proof -
  have "drop PAGE_SIZE (case swap_files m c of None \<Rightarrow> [] | Some pg \<Rightarrow> pg) = []" using assms(2) by (simp add: stored_def split: option.splits)
  then show ?thesis using assms unat_address [OF assms(3)[unfolded frame_def] assms(4)] by (simp add: page_flush_def page_at_def frame_def Let_def)
qed

lemma replace_page_run:
  assumes R: "ring (c # Q) m" "last_c m = last (c # Q)" "pages_ok (c # Q) m" and v: "v < length (pgtable m)" "v \<notin> set (c # Q)" and io: "\<forall>u. io u"
  shows "\<exists>m'. replace_page io v m = Inr m' \<and> replaced c (last (c # Q)) v m m'"
proof -
  let ?T = "pgtable m" and ?l = "last (c # Q)"
  have c: "c < length ?T" "curr_c m = c" "?l < length ?T" "?l \<noteq> v" "c \<noteq> v" using R(1) v(2) last_in_set [of "c # Q"] by (auto simp: ring_def)
  have ok: "length (stored m c) = PAGE_SIZE" "length (stored m v) = PAGE_SIZE" "frame m c * PAGE_SIZE + PAGE_SIZE \<le> length (phys_mem m)"
    "length (phys_mem m) < 2 ^ 32" using R(3) c(1) v(1) by (auto simp: pages_ok_def)
  define files where "files = (if dirty (?T ! c) = 1 then (swap_files m)(c \<mapsto> page_at (frame m c) (phys_mem m)) else swap_files m)"
  define m1 where "m1 = m\<lparr>swap_files := files\<rparr>"
  have flush: "(if dirty (?T ! c) = 1 then page_flush io c m else Inr m) = Inr m1"
    using page_flush_ok [OF c(1) ok(1,3,4)] io by (simp add: m1_def files_def)
  define m2 where "m2 = m1\<lparr>pgtable := ?T[c := (?T ! c)\<lparr>clear := -1\<rparr>]\<rparr>"
  have drop: "upd_entry c (\<lambda>e. e\<lparr>clear := -1\<rparr>) m1 = Inr m2" using c(1) by (simp add: upd_entry_def m1_def m2_def)
  have st: "stored m2 v = stored m v" using c(5) by (simp add: stored_def m2_def m1_def files_def)
  define m3 where "m3 = m2\<lparr>phys_mem := put_page (frame m c) (stored m v) (phys_mem m)\<rparr>"
  have load: "page_load io v (pframe (?T ! c)) m2 = Inr m3"
    using page_load_ok [of m2 v "pframe (?T ! c)" io] ok(2-4) st io by (simp add: m3_def m2_def m1_def frame_def)
  define l where "l = ?l"
  define T3 where "T3 = ?T[c := (?T ! c)\<lparr>clear := -1\<rparr>]"
  define T4 where "T4 = T3[l := (T3 ! l)\<lparr>cnext := of_nat v\<rparr>]"
  define T5 where "T5 = T4[v := (T4 ! v)\<lparr>pframe := pframe (T4 ! c), clear := 1, dirty := 0, cnext := cnext (T4 ! c)\<rparr>]"
  have len: "length T3 = length ?T" "length T4 = length ?T" by (simp_all add: T3_def T4_def)
  have cur: "curr_c m1 = c" "curr_c m3 = c" "last_c m3 = l" "pgtable m3 = T3"
    using c(2) R(2) by (simp_all add: m3_def m2_def m1_def l_def T3_def)
  have link: "upd_entry l (\<lambda>e. e\<lparr>cnext := of_nat v\<rparr>) m3 = Inr (m3\<lparr>pgtable := T4\<rparr>)"
    using c(3) len cur(4) by (simp add: upd_entry_def T4_def l_def)
  have enter: "upd_entry v (\<lambda>pe. pe\<lparr>pframe := pframe (T4 ! c), clear := 1, dirty := 0, cnext := cnext (T4 ! c)\<rparr>) (m3\<lparr>pgtable := T4\<rparr>) =
      Inr (m3\<lparr>pgtable := T5\<rparr>)" using v(1) len by (simp add: upd_entry_def T5_def)
  have "arr_get (pgtable m) (int c) = Inr (?T ! c)" "arr_get T4 (int c) = Inr (T4 ! c)" using c(1) len by simp_all
  then have run: "replace_page io v m = Inr (m3\<lparr>pgtable := T5, curr_c := v\<rparr>)"
    unfolding replace_page_def c(2) using c(2) by (simp add: flush cur drop load link enter)
  have "T5 = map (new_entry c ?l v ?T) [0..<length ?T]"
    unfolding T5_def T4_def T3_def l_def [symmetric] using c(1,3-5) [folded l_def] v(1)
    by (intro nth_equalityI) (simp_all add: new_entry_def nth_list_update Let_def)
  then show ?thesis using run by (simp add: replaced_def m3_def m2_def m1_def files_def)
qed

lemma replaced_ring:
  assumes R: "ring (c # Q) m" "length (pgtable m) < 2 ^ 32" and v: "v < length (pgtable m)" "v \<notin> set (c # Q)" and m': "replaced c (last (c # Q)) v m m'"
  shows "ring (v # Q) m'"
proof -
  let ?l = "last (c # Q)" and ?n = "length (c # Q)"
  have T: "pgtable m' ! u = new_entry c ?l v (pgtable m) u" if "u < length (pgtable m)" for u using m' that by (simp add: replaced_def)
  have old: "distinct (c # Q)" "\<And>u. u \<in> set (c # Q) \<Longrightarrow> u < length (pgtable m)"
    "\<And>i. i < ?n \<Longrightarrow> unat (cnext (pgtable m ! ((c # Q) ! i))) = (c # Q) ! (Suc i mod ?n)" using R(1) by (auto simp: ring_def)
  have nv: "unat (of_nat v :: u32) = v" using v(1) R(2) by (simp add: unat_of_nat)
  have l: "?l = (c # Q) ! length Q" by (simp add: last_conv_nth)
  have "unat (cnext (pgtable m' ! ((v # Q) ! i))) = (v # Q) ! (Suc i mod ?n)" if i: "i < ?n" for i
  proof (cases i)
    case 0
    show ?thesis
    proof (cases "Q = []")
      case True
      then show ?thesis using 0 nv T [OF v(1)] by (simp add: new_entry_def)
    next
      case False
      then have "?l \<noteq> c" using old(1) last_in_set [of Q] by auto
      then show ?thesis using 0 False old(3)[of 0] T [OF v(1)] by (simp add: new_entry_def)
    qed
  next
    case (Suc j)
    let ?u = "Q ! j"
    have u: "?u \<noteq> c" "?u \<noteq> v" "?u < length (pgtable m)" using i Suc old(1,2) v(2) nth_mem [of j Q] by auto
    show ?thesis
    proof (cases "Suc j = length Q")
      case True
      then have at: "?u = ?l" "(v # Q) ! i = ?l" "Suc i mod ?n = 0" using l Suc by (simp_all flip: True)
      show ?thesis using u T [OF u(3)] nv unfolding at(2,3) at(1) by (simp add: new_entry_def del: last.simps)
    next
      case False
      then have lt: "Suc j < length Q" using i Suc by simp
      then have "?u \<noteq> ?l" using old(1) l nth_eq_iff_index_eq [of Q j "length Q - 1"] by (auto simp: nth_Cons')
      moreover have "unat (cnext (pgtable m ! ?u)) = Q ! Suc j" using old(3)[of "Suc j"] lt by simp
      ultimately show ?thesis using Suc lt u T [OF u(3)] by (simp add: new_entry_def del: last.simps)
    qed
  qed
  then show ?thesis using old v m' by (auto simp: ring_def replaced_def)
qed

text \<open>The page that was replaced is in its file now, the page that was asked for in the frame, all others where they were.\<close>

lemma replaced_facts:
  assumes R: "ring (c # Q) m" "pages_ok (c # Q) m" and v: "v < length (pgtable m)" "v \<notin> set (c # Q)" and m': "replaced c (last (c # Q)) v m m'"
  shows "length (pgtable m') = length (pgtable m)" "length (phys_mem m') = length (phys_mem m)"
    and "\<And>w. w < length (pgtable m) \<Longrightarrow> w \<noteq> v \<Longrightarrow> w \<noteq> c \<Longrightarrow>
       frame m' w = frame m w \<and> clear (pgtable m' ! w) = clear (pgtable m ! w) \<and> dirty (pgtable m' ! w) = dirty (pgtable m ! w)"
    and "frame m' v = frame m c" "clear (pgtable m' ! v) = 1" "dirty (pgtable m' ! v) = 0" "clear (pgtable m' ! c) = -1"
    and "page_at (frame m c) (phys_mem m') = stored m v" "content m v = stored m v"
    and "\<And>w. w \<in> set Q \<Longrightarrow> frame m w \<noteq> frame m c \<and> page_at (frame m w) (phys_mem m') = page_at (frame m w) (phys_mem m)"
    and "\<And>w. stored m' w = (if w = c then content m c else stored m w)" "length (content m c) = PAGE_SIZE"
proof -
  let ?l = "last (c # Q)" and ?f = "frame m c"
  have c: "c < length (pgtable m)" "c \<noteq> v" "c \<notin> set Q" "?l \<noteq> v" using R(1) v(2) last_in_set [of "c # Q"] by (auto simp: ring_def)
  have T: "pgtable m' ! w = new_entry c ?l v (pgtable m) w" if "w < length (pgtable m)" for w using m' that by (simp add: replaced_def)
  show "length (pgtable m') = length (pgtable m)" using m' by (simp add: replaced_def)
  note ok = R(2)[unfolded pages_ok_def]
  have lv: "length (stored m v) = PAGE_SIZE" using ok v(1) by blast
  have fc: "?f * PAGE_SIZE + PAGE_SIZE \<le> length (phys_mem m)" using ok c(1) by simp
  have at: "page_at g (phys_mem m') = (if g = ?f then stored m v else page_at g (phys_mem m))" if "g * PAGE_SIZE + PAGE_SIZE \<le> length (phys_mem m)" for g
    using m' page_at_put_page [OF lv fc that] by (simp add: replaced_def)
  show "length (phys_mem m') = length (phys_mem m)" using m' put_page_length [OF lv fc] by (simp add: replaced_def)
  show "page_at ?f (phys_mem m') = stored m v" using at [OF fc] by simp
  show "frame m' w = frame m w \<and> clear (pgtable m' ! w) = clear (pgtable m ! w) \<and> dirty (pgtable m' ! w) = dirty (pgtable m ! w)"
    if "w < length (pgtable m)" "w \<noteq> v" "w \<noteq> c" for w using that T [OF that(1)] by (simp add: frame_def new_entry_def Let_def)
  show "frame m' v = ?f" "clear (pgtable m' ! v) = 1" "dirty (pgtable m' ! v) = 0" "clear (pgtable m' ! c) = -1"
    using T [OF v(1)] T [OF c(1)] c(2) by (simp_all add: frame_def new_entry_def Let_def)
  show "frame m w \<noteq> ?f \<and> page_at (frame m w) (phys_mem m') = page_at (frame m w) (phys_mem m)" if "w \<in> set Q" for w
  proof -
    have "frame m w \<noteq> ?f" "frame m w * PAGE_SIZE + PAGE_SIZE \<le> length (phys_mem m)" using that ok c(3) R(1) by (auto simp: inj_on_def ring_def)
    then show ?thesis using at by simp
  qed
  have sc: "page_at ?f (phys_mem m) = content m c" "dirty (pgtable m ! c) \<noteq> 1 \<Longrightarrow> stored m c = content m c"
    using ok c(1) by (auto simp: content_def)
  show "content m v = stored m v" using ok v by (auto simp: content_def)
  show "stored m' w = (if w = c then content m c else stored m w)" for w using m' sc by (auto simp: stored_def replaced_def)
  show "length (content m c) = PAGE_SIZE" using fc by (simp add: page_at_def flip: sc(1))
qed

lemma replaced_content:
  assumes "ring (c # Q) m" "pages_ok (c # Q) m" "v < length (pgtable m)" "v \<notin> set (c # Q)" "replaced c (last (c # Q)) v m m'"
    and u: "u < length (pgtable m)"
  shows "content m' u = content m u"
proof -
  note facts = replaced_facts [OF assms(1-5)]
  consider "u = v" | "u = c" | "u \<noteq> v" "u \<noteq> c" "u \<in> set Q" | "u \<noteq> v" "u \<noteq> c" "u \<notin> set Q" by blast
  then show ?thesis
  proof cases
    case 1
    then show ?thesis using facts(4,5,8,9) by (simp add: content_def)
  next
    case 2
    then show ?thesis using facts(7,11) by (simp add: content_def)
  next
    case 3
    then show ?thesis using facts(3)[OF u 3(1,2)] facts(10)[OF 3(3)] facts(11)[of u] by (simp add: content_def)
  next
    case 4
    then show ?thesis using facts(3)[OF u 4(1,2)] facts(11)[of u] assms(2) u by (auto simp: content_def pages_ok_def)
  qed
qed

lemma replaced_pages:
  assumes "ring (c # Q) m" "pages_ok (c # Q) m" "v < length (pgtable m)" "v \<notin> set (c # Q)" "replaced c (last (c # Q)) v m m'"
  shows "pages_ok (v # Q) m'"
proof -
  note facts = replaced_facts [OF assms] and ok = assms(2)[unfolded pages_ok_def]
  have c: "c < length (pgtable m)" "c \<noteq> v" "c \<notin> set Q" "\<And>w. w \<in> set Q \<Longrightarrow> w < length (pgtable m) \<and> w \<noteq> v \<and> w \<noteq> c"
    using assms(1,4) by (auto simp: ring_def)
  have fq: "frame m' w = frame m w" if "w \<in> set Q" for w using c(4)[OF that] facts(3) by blast
  have "inj_on (frame m') (set Q)" using ok inj_on_cong [of "set Q" "frame m'" "frame m"] fq by auto
  moreover have "frame m' v \<notin> frame m' ` set Q" using facts(4) facts(10) fq by (metis imageE)
  ultimately have inj: "inj_on (frame m') (set (v # Q))" using assms(4) by simp
  have st: "length (stored m' w) = PAGE_SIZE" if "w < length (pgtable m)" for w using ok that facts(11)[of w] facts(12) by simp
  have entry: "if w \<in> set (v # Q) then clear (pgtable m' ! w) \<in> {0, 1} \<and> frame m' w * PAGE_SIZE + PAGE_SIZE \<le> length (phys_mem m') \<and>
      (dirty (pgtable m' ! w) \<noteq> 1 \<longrightarrow> page_at (frame m' w) (phys_mem m') = stored m' w) else clear (pgtable m' ! w) = -1"
    if w: "w < length (pgtable m)" for w
  proof -
    consider "w = v" | "w = c" | "w \<noteq> v" "w \<noteq> c" "w \<in> set Q" | "w \<noteq> v" "w \<noteq> c" "w \<notin> set Q" by blast
    then show ?thesis
    proof cases
      case 1
      then show ?thesis using facts(2,4-6,8) facts(11)[of v] c(1,2) ok by simp
    next
      case 2
      then show ?thesis using facts(7) c by simp
    next
      case 3
      then show ?thesis using facts(2) facts(3)[OF w 3(1,2)] facts(10)[OF 3(3)] facts(11)[of w] ok w by auto
    next
      case 4
      then show ?thesis using facts(3)[OF w 4(1,2)] ok w by auto
    qed
  qed
  show ?thesis unfolding pages_ok_def facts(1) by (intro conjI allI impI inj st entry) (use ok facts(2) in simp_all)
qed

section \<open>Page faults and accesses\<close>

text \<open>A page fault makes the page resident and changes the bytes of no page.\<close>

lemma page_fault_ok:
  assumes "sim_wf R m" "v < length (pgtable m)" "clear (pgtable m ! v) = -1" "\<forall>u. io u"
  shows "\<exists>c Q m'. rotate (chance R m) R = c # Q \<and> page_fault io v m = Inr m' \<and> sim_wf (v # Q) m' \<and>
     length (pgtable m') = length (pgtable m) \<and> (\<forall>u < length (pgtable m). content m' u = content m u) \<and> frame m' v = frame m c \<and>
     (\<forall>u \<in> set Q. clear (pgtable m' ! u) = (if u \<in> set (take (chance R m) R) then 0 else clear (pgtable m ! u)))"
proof -
  let ?k = "chance R m" let ?m = "swept R ?k m"
  have R: "ring R m" "pages_ok R m" "R \<noteq> []" "\<forall>u \<in> set R. u < length (pgtable m)" using assms(1) by (auto simp: sim_wf_def ring_def)
  have k: "?k \<le> length R" "0 < ?k" using R(3) assms(1) by (auto simp: chance_def length_takeWhile_le sim_wf_def neq_Nil_conv)
  obtain c Q where cQ: "rotate ?k R = c # Q" using R(3) by (metis neq_Nil_conv rotate_is_Nil_conv)
  have r: "ring (c # Q) ?m" "last_c ?m = last (c # Q)" "pages_ok (c # Q) ?m" "v < length (pgtable ?m)"
    using ring_swept [OF R(1) k(1)] k(2) swept_keeps(1)[OF R(2,4), of ?k] assms(2) cQ by (simp_all add: swept_def del: last.simps)
  have v: "v \<notin> set (c # Q)" using R(2) assms(2,3) arg_cong [OF cQ, of set] by (auto simp: pages_ok_def)
  obtain m' where m': "replace_page io v ?m = Inr m'" "replaced c (last (c # Q)) v ?m m'" using replace_page_run [OF r v assms(4)] by blast
  have len: "length (pgtable ?m) = length (pgtable m)" by (simp add: swept_def)
  note facts = replaced_facts [OF r(1,3,4) v m'(2)]
  have "length (pgtable ?m) < 2 ^ 32" using r(3) by (simp add: pages_ok_def)
  then have "sim_wf (v # Q) m'"
    using replaced_ring [OF r(1) _ r(4) v m'(2)] replaced_pages [OF r(1,3,4) v m'(2)] facts(5) by (simp add: sim_wf_def)
  moreover have "content m' u = content m u" if "u < length (pgtable m)" for u
    using replaced_content [OF r(1,3,4) v m'(2), of u] swept_keeps(2)[OF R(2,4) that, of ?k] that len by simp
  moreover have "page_fault io v m = Inr m'" using clock_hand_stops [OF R(1)] m'(1) by (simp add: page_fault_def)
  moreover have "frame m' v = frame m c" using facts(4) r(1) len by (simp add: ring_def frame_def swept_def clear_all_nth)
  moreover have "clear (pgtable m' ! u) = (if u \<in> set (take ?k R) then 0 else clear (pgtable m ! u))" if "u \<in> set Q" for u
  proof -
    have "u < length (pgtable m)" "u \<noteq> v" "u \<noteq> c" using that r(1) v len by (auto simp: ring_def)
    then show ?thesis using facts(3)[of u] len by (simp add: swept_def clear_all_nth)
  qed
  ultimately show ?thesis using cQ facts(1) len by (intro exI [of _ c] exI [of _ Q] exI [of _ m']) simp
qed

text \<open>What \<open>get\<close> and \<open>put\<close> start with: the page is resident afterwards.\<close>

lemma resident:
  assumes "sim_wf R m" "v < length (pgtable m)" "\<forall>u. io u"
  shows "\<exists>R' m'. (if clear (pgtable m ! v) = -1 then page_fault io v m else Inr m) = Inr m' \<and> sim_wf R' m' \<and> v \<in> set R' \<and>
     length (pgtable m') = length (pgtable m) \<and> (\<forall>u < length (pgtable m). content m' u = content m u)"
proof (cases "clear (pgtable m ! v) = -1")
  case True
  obtain c Q m' where "page_fault io v m = Inr m'" "sim_wf (v # Q) m'" "length (pgtable m') = length (pgtable m)"
    "\<forall>u < length (pgtable m). content m' u = content m u" using page_fault_ok [OF assms(1,2) True assms(3)] by blast
  then show ?thesis using True by (intro exI [of _ "v # Q"] exI [of _ m']) simp
next
  case False
  then have "v \<in> set R" using assms(1,2) by (auto simp: sim_wf_def pages_ok_def split: if_splits)
  then show ?thesis using False assms(1) by (intro exI [of _ R] exI [of _ m]) simp
qed

text \<open>Marking a resident page as used, and as written.\<close>

lemma mark_page:
  assumes "sim_wf R m" "v \<in> set R" "\<And>e. pframe (f e) = pframe e \<and> cnext (f e) = cnext e \<and> clear (f e) = 1"
    and "\<And>e. dirty (f e) = dirty e \<or> dirty (f e) = 1"
  shows "\<exists>m'. upd_entry v f m = Inr m' \<and> sim_wf R m' \<and> length (pgtable m') = length (pgtable m) \<and> phys_mem m' = phys_mem m \<and>
     swap_files m' = swap_files m \<and> frame m' v = frame m v \<and> pgtable m' ! v = f (pgtable m ! v) \<and>
     (\<forall>u < length (pgtable m). content m' u = content m u)"
proof -
  let ?m = "m\<lparr>pgtable := (pgtable m)[v := f (pgtable m ! v)]\<rparr>"
  have v: "v < length (pgtable m)" using assms(1,2) by (simp add: sim_wf_def ring_def)
  have fr: "frame ?m u = frame m u" "cnext (pgtable ?m ! u) = cnext (pgtable m ! u)" for u
    using v assms(3) by (cases "u = v"; simp add: frame_def)+
  have cl: "clear (pgtable ?m ! u) = (if u = v then 1 else clear (pgtable m ! u))" "u \<noteq> v \<Longrightarrow> dirty (pgtable ?m ! u) = dirty (pgtable m ! u)"
    for u using v assms(3) by (cases "u = v"; simp)+
  have st: "stored ?m u = stored m u" for u by (simp add: stored_def)
  have d: "dirty (pgtable ?m ! v) \<noteq> 1 \<Longrightarrow> dirty (pgtable m ! v) \<noteq> 1" using v assms(4)[of "pgtable m ! v"] by auto
  have "pages_ok R ?m" using assms(1,2) d unfolding sim_wf_def pages_ok_def fr st cl(1) inj_on_def
    by (auto simp: cl(2) split: if_splits)
  moreover have "ring R ?m" using assms(1) unfolding sim_wf_def ring_def fr by simp
  moreover have "clear (pgtable ?m ! hd R) = 1" using assms(1) unfolding cl by (simp add: sim_wf_def)
  moreover have "content ?m u = content m u" for u
    using assms(1,2) v cl(1)[of u] fr(1)[of u] st by (auto simp: content_def sim_wf_def pages_ok_def)
  moreover have "upd_entry v f m = Inr ?m" using v by (simp add: upd_entry_def)
  ultimately show ?thesis using v fr(1) by (intro exI [of _ ?m]) (simp add: sim_wf_def)
qed

lemma unat_index: "unat (index a) = unat a div PAGE_SIZE" "unat (offset a) = unat a mod PAGE_SIZE"
  by (simp_all add: index_def offset_def PAGE_SIZE_def unat_div unat_mod)

lemma unat_location:
  assumes "unat f * PAGE_SIZE + PAGE_SIZE \<le> n" "n < 2 ^ 32"
  shows "uint (address f + offset a) = int (unat f * PAGE_SIZE + unat a mod PAGE_SIZE)"
proof -
  have "unat a mod PAGE_SIZE < PAGE_SIZE" by (simp add: PAGE_SIZE_def)
  then have "unat (address f + offset a) = unat f * PAGE_SIZE + unat a mod PAGE_SIZE"
    using assms unat_address [OF assms] by (subst unat_plus_if_size) (simp add: unat_index word_size)
  then show ?thesis by (metis uint_nat)
qed

lemma page_at_nth: "f * PAGE_SIZE + PAGE_SIZE \<le> length xs \<Longrightarrow> i < PAGE_SIZE \<Longrightarrow> page_at f xs ! i = xs ! (f * PAGE_SIZE + i)"
  by (simp add: page_at_def)

lemma page_at_update:
  assumes "i < PAGE_SIZE"
  shows "page_at g (xs[f * PAGE_SIZE + i := b]) = (if g = f then (page_at g xs)[i := b] else page_at g xs)"
proof (cases g f rule: linorder_cases)
  case less
  then have "Suc g * PAGE_SIZE \<le> f * PAGE_SIZE" by (intro mult_le_mono1) simp
  then show ?thesis using less assms by (simp add: page_at_def drop_update_swap take_update_cancel)
next
  case equal
  then show ?thesis using assms by (simp add: page_at_def drop_update_swap take_update_swap)
next
  case greater
  then have "Suc f * PAGE_SIZE \<le> g * PAGE_SIZE" by (intro mult_le_mono1) simp
  then show ?thesis using greater assms by (simp add: page_at_def drop_update_cancel)
qed

lemma get_ok:
  assumes "sim_wf R m" "unat a div PAGE_SIZE < length (pgtable m)" "\<forall>u. io u"
  shows "\<exists>R' m'. get io a m = Inr (content m (unat a div PAGE_SIZE) ! (unat a mod PAGE_SIZE), m') \<and> sim_wf R' m' \<and>
     length (pgtable m') = length (pgtable m) \<and> (\<forall>u < length (pgtable m). content m' u = content m u)"
proof -
  let ?v = "unat a div PAGE_SIZE"
  obtain R' m1 where m1: "(if clear (pgtable m ! ?v) = -1 then page_fault io ?v m else Inr m) = Inr m1" "sim_wf R' m1" "?v \<in> set R'"
    "length (pgtable m1) = length (pgtable m)" "\<forall>u < length (pgtable m). content m1 u = content m u" using resident [OF assms] by blast
  obtain m2 where m2: "upd_entry ?v (\<lambda>pe. pe\<lparr>clear := 1\<rparr>) m1 = Inr m2" "sim_wf R' m2" "length (pgtable m2) = length (pgtable m1)"
    "clear (pgtable m2 ! ?v) = 1" "\<forall>u < length (pgtable m1). content m2 u = content m1 u" "phys_mem m2 = phys_mem m1"
    using mark_page [OF m1(2,3), of "\<lambda>pe. pe\<lparr>clear := 1\<rparr>"] by auto
  have len: "?v < length (pgtable m2)" using assms(2) m1(4) m2(3) by simp
  then have fr: "frame m2 ?v * PAGE_SIZE + PAGE_SIZE \<le> length (phys_mem m2)" "length (phys_mem m2) < 2 ^ 32"
    using m2(2) m1(3) by (auto simp: sim_wf_def pages_ok_def)
  have off: "unat a mod PAGE_SIZE < PAGE_SIZE" by (simp add: PAGE_SIZE_def)
  let ?i = "frame m2 ?v * PAGE_SIZE + unat a mod PAGE_SIZE"
  have loc: "uint (address (pframe (pgtable m2 ! ?v)) + offset a) = int ?i"
    using unat_location [OF fr(1)[unfolded frame_def] fr(2)] by (simp add: frame_def)
  have "phys_mem m2 ! ?i = content m2 ?v ! (unat a mod PAGE_SIZE)" using page_at_nth [OF fr(1) off] m2(4) by (simp add: content_def)
  moreover have "?i < length (phys_mem m2)" using fr(1) off by simp
  ultimately have "arr_get (phys_mem m2) (uint (address (pframe (pgtable m2 ! ?v)) + offset a)) = Inr (content m2 ?v ! (unat a mod PAGE_SIZE))"
    unfolding loc by (metis arr_get_nat)
  then have "get io a m = Inr (content m2 ?v ! (unat a mod PAGE_SIZE), m2)"
    using assms(2) len m1(1) m2(1) by (simp add: get_def unat_index Let_def)
  moreover have "content m2 u = content m u" if "u < length (pgtable m)" for u using m1(4,5) m2(5) that by simp
  ultimately show ?thesis using assms(2) m1(4) m2(2,3) by (intro exI [of _ R'] exI [of _ m2]) simp
qed

text \<open>Writing a byte into the frame of a page that is marked as written.\<close>

lemma write_byte:
  assumes "sim_wf R m" "v \<in> set R" "dirty (pgtable m ! v) = 1" "i < PAGE_SIZE"
  shows "sim_wf R (m\<lparr>phys_mem := (phys_mem m)[frame m v * PAGE_SIZE + i := b]\<rparr>)" (is "sim_wf R ?m")
    and "u < length (pgtable m) \<Longrightarrow> content (m\<lparr>phys_mem := (phys_mem m)[frame m v * PAGE_SIZE + i := b]\<rparr>) u = (if u = v then (content m u)[i := b] else content m u)"
proof -
  have ok: "pages_ok R m" "ring R m" "clear (pgtable m ! hd R) = 1" using assms(1) by (simp_all add: sim_wf_def)
  have fr: "frame ?m = frame m" "stored ?m = stored m" by (simp_all add: frame_def stored_def fun_eq_iff)
  have at: "page_at (frame m u) (phys_mem ?m) = (if u = v then (page_at (frame m u) (phys_mem m))[i := b] else page_at (frame m u) (phys_mem m))"
    if "u \<in> set R" for u using page_at_update [OF assms(4), of "frame m u" "phys_mem m" "frame m v" b] that assms(2) ok(1)
    by (auto simp: pages_ok_def inj_on_def)
  have "pages_ok R ?m" using ok(1) assms(3) at unfolding pages_ok_def fr by (auto split: if_splits)
  then show "sim_wf R ?m" using ok(2,3) by (simp add: sim_wf_def ring_def)
  show "content ?m u = (if u = v then (content m u)[i := b] else content m u)" if "u < length (pgtable m)"
  proof (cases "u \<in> set R")
    case True
    then show ?thesis using ok(1) that at [OF True] by (auto simp: content_def fr pages_ok_def)
  next
    case False
    then show ?thesis using ok(1) that assms(2) by (auto simp: content_def fr pages_ok_def)
  qed
qed

lemma put_ok:
  assumes "sim_wf R m" "unat a div PAGE_SIZE < length (pgtable m)" "\<forall>u. io u"
  shows "\<exists>R' m'. put io a b m = Inr m' \<and> sim_wf R' m' \<and> length (pgtable m') = length (pgtable m) \<and>
     (\<forall>u < length (pgtable m). content m' u = (if u = unat a div PAGE_SIZE then (content m u)[unat a mod PAGE_SIZE := b] else content m u))"
proof -
  let ?v = "unat a div PAGE_SIZE"
  obtain R' m1 where m1: "(if clear (pgtable m ! ?v) = -1 then page_fault io ?v m else Inr m) = Inr m1" "sim_wf R' m1" "?v \<in> set R'"
    "length (pgtable m1) = length (pgtable m)" "\<forall>u < length (pgtable m). content m1 u = content m u" using resident [OF assms] by blast
  obtain m2 where m2: "upd_entry ?v (\<lambda>pe. pe\<lparr>dirty := 1, clear := 1\<rparr>) m1 = Inr m2" "sim_wf R' m2" "length (pgtable m2) = length (pgtable m1)"
    "dirty (pgtable m2 ! ?v) = 1" "\<forall>u < length (pgtable m1). content m2 u = content m1 u"
    using mark_page [OF m1(2,3), of "\<lambda>pe. pe\<lparr>dirty := 1, clear := 1\<rparr>"] by auto
  have len: "?v < length (pgtable m2)" using assms(2) m1(4) m2(3) by simp
  then have fr: "frame m2 ?v * PAGE_SIZE + PAGE_SIZE \<le> length (phys_mem m2)" "length (phys_mem m2) < 2 ^ 32"
    using m2(2) m1(3) by (auto simp: sim_wf_def pages_ok_def)
  have off: "unat a mod PAGE_SIZE < PAGE_SIZE" by (simp add: PAGE_SIZE_def)
  let ?i = "frame m2 ?v * PAGE_SIZE + unat a mod PAGE_SIZE" let ?m = "m2\<lparr>phys_mem := (phys_mem m2)[?i := b]\<rparr>"
  have loc: "uint (address (pframe (pgtable m2 ! ?v)) + offset a) = int ?i"
    using unat_location [OF fr(1)[unfolded frame_def] fr(2)] by (simp add: frame_def)
  have "?i < length (phys_mem m2)" using fr(1) off by simp
  then have "arr_set (phys_mem m2) (uint (address (pframe (pgtable m2 ! ?v)) + offset a)) b = Inr ((phys_mem m2)[?i := b])"
    unfolding loc by (rule arr_set_nat)
  then have "put io a b m = Inr ?m" using assms(2) len m1(1) m2(1) by (simp add: put_def unat_index Let_def)
  moreover have "sim_wf R' ?m" by (rule write_byte(1)[OF m2(2) m1(3) m2(4) off])
  moreover have "content ?m u = (if u = ?v then (content m u)[unat a mod PAGE_SIZE := b] else content m u)" if "u < length (pgtable m)" for u
    using write_byte(2)[OF m2(2) m1(3) m2(4) off, of u b] m1(4,5) m2(3,5) that by simp
  ultimately show ?thesis using m1(4) m2(3) by (intro exI [of _ R'] exI [of _ ?m]) simp
qed

section \<open>The memory as one array\<close>

datatype access = Get u32 | Put u32 u8

fun target :: "access \<Rightarrow> nat" where
  "target (Get a) = unat a"
| "target (Put a b) = unat a"

fun sim_run :: "(nat \<Rightarrow> bool) \<Rightarrow> access list \<Rightarrow> sim \<Rightarrow> (u8 list \<times> sim) res" where
  "sim_run io [] m = Inr ([], m)"
| "sim_run io (Get a # xs) m = bind_res (get io a m) (\<lambda>(b, m). bind_res (sim_run io xs m) (\<lambda>(bs, m). Inr (b # bs, m)))"
| "sim_run io (Put a b # xs) m = bind_res (put io a b m) (sim_run io xs)"

text \<open>The specification: an array of bytes; the result is what the reads return.\<close>

fun mem_run :: "access list \<Rightarrow> (nat \<Rightarrow> u8) \<Rightarrow> u8 list" where
  "mem_run [] mem = []"
| "mem_run (Get a # xs) mem = mem (unat a) # mem_run xs mem"
| "mem_run (Put a b # xs) mem = mem_run xs (mem(unat a := b))"

definition shows_memory :: "(nat \<Rightarrow> u8) \<Rightarrow> sim \<Rightarrow> bool" where
  "shows_memory mem m \<longleftrightarrow> (\<forall>u < length (pgtable m). content m u = map (\<lambda>i. mem (u * PAGE_SIZE + i)) [0..<PAGE_SIZE])"

lemma shows_memory_nth:
  assumes "shows_memory mem m" "a div PAGE_SIZE < length (pgtable m)"
  shows "content m (a div PAGE_SIZE) ! (a mod PAGE_SIZE) = mem a"
proof -
  have "a mod PAGE_SIZE < PAGE_SIZE" by (simp add: PAGE_SIZE_def)
  then show ?thesis using assms by (simp add: shows_memory_def)
qed

lemma shows_memory_put:
  assumes "shows_memory mem m" "length (pgtable m') = length (pgtable m)"
    and "\<forall>u < length (pgtable m). content m' u = (if u = a div PAGE_SIZE then (content m u)[a mod PAGE_SIZE := b] else content m u)"
  shows "shows_memory (mem(a := b)) m'"
  unfolding shows_memory_def
proof (intro allI impI)
  fix u assume u: "u < length (pgtable m')"
  have P: "0 < PAGE_SIZE" by (simp add: PAGE_SIZE_def)
  have at: "u * PAGE_SIZE + i = a \<longleftrightarrow> u = a div PAGE_SIZE \<and> i = a mod PAGE_SIZE" if "i < PAGE_SIZE" for i using that P by auto
  have "content m u = map (\<lambda>i. mem (u * PAGE_SIZE + i)) [0..<PAGE_SIZE]" using assms(1,2) u by (simp add: shows_memory_def)
  then show "content m' u = map (\<lambda>i. (mem(a := b)) (u * PAGE_SIZE + i)) [0..<PAGE_SIZE]"
    using assms(2,3) u at by (intro nth_equalityI) (auto simp: nth_list_update)
qed

lemma sim_run_ok:
  assumes "sim_wf R m" "shows_memory mem m" "\<forall>x \<in> set xs. target x div PAGE_SIZE < length (pgtable m)" "\<forall>u. io u"
  shows "\<exists>m'. sim_run io xs m = Inr (mem_run xs mem, m')"
  using assms(1-3)
proof (induction xs mem arbitrary: R m rule: mem_run.induct)
  case (2 a xs mem)
  have a: "unat a div PAGE_SIZE < length (pgtable m)" using 2(4) by simp
  obtain R' m' where m': "get io a m = Inr (content m (unat a div PAGE_SIZE) ! (unat a mod PAGE_SIZE), m')" "sim_wf R' m'"
    "length (pgtable m') = length (pgtable m)" "\<forall>u < length (pgtable m). content m' u = content m u" using get_ok [OF 2(2) a assms(4)] by blast
  have "shows_memory mem m'" using 2(3) m'(3,4) by (simp add: shows_memory_def)
  then obtain m'' where "sim_run io xs m' = Inr (mem_run xs mem, m'')" using 2(1)[OF m'(2)] 2(4) m'(3) by auto
  then show ?case using m'(1) shows_memory_nth [OF 2(3) a] by simp
next
  case (3 a b xs mem)
  have a: "unat a div PAGE_SIZE < length (pgtable m)" using 3(4) by simp
  obtain R' m' where m': "put io a b m = Inr m'" "sim_wf R' m'" "length (pgtable m') = length (pgtable m)"
    "\<forall>u < length (pgtable m). content m' u = (if u = unat a div PAGE_SIZE then (content m u)[unat a mod PAGE_SIZE := b] else content m u)"
    using put_ok [OF 3(2) a assms(4), of b] by blast
  then show ?case using 3(1)[OF m'(2) shows_memory_put [OF 3(3) m'(3,4)]] 3(4) by (simp add: fun_upd_def)
qed simp

lemma init_entry_simps:
  "i < n \<Longrightarrow> init_entry n i = \<lparr>pframe = of_nat i, cnext = of_nat ((i + 1) mod n), clear = 1, dirty = 0\<rparr>"
  "\<not> i < n \<Longrightarrow> init_entry n i = \<lparr>pframe = 0, cnext = 0, clear = -1, dirty = 0\<rparr>"
  by (simp_all add: init_entry_def)

lemma sim_init_wf:
  assumes "0 < unat phys div PAGE_SIZE" "unat phys div PAGE_SIZE \<le> unat vir div PAGE_SIZE" "swap_files m0 = Map.empty"
  defines "m \<equiv> init_page_table vir (init_phys_mem phys m0)" and "np \<equiv> unat phys div PAGE_SIZE"
  shows "sim_wf [0..<np] m" "shows_memory (\<lambda>_. 0) m" "length (pgtable m) = unat vir div PAGE_SIZE"
proof -
  have P: "unat (x div of_nat PAGE_SIZE) = unat x div PAGE_SIZE" for x :: u32 by (simp add: PAGE_SIZE_def unat_div)
  have m: "pgtable m = map (init_entry np) [0..<unat vir div PAGE_SIZE]" "phys_mem m = replicate (unat phys) 0" "curr_c m = 0"
    "swap_files m = Map.empty"
    using assms(3) by (simp_all add: m_def np_def init_page_table_def init_phys_mem_def P Let_def)
  then show len: "length (pgtable m) = unat vir div PAGE_SIZE" by simp
  have lt: "unat x < 2 ^ 32" for x :: u32 by (rule order.strict_trans2 [OF unsigned_less]) simp
  have bound: "unat vir div PAGE_SIZE < 2 ^ 32" "unat phys < 2 ^ 32" using lt [of vir] lt [of phys] by (simp_all add: PAGE_SIZE_def)
  have T: "pgtable m ! v = init_entry np v" if "v < unat vir div PAGE_SIZE" for v using that m(1) by simp
  have small: "unat (of_nat v :: u32) = v" if "v < unat vir div PAGE_SIZE" for v using that bound(1) by (simp add: unat_of_nat)
  have np: "0 < np" "np \<le> unat vir div PAGE_SIZE" using assms(1,2) by (simp_all add: np_def)
  have fr: "frame m v = v" "clear (pgtable m ! v) = 1" if "v < np" for v using that np T [of v] small [of v] by (simp_all add: frame_def init_entry_simps)
  have inside: "v * PAGE_SIZE + PAGE_SIZE \<le> unat phys" if "v < np" for v
  proof -
    have "Suc v * PAGE_SIZE \<le> unat phys div PAGE_SIZE * PAGE_SIZE" using that unfolding np_def by (intro mult_le_mono1) simp
    also have "\<dots> \<le> unat phys" by (rule div_times_less_eq_dividend)
    finally show ?thesis by (simp add: add.commute)
  qed
  have zero: "page_at v (phys_mem m) = replicate PAGE_SIZE 0" if "v < np" for v using inside [OF that] by (simp add: page_at_def m(2))
  have st: "stored m v = replicate PAGE_SIZE 0" for v by (simp add: stored_def m(4))
  have "unat (cnext (pgtable m ! i)) = Suc i mod np" if "i < np" for i
    using that np T [of i] small [of "Suc i mod np"] mod_less_divisor [OF np(1), of "Suc i"] by (simp add: init_entry_simps)
  then have "ring [0..<np] m" using np len m(3) by (auto simp: ring_def)
  moreover have "pages_ok [0..<np] m"
    unfolding pages_ok_def len using bound inside zero fr st T by (auto simp: m(2) inj_on_def init_entry_simps)
  ultimately show "sim_wf [0..<np] m" using np fr(2)[of 0] by (simp add: sim_wf_def)
  show "shows_memory (\<lambda>_. 0) m"
    unfolding shows_memory_def len using T fr(1) zero st by (auto simp: content_def map_replicate_const init_entry_def)
qed

section \<open>Properties\<close>

text \<open>
  C18: the paging simulator is a memory. With at least one frame and no more frames than pages, no swap files left from
  before and files that can be read and written, every sequence of reads and writes of bytes inside the virtual
  memory runs to its end without an invalid access, whatever pages the clock evicts in between, and
  every read returns the byte that was last written to its address, or 0.
\<close>

theorem sim_refines_memory:
  assumes "0 < unat phys div PAGE_SIZE" "unat phys div PAGE_SIZE \<le> unat vir div PAGE_SIZE" "swap_files m0 = Map.empty" "\<forall>v. io v"
    and "\<forall>x \<in> set xs. target x div PAGE_SIZE < unat vir div PAGE_SIZE"
  shows "\<exists>m. sim_run io xs (init_page_table vir (init_phys_mem phys m0)) = Inr (mem_run xs (\<lambda>_. 0), m)"
  using sim_run_ok [OF sim_init_wf(1,2)[OF assms(1-3)] _ assms(4)] sim_init_wf(3)[OF assms(1-3)] assms(5) by simp

definition empty_sim :: sim where
  "empty_sim = \<lparr>PHYS_MEM_SIZE = 0, phys_mem = [], pgtable = [], last_c = 0, curr_c = 0, swap_files = Map.empty\<rparr>"

theorem sim_refines_memory_witness:
  "\<exists>m. sim_run (\<lambda>_. True) [Put 5 7, Put 9000 1, Put 4096 2, Get 5, Get 9000, Get 12000] (init_page_table 16384 (init_phys_mem 8192 empty_sim)) =
     Inr ([7, 1, 0], m)"
proof -
  let ?xs = "[Put 5 7, Put 9000 1, Put 4096 2, Get 5, Get 9000, Get 12000]"
  have "\<exists>m. sim_run (\<lambda>_. True) ?xs (init_page_table 16384 (init_phys_mem 8192 empty_sim)) = Inr (mem_run ?xs (\<lambda>_. 0), m)"
    by (rule sim_refines_memory) (simp_all add: PAGE_SIZE_def empty_sim_def)
  then show ?thesis by simp
qed

text \<open>
  C15: the clock gives every page a second chance. A fault for a page that is not in memory evicts the first page of
  the ring, from the hand on, that was not used since the hand last passed it, or the page at the hand when all were
  used; all pages before it lose their mark, and the new page takes the place and the frame of the evicted one.
\<close>

theorem page_fault_second_chance:
  assumes "sim_wf R m" "v < length (pgtable m)" "clear (pgtable m ! v) = -1" "\<forall>u. io u"
  defines "used \<equiv> takeWhile (\<lambda>u. clear (pgtable m ! u) \<noteq> 0) R" and "rest \<equiv> dropWhile (\<lambda>u. clear (pgtable m ! u) \<noteq> 0) R"
  shows "\<exists>c Q m'. rest @ used = c # Q \<and> page_fault io v m = Inr m' \<and> sim_wf (v # Q) m' \<and> frame m' v = frame m c \<and>
     (\<forall>u \<in> set Q. clear (pgtable m' ! u) = (if u \<in> set used then 0 else clear (pgtable m ! u)))"
proof -
  have R: "R = used @ rest" by (simp add: used_def rest_def)
  have "chance R m = length used" by (simp add: chance_def used_def)
  then have "rotate (chance R m) R = rest @ used" "take (chance R m) R = used" using R rotate_append [of used rest] by auto
  then show ?thesis using page_fault_ok [OF assms(1-4)] by auto
qed

text \<open>Three pages in two frames: pages 0 and 1 are both marked, so that the hand comes back to page 0.\<close>

theorem page_fault_second_chance_witness:
  "\<exists>m'. page_fault (\<lambda>_. True) 2 (init_page_table 12288 (init_phys_mem 8192 empty_sim)) = Inr m' \<and> sim_wf [2, 1] m' \<and> frame m' 2 = 0 \<and>
     clear (pgtable m' ! 1) = 0"
proof -
  let ?m = "init_page_table 12288 (init_phys_mem 8192 empty_sim)"
  have "sim_wf [0..<unat (8192 :: u32) div PAGE_SIZE] ?m" by (rule sim_init_wf) (simp_all add: PAGE_SIZE_def empty_sim_def)
  then have wf: "sim_wf [0, 1] ?m" by (simp add: PAGE_SIZE_def upt_rec)
  have three: "[0..<3] = [0, 1, 2 :: nat]" by code_simp
  have T: "pgtable ?m = map (init_entry 2) [0, 1, 2]"
    unfolding three [symmetric] by (simp add: init_page_table_def init_phys_mem_def PAGE_SIZE_def unat_div)
  have v: "2 < length (pgtable ?m)" "clear (pgtable ?m ! 2) = -1" by (simp_all add: T init_entry_def)
  have used: "takeWhile (\<lambda>u. clear (pgtable ?m ! u) \<noteq> 0) [0, 1] = [0, 1]" "dropWhile (\<lambda>u. clear (pgtable ?m ! u) \<noteq> 0) [0, 1] = []"
    "frame ?m 0 = 0" by (simp_all add: T init_entry_def frame_def)
  from page_fault_second_chance [OF wf v, of "\<lambda>_. True"] show ?thesis unfolding used using used(3) by auto
qed

end
