(* ===== verification/Sim_Client.thy ===== *)
theory Sim_Client
  imports Sim_Page
begin

text \<open>
  The client of the paging simulator (\<open>client.c\<close>, \<open>utils.h\<close>): the sizes it is given as text, the random
  numbers, the filling of the memory and the loop of random reads and writes. The results of \<open>rand\<close> are an
  argument; the alarm that ends the loop is the end of the list of rounds.
\<close>

section \<open>Sizes\<close>

text \<open>\<open>atoi\<close>: white space, a sign and digits; beyond the range of an int it is undefined.\<close>

definition atoi :: "string \<Rightarrow> int res" where
  "atoi s =
     (let t = dropWhile (\<lambda>ch. ch \<in> {CHR '' '', CHR 0x09, CHR 0x0A, CHR 0x0B, CHR 0x0C, CHR 0x0D}) s;
          neg = (t \<noteq> [] \<and> hd t = CHR ''-''); ds = (if t \<noteq> [] \<and> hd t \<in> {CHR ''-'', CHR ''+''} then tl t else t);
          n = int (digits_value (takeWhile is_digit ds)); v = (if neg then - n else n)
      in if v < - (2 ^ 31) \<or> 2 ^ 31 \<le> v then Inl Overflow else Inr v)"

text \<open>The cases of the switch fall through.\<close>

definition unit_of :: "char \<Rightarrow> u32" where
  "unit_of ch = (if ch = CHR ''G'' then 1024 * 1024 * 1024 else if ch = CHR ''M'' then 1024 * 1024 else if ch = CHR ''K'' then 1024 else 1)"

definition trans_size :: "string \<Rightarrow> u32 res" where
  "trans_size csize =
     (if csize = [] then Inl Out_Of_Bounds
      else let (s, u) = (if is_digit (last csize) then (csize, 1) else (butlast csize, unit_of (last csize)))
           in bind_res (atoi s) (\<lambda>n. Inr (word_of_int n * u)))"

section \<open>Random numbers\<close>

definition rand_int :: "u32 \<Rightarrow> u32 \<Rightarrow> u32 res" where
  "rand_int r n = (if n = 0 then Inl Div_By_Zero else Inr (r mod n))"

definition rand_range :: "u32 \<Rightarrow> u32 \<Rightarrow> u32 \<Rightarrow> u32 res" where
  "rand_range r base n = (if n = 0 then Inl Div_By_Zero else Inr (r mod n + base))"

definition rand_char :: "u32 \<Rightarrow> u32 \<Rightarrow> u8" where
  "rand_char r1 r2 = (if r1 mod 2 \<noteq> 0 then 48 + ucast (r2 mod 10) else 97 + ucast (r2 mod 26))"

section \<open>The client\<close>

definition HOT_RANGE :: u32 where "HOT_RANGE = 1024 * 10"

text \<open>The results of \<open>rand\<close> in one round, in the order of the calls.\<close>

record draw =
  move :: u32
  place :: u32
  spot :: u32
  kind :: u32
  ch_kind :: u32
  ch_value :: u32

text \<open>Filling: the counter is an int, which is incremented after each byte.\<close>

definition fill_byte :: "(nat \<Rightarrow> bool) \<Rightarrow> (nat \<Rightarrow> u8) \<Rightarrow> nat \<Rightarrow> sim \<Rightarrow> sim res" where
  "fill_byte io cs i m = bind_res (put io (of_nat i) (cs i) m) (\<lambda>m. if 2 ^ 31 \<le> i + 1 then Inl Overflow else Inr m)"

definition client_round :: "(nat \<Rightarrow> bool) \<Rightarrow> u32 \<Rightarrow> draw \<Rightarrow> u32 \<times> sim \<Rightarrow> (u8 list \<times> u32 \<times> sim) res" where
  "client_round io buf_size r = (\<lambda>(base, m).
     bind_res (if 95 < move r mod 100 then rand_int (place r) (buf_size - HOT_RANGE) else Inr base) (\<lambda>base.
     bind_res (rand_range (spot r) base HOT_RANGE) (\<lambda>i.
       if kind r mod 100 < 90 then bind_res (get io i m) (\<lambda>(tmp, m). Inr ([tmp], base, m))
       else bind_res (put io i (rand_char (ch_kind r) (ch_value r)) m) (\<lambda>m. Inr ([], base, m)))))"

fun client_loop :: "(nat \<Rightarrow> bool) \<Rightarrow> u32 \<Rightarrow> draw list \<Rightarrow> u32 \<times> sim \<Rightarrow> (u8 list \<times> sim) res" where
  "client_loop io buf_size [] (base, m) = Inr ([], m)"
| "client_loop io buf_size (r # rs) st =
     bind_res (client_round io buf_size r st) (\<lambda>(xs, st). bind_res (client_loop io buf_size rs st) (\<lambda>(ys, m). Inr (xs @ ys, m)))"

definition client :: "(nat \<Rightarrow> bool) \<Rightarrow> string \<Rightarrow> string \<Rightarrow> (nat \<Rightarrow> u8) \<Rightarrow> draw list \<Rightarrow> sim \<Rightarrow> (u8 list \<times> sim) res" where
  "client io phy_size vir_size cs rs m =
     bind_res (trans_size vir_size) (\<lambda>buf_size.
     bind_res (trans_size phy_size) (\<lambda>phys.
     bind_res (for_res (fill_byte io cs) [0..<unat buf_size] (init_page_table buf_size (init_phys_mem phys m))) (\<lambda>m.
     bind_res (client_loop io buf_size rs (0, m)) (\<lambda>(tmps, m). Inr (tmps, destroy_phys_mem (destroy_page_table m))))))"

section \<open>The sizes\<close>

lemma atoi_show_nat: "n < 2 ^ 31 \<Longrightarrow> atoi (show_nat n) = Inr (int n)"
proof -
  assume n: "n < 2 ^ 31"
  obtain ch l where s: "show_nat n = ch # l" "is_digit ch" using show_nat_Cons by blast
  have "\<forall>x \<in> set (show_nat n). is_digit x" using show_nat_chars [of n] by (simp add: list_all_iff)
  then have "takeWhile is_digit (show_nat n) = show_nat n" by (rule takeWhile_eq_all_conv [THEN iffD2])
  moreover have "ch \<notin> {CHR '' '', CHR 0x09, CHR 0x0A, CHR 0x0B, CHR 0x0C, CHR 0x0D}" "ch \<noteq> CHR ''-''" "ch \<noteq> CHR ''+''"
    using s(2) by (auto simp: is_digit_def)
  ultimately show ?thesis using s n digits_value_show_nat [of n] by (auto simp: atoi_def Let_def takeWhile_eq_all_conv [THEN iffD2])
qed

lemma trans_size_unit:
  assumes "n < 2 ^ 31" "u \<in> {CHR ''G'', CHR ''M'', CHR ''K''}"
  shows "trans_size (show_nat n @ [u]) = Inr (of_nat n * unit_of u)"
proof -
  have "\<not> is_digit u" using assms(2) by (auto simp: is_digit_def)
  then show ?thesis using atoi_show_nat [OF assms(1)] by (simp add: trans_size_def)
qed

section \<open>The accesses of the client\<close>

definition next_base :: "u32 \<Rightarrow> draw \<Rightarrow> u32 \<Rightarrow> u32" where
  "next_base buf_size r base = (if 95 < move r mod 100 then place r mod (buf_size - HOT_RANGE) else base)"

definition round_access :: "draw \<Rightarrow> u32 \<Rightarrow> access" where
  "round_access r base =
     (let i = spot r mod HOT_RANGE + base in if kind r mod 100 < 90 then Get i else Put i (rand_char (ch_kind r) (ch_value r)))"

fun loop_accesses :: "u32 \<Rightarrow> draw list \<Rightarrow> u32 \<Rightarrow> access list" where
  "loop_accesses buf_size [] base = []"
| "loop_accesses buf_size (r # rs) base =
     (let base = next_base buf_size r base in round_access r base # loop_accesses buf_size rs base)"

definition fill_accesses :: "(nat \<Rightarrow> u8) \<Rightarrow> nat \<Rightarrow> access list" where
  "fill_accesses cs n = map (\<lambda>i. Put (of_nat i) (cs i)) [0..<n]"

lemma sim_run_append:
  "sim_run io (xs @ ys) m = bind_res (sim_run io xs m) (\<lambda>(bs, m). bind_res (sim_run io ys m) (\<lambda>(ds, m). Inr (bs @ ds, m)))"
proof (induction io xs m rule: sim_run.induct)
  case (1 io m)
  then show ?case by (cases "sim_run io ys m") auto
next
  case (2 io a xs m)
  show ?case
  proof (cases "get io a m")
    case (Inr p)
    obtain b m' where p: "p = (b, m')" by force
    show ?thesis using 2 by (cases "sim_run io xs m'"; cases "sim_run io ys (snd (projr (sim_run io xs m')))") (auto simp: Inr p)
  qed simp
next
  case (3 io a b xs m)
  then show ?case by (cases "put io a b m") simp_all
qed

lemma bind_res_Inr_right: "bind_res m Inr = m"
  by (cases m) simp_all

lemma client_loop_run:
  assumes "buf_size \<noteq> HOT_RANGE"
  shows "client_loop io buf_size rs (base, m) = sim_run io (loop_accesses buf_size rs base) m"
proof (induction rs arbitrary: base m)
  case (Cons r rs)
  have hot: "HOT_RANGE \<noteq> 0" by (simp add: HOT_RANGE_def)
  let ?b = "next_base buf_size r base" let ?i = "spot r mod HOT_RANGE + ?b"
  have "client_round io buf_size r (base, m) =
      (if kind r mod 100 < 90 then bind_res (get io ?i m) (\<lambda>(tmp, m). Inr ([tmp], ?b, m))
       else bind_res (put io ?i (rand_char (ch_kind r) (ch_value r)) m) (\<lambda>m. Inr ([], ?b, m)))"
    using assms hot by (simp add: client_round_def next_base_def rand_int_def rand_range_def)
  then show ?case
    by (cases "get io ?i m"; cases "put io ?i (rand_char (ch_kind r) (ch_value r)) m")
      (auto simp: Cons.IH round_access_def Let_def bind_res_Inr_right)
qed simp

lemma fill_run:
  assumes "\<forall>i \<in> set l. i + 1 < 2 ^ 31" "sim_run io (map (\<lambda>i. Put (of_nat i) (cs i)) l) m = Inr (bs, m')"
  shows "for_res (fill_byte io cs) l m = Inr m' \<and> bs = []"
  using assms
proof (induction l arbitrary: m)
  case (Cons i l)
  then obtain m1 where "put io (of_nat i) (cs i) m = Inr m1" "sim_run io (map (\<lambda>i. Put (of_nat i) (cs i)) l) m1 = Inr (bs, m')"
    by (auto simp: bind_res_Inr_iff)
  with Cons show ?case by (simp add: fill_byte_def)
qed simp

lemma loop_in_range:
  assumes "unat HOT_RANGE < unat buf_size" "unat base + unat HOT_RANGE \<le> unat buf_size" "x \<in> set (loop_accesses buf_size rs base)"
  shows "target x < unat buf_size"
  using assms(2,3)
proof (induction rs arbitrary: base)
  case (Cons r rs)
  let ?b = "next_base buf_size r base"
  have lt: "unat buf_size < 2 ^ 32" by (rule order.strict_trans2 [OF unsigned_less]) simp
  have le: "HOT_RANGE < buf_size" using assms(1) by (simp add: word_less_nat_alt)
  then have diff: "unat (buf_size - HOT_RANGE) = unat buf_size - unat HOT_RANGE" by (intro unat_sub) simp
  have "place r mod (buf_size - HOT_RANGE) < buf_size - HOT_RANGE" using le by (intro word_mod_less_divisor) (simp add: word_gt_0)
  then have b: "unat ?b + unat HOT_RANGE \<le> unat buf_size"
    using Cons.prems(1) diff assms(1) by (auto simp: next_base_def word_less_nat_alt)
  have "unat (spot r mod HOT_RANGE) < unat HOT_RANGE" by (simp add: unat_mod HOT_RANGE_def)
  then have "unat (spot r mod HOT_RANGE + ?b) < unat buf_size"
    using b lt by (subst unat_plus_if_size) (simp add: word_size)
  then have "target (round_access r ?b) < unat buf_size" by (simp add: round_access_def Let_def)
  then show ?case using Cons.IH [OF b] Cons.prems(2) by (auto simp: Let_def)
qed simp

text \<open>After the filling the memory holds the characters that were drawn.\<close>

lemma mem_run_fill:
  assumes "n \<le> 2 ^ 32"
  shows "mem_run (fill_accesses cs n @ xs) mem = mem_run xs (\<lambda>a. if a < n then cs a else mem a)"
  using assms
proof (induction n arbitrary: xs)
  case (Suc n)
  then have "unat (of_nat n :: u32) = n" by (simp add: unat_of_nat)
  moreover have "(\<lambda>a. if a < n then cs a else mem a)(n := cs n) = (\<lambda>a. if a < Suc n then cs a else mem a)" by (auto simp: fun_eq_iff less_Suc_eq)
  ultimately show ?case using Suc.IH [of "Put (of_nat n) (cs n) # xs"] Suc.prems by (simp add: fill_accesses_def)
qed (simp add: fill_accesses_def)

lemma fill_in_range: "n \<le> 2 ^ 32 \<Longrightarrow> x \<in> set (fill_accesses cs n) \<Longrightarrow> target x < n"
  by (auto simp: fill_accesses_def unat_of_nat)

section \<open>Properties\<close>

text \<open>
  C21: the client works on a memory of the size it was given. For a virtual size of whole pages, larger than the range of
  10 KB it moves in and below 2 GB, and a physical size of at least one and at most as many pages, the client fills
  the memory and then reads and writes inside it for any number of rounds, whatever \<open>rand\<close> returns: it divides
  by no zero, leaves no array, and every read returns the last character written. It leaves no swap file behind for the
  next run.
\<close>

theorem client_runs:
  assumes "trans_size vir_size = Inr buf_size" "trans_size phy_size = Inr phys"
    and "PAGE_SIZE dvd unat buf_size" "unat HOT_RANGE < unat buf_size" "unat buf_size < 2 ^ 31"
    and "0 < unat phys div PAGE_SIZE" "unat phys div PAGE_SIZE \<le> unat buf_size div PAGE_SIZE" "swap_files m0 = Map.empty" "\<forall>v. io v"
  shows "\<exists>m. client io phy_size vir_size cs rs m0 = Inr (mem_run (loop_accesses buf_size rs 0) (\<lambda>a. if a < unat buf_size then cs a else 0), m) \<and>
     swap_files m = Map.empty"
proof -
  let ?n = "unat buf_size" let ?m = "init_page_table buf_size (init_phys_mem phys m0)" and ?loop = "loop_accesses buf_size rs 0"
  note wf = sim_init_wf [OF assms(6-8)]
  have pages: "a div PAGE_SIZE < ?n div PAGE_SIZE" if "a < ?n" for a
    using that assms(3) by (auto elim!: dvdE simp: PAGE_SIZE_def less_mult_imp_div_less mult.commute)
  have range: "\<forall>x \<in> set (fill_accesses cs ?n @ ?loop). target x div PAGE_SIZE < length (pgtable ?m)"
    using fill_in_range [of ?n _ cs] loop_in_range [OF assms(4), of 0 _ rs] assms(4,5) pages wf(3) by (auto simp: HOT_RANGE_def)
  obtain m where m: "sim_run io (fill_accesses cs ?n @ ?loop) ?m = Inr (mem_run ?loop (\<lambda>a. if a < ?n then cs a else 0), m)"
    using sim_run_ok [OF wf(1,2) range assms(9)] mem_run_fill [of ?n cs ?loop "\<lambda>_. 0"] assms(5) by auto
  obtain bs m1 ds where m1: "sim_run io (fill_accesses cs ?n) ?m = Inr (bs, m1)" "sim_run io ?loop m1 = Inr (ds, m)"
    "bs @ ds = mem_run ?loop (\<lambda>a. if a < ?n then cs a else 0)" using m by (auto simp: sim_run_append bind_res_Inr_iff)
  have fill: "for_res (fill_byte io cs) [0..<?n] ?m = Inr m1" "bs = []"
    using fill_run [of "[0..<?n]" io cs ?m bs m1] m1(1) assms(5) by (auto simp: fill_accesses_def)
  have "buf_size \<noteq> HOT_RANGE" using assms(4) by auto
  then show ?thesis using m1(2,3) fill assms(1,2) client_loop_run
    by (simp add: client_def destroy_phys_mem_def destroy_page_table_def)
qed

definition one_read :: draw where
  "one_read = \<lparr>move = 3, place = 0, spot = 5, kind = 20, ch_kind = 0, ch_value = 0\<rparr>"

lemma client_sizes: "trans_size ''12K'' = Inr 12288" "trans_size ''8K'' = Inr 8192"
  using trans_size_unit [of 12 "CHR ''K''"] trans_size_unit [of 8 "CHR ''K''"]
  by (simp_all add: unit_of_def show_nat.simps char_of_def bit_Suc_0_iff)

theorem client_runs_witness:
  "\<exists>m. client (\<lambda>_. True) ''8K'' ''12K'' (\<lambda>i. 97 + of_nat (i mod 26)) [one_read] empty_sim = Inr ([102], m) \<and> swap_files m = Map.empty"
proof -
  have "\<exists>m. client (\<lambda>_. True) ''8K'' ''12K'' (\<lambda>i. 97 + of_nat (i mod 26)) [one_read] empty_sim =
      Inr (mem_run (loop_accesses 12288 [one_read] 0) (\<lambda>a. if a < unat (12288 :: u32) then 97 + of_nat (a mod 26) else 0), m) \<and> swap_files m = Map.empty"
    by (rule client_runs [OF client_sizes]) (simp_all add: PAGE_SIZE_def HOT_RANGE_def empty_sim_def)
  then show ?thesis by (simp add: one_read_def next_base_def round_access_def HOT_RANGE_def unat_mod)
qed

text \<open>
  The page table has whole pages only, but the client fills the memory to its last byte: with a size that is not a
  multiple of the page size it leaves the page table.
\<close>

lemma partial_page_overruns:
  fixes buf_size :: u32
  assumes "\<not> PAGE_SIZE dvd unat buf_size" "length (pgtable m) = unat buf_size div PAGE_SIZE"
  shows "\<exists>i < unat buf_size. put io (of_nat i) b m = Inl Out_Of_Bounds"
proof -
  let ?i = "unat buf_size - 1"
  have P: "0 < PAGE_SIZE" by (simp add: PAGE_SIZE_def)
  have "0 < unat buf_size mod PAGE_SIZE" using assms(1) by (simp add: mod_greater_zero_iff_not_dvd)
  then have "unat buf_size div PAGE_SIZE * PAGE_SIZE \<le> ?i" "0 < unat buf_size"
    using div_mult_mod_eq [of "unat buf_size" PAGE_SIZE] by linarith+
  then have i: "length (pgtable m) \<le> ?i div PAGE_SIZE" "?i < unat buf_size"
    using assms(2) P by (simp_all add: less_eq_div_iff_mult_less_eq)
  have "unat buf_size < 2 ^ 32" by (rule order.strict_trans2 [OF unsigned_less]) simp
  then have "unat (of_nat ?i :: u32) = ?i" by (simp add: unat_of_nat)
  then have "arr_get (pgtable m) (int (unat (index (of_nat ?i)))) = Inl Out_Of_Bounds" using i(1) by (simp add: unat_index arr_get_def)
  then show ?thesis using i(2) by (intro exI [of _ ?i]) (simp add: put_def Let_def)
qed

text \<open>A size of 4 GB is no size at all: the product wraps to 0.\<close>

lemma four_gigabytes: "trans_size (show_nat 4 @ ''G'') = Inr 0"
  using trans_size_unit [of 4 "CHR ''G''"] by (simp add: unit_of_def)

end
