(* ===== verification/Spec2Isabelle.thy ===== *)
theory Spec2Isabelle
  imports Trigger Daemon_Run Request_Hazards Protocol Hw_Queues Configfs Sim_Client
begin

text \<open>
  Infiniswap: swap space on the free memory of other machines.

  \<^bold>\<open>The program.\<close> A block device, a kernel module under \<open>Infiniswap/infiniswap_bd\<close>, serves swap requests from chunks of
  1 GB that memory daemons (\<open>Infiniswap/infiniswap_daemon\<close>) on other machines lend it, with a local disk as
  backup. An administrator makes sessions and devices through configfs. A trigger thread maps chunks that are used
  often: it asks some daemons for their free memory, and the one with most lends a chunk. Writes go to the
  chunk by RDMA and to the disk, and a bitmap per chunk records the pages the chunk holds; reads go to the chunk for recorded
  pages and to the disk otherwise. A daemon that runs short of memory asks for activity reports, picks the least active
  chunks and stops them; the eviction thread of the block device gives them up and looks for new homes. A daemon
  that is lost loses its chunks, the disk still has the pages. Beside it \<open>test/simulation\<close> holds a paging simulator.

  \<^bold>\<open>How the code is modelled.\<close> A C function is a HOL function of the same name on a record of the state it changes. What
  goes wrong is a value: \<open>c_error\<close> names an access outside an array, a NULL or freed pointer, a bad free, an overflow, a
  division by zero, the end of the process and a wait without end; \<open>'a res\<close> is an error or a result. Loops over a
  counter are \<open>for_res\<close>, machine integers are words where they may wrap. The kernel, the verbs library, random
  numbers and what the peer answers are arguments.

  \<^bold>\<open>The block device.\<close>
  \<^item> \<open>IS_Prelude\<close>, \<open>IS_Types\<close>, \<open>Byte_Order\<close>: results, arrays, loops and counting; the data of \<open>infiniswap.h\<close>; the byte
    order conversions of both programs, instances of the locale \<open>wire_codec\<close>, with their round trips.
  \<^item> \<open>Bitmap\<close> (\<open>is_mq.c\<close>): the page bitmaps, an instance of the locale \<open>page_bitmap\<close>; a range sets exactly its pages.
  \<^item> \<open>Ctx_Pool\<close> (\<open>is_main.c\<close>): the pools of transfer contexts, an instance of the locale \<open>ctx_stack\<close>; the
    search for a context returns unless all pools are empty, and then does not end.
  \<^item> \<open>Chunk_Map\<close> (\<open>IS_session_create\<close>, \<open>IS_single_chunk_init\<close>, \<open>IS_chunk_list_init\<close>, \<open>client_recv\<close>): the tables that
    place chunks on servers, their invariant \<open>map_inv\<close> and the control messages that change them.
  \<^item> \<open>Conn_Setup\<close> (\<open>rdma_connect_upper\<close>, \<open>rdma_connect_down\<close>): a ledger of the verbs objects on every error path.
  \<^item> \<open>Server_Select\<close> (\<open>IS_single_chunk_map\<close>): the choice of a server and the binding of a chunk; \<open>Trigger\<close>
    (\<open>rdma_trigger\<close>): which chunks are mapped; \<open>Evict\<close> (\<open>evict_handler\<close>): chunks given back and mapped again; \<open>Failover\<close>
    (\<open>IS_disconnect_handler\<close>): a server is lost. Each shows that the tables agree afterwards and which placements changed.
    What the servers must answer is the locale \<open>server_env\<close>.
  \<^item> \<open>Request\<close>, \<open>Request_Inv\<close>, \<open>Block_Device\<close> (\<open>IS_queue_rq\<close> to the completion handlers): for requests of one page,
    one after the other, the device refines an array of pages under every order of the steps of disk and network.
    \<open>Request_Hazards\<close> shows the states and orders in which it does not.
  \<^item> \<open>Portal\<close>, \<open>Device\<close>, \<open>Hw_Queues\<close>, \<open>Configfs\<close> (\<open>is_configfs.c\<close>, the registration in \<open>is_mq.c\<close>): the portal
    string and its parser, the kernel objects of a device over its life, the split of the hardware queues over memory nodes,
    and the configfs operations, which keep the tree of sessions and devices well formed.

  \<^bold>\<open>The memory daemon\<close> (\<open>rdma-common.c\<close>, \<open>infiniswap-daemon.c\<close>).
  \<^item> \<open>Daemon\<close>, \<open>Daemon_Inv\<close>: the handlers of connection events and messages, the invariant of the tables, and the refinement
    of an abstract lender of chunks; \<open>Daemon_Run\<close>: the state machine of all handlers in any order.
  \<^item> \<open>Daemon_Mem\<close>: reading \<open>/proc/meminfo\<close>, the filter in IEEE arithmetic and the expansion; \<open>Daemon_Evict\<close>: the
    eviction thread, whose selection loop is equivalent to sorting by activity.

  \<^bold>\<open>Both together.\<close> \<open>Protocol\<close> lets the handlers of the daemon answer the block device. It interprets \<open>server_env\<close> on
  them, and shows that mapping and evicting a chunk keep the tables of the two programs in step.

  \<^bold>\<open>The simulator.\<close> \<open>Sim_Page\<close> (\<open>sim_page.h\<close>): \<open>get\<close> and \<open>put\<close> refine an array of bytes over the clock algorithm and
  the swap files; \<open>Sim_Client\<close> (\<open>client.c\<close>, \<open>utils.h\<close>): its client stays inside the memory.

  \<^bold>\<open>Loops and fuel.\<close> Loops that may not end are partial functions (\<open>find_ctx\<close>, \<open>probe_cb\<close>, \<open>map_retry\<close>), and that they
  return is proved where it is claimed. \<open>probe_chunk\<close> has fuel for one round of a table that does not change
  meanwhile: a probe that fails for a whole round fails for ever. \<open>clock_hand\<close> ends on every page table.
  The endless loops of the threads are modelled by one round, or by a list of rounds.

  \<^bold>\<open>Not modelled.\<close>
  \<^item> Locks, memory ordering and preemption: a handler is one step. The interleavings that are modelled are those of
    requests with the steps of disk and network, and of the handlers of the daemon.
  \<^item> Requests that overlap other requests in flight are not part of the refinement; the path of requests over two chunks
    is defined, not specified.
  \<^item> The loops that wait for events (\<open>main\<close>, \<open>poll_cq\<close>), the connection parameters and addresses
    (\<open>build_params\<close>, \<open>fill_sockaddr\<close>), the callbacks that only log, and the tables of functions: they only feed libraries
    and the kernel.
  \<^item> Kernels before 3.16 but for \<open>IS_alloc_hctx\<close>.
  \<^item> The scripts, the build files, the patch, the benchmark drivers under \<open>test\<close>, and the RDMA and persistent
    memory variants of the simulator: calls of system tools and libraries without state of their own.
\<close>

end
